(* ===== verification/Prelude.thy ===== *)
theory Prelude
  imports Main "HOL-Library.Word" "HOL-Library.Monad_Syntax" "HOL-Library.Sublist"
begin

text \<open>
  Shared vocabulary of the development: machine integer types, byte buffers with
  bounds-checked reads, the big- and little-endian decoders behind \<open>ntohs\<close>, \<open>ntohl\<close> and
  the in-memory \<open>s_addr\<close>, decimal printing (\<open>std::to_string\<close>), tab-separated text, and
  the collections of simplification rules that the component theories extend.
\<close>

unbundle bit_operations_syntax

named_theorems seq_simps \<open>rules about 32-bit sequence number arithmetic\<close>
named_theorems inv_simps \<open>facts that unfold component invariants\<close>
named_theorems text_simps \<open>facts about printed text\<close>

section \<open>Machine integers and buffers\<close>

type_synonym u8 = "8 word"
type_synonym u16 = "16 word"
type_synonym u32 = "32 word"
type_synonym u64 = "64 word"
type_synonym bytes = "u8 list"
type_synonym seconds = int

record timeval =
  tv_sec :: int
  tv_usec :: int

text \<open>
  A read of a C buffer. \<open>None\<close> is a read outside the buffer, which is undefined
  behaviour in the code; the component theories prove where it cannot happen and exhibit
  the inputs for which it does.
\<close>

definition rd8 :: "bytes \<Rightarrow> nat \<Rightarrow> u8 option" where
  "rd8 d i = (if i < length d then Some (d ! i) else None)"

definition be16 :: "u8 \<Rightarrow> u8 \<Rightarrow> u16" where
  "be16 a b = (push_bit 8 (ucast a)) OR ucast b"

definition be32 :: "u8 \<Rightarrow> u8 \<Rightarrow> u8 \<Rightarrow> u8 \<Rightarrow> u32" where
  "be32 a b c d = (push_bit 24 (ucast a)) OR (push_bit 16 (ucast b)) OR
                  (push_bit 8 (ucast c)) OR ucast d"

definition le32 :: "u8 \<Rightarrow> u8 \<Rightarrow> u8 \<Rightarrow> u8 \<Rightarrow> u32" where
  "le32 a b c d = be32 d c b a"

definition rd_be16 :: "bytes \<Rightarrow> nat \<Rightarrow> u16 option" where
  "rd_be16 d i = do { a \<leftarrow> rd8 d i; b \<leftarrow> rd8 d (i + 1); Some (be16 a b) }"

definition rd_be32 :: "bytes \<Rightarrow> nat \<Rightarrow> u32 option" where
  "rd_be32 d i = do { a \<leftarrow> rd8 d i; b \<leftarrow> rd8 d (i + 1); c \<leftarrow> rd8 d (i + 2);
                     e \<leftarrow> rd8 d (i + 3); Some (be32 a b c e) }"

definition rd_le32 :: "bytes \<Rightarrow> nat \<Rightarrow> u32 option" where
  "rd_le32 d i = do { a \<leftarrow> rd8 d i; b \<leftarrow> rd8 d (i + 1); c \<leftarrow> rd8 d (i + 2);
                     e \<leftarrow> rd8 d (i + 3); Some (le32 a b c e) }"

lemma rd8_Some [simp]: "i < length d \<Longrightarrow> rd8 d i = Some (d ! i)"
  by (simp add: rd8_def)

lemma rd8_eq_None [simp]: "rd8 d i = None \<longleftrightarrow> length d \<le> i"
  by (auto simp: rd8_def)

lemma rd_be16_Some [simp]:
  "i + 1 < length d \<Longrightarrow> rd_be16 d i = Some (be16 (d ! i) (d ! (i + 1)))"
  by (simp add: rd_be16_def)

lemma rd_be32_Some [simp]:
  "i + 3 < length d \<Longrightarrow> rd_be32 d i = Some (be32 (d ! i) (d ! (i + 1)) (d ! (i + 2)) (d ! (i + 3)))"
  by (simp add: rd_be32_def)

lemma rd_le32_Some [simp]:
  "i + 3 < length d \<Longrightarrow> rd_le32 d i = Some (le32 (d ! i) (d ! (i + 1)) (d ! (i + 2)) (d ! (i + 3)))"
  by (simp add: rd_le32_def)

text \<open>The two bytes \<open>htons\<close> stores for a 16-bit value.\<close>

definition htons_bytes :: "u16 \<Rightarrow> bytes" where
  "htons_bytes w = [ucast (drop_bit 8 w), ucast w]"

lemma bit_be16:
  "bit (be16 a b) n \<longleftrightarrow> (if n < 8 then bit b n else n < 16 \<and> bit a (n - 8))"
  by (auto simp: be16_def bit_simps not_less dest: bit_imp_le_length)

lemma be16_htons [simp]:
  "be16 (ucast (drop_bit 8 w)) (ucast w) = w"
  by (rule bit_word_eqI) (auto simp: bit_be16 bit_simps)

lemma length_htons_bytes [simp]: "length (htons_bytes w) = 2"
  by (simp add: htons_bytes_def)

section \<open>Signed differences of 32-bit words\<close>

lemma sint_of_int_small:
  assumes "- (2 ^ 31) \<le> k" and "k < 2 ^ 31"
  shows "sint (word_of_int k :: u32) = k"
  using assms by (simp add: signed_take_bit_int_eq_self_iff signed_of_int)

lemma unat_of_int_small:
  assumes "0 \<le> k" and "k < 2 ^ 32"
  shows "unat (word_of_int k :: u32) = nat k"
proof -
  have "take_bit 32 k = k"
    using assms by (simp add: take_bit_int_eq_self_iff)
  then show ?thesis by (simp add: unsigned_of_int)
qed

text \<open>C's division truncates towards zero.\<close>

definition c_div :: "int \<Rightarrow> int \<Rightarrow> int" where
  "c_div a b = sgn a * sgn b * (\<bar>a\<bar> div \<bar>b\<bar>)"

section \<open>Decimal text\<close>

fun dec_nat :: "nat \<Rightarrow> string" where
  "dec_nat n = (if n < 10 then [char_of (48 + n)] else dec_nat (n div 10) @ [char_of (48 + n mod 10)])"

declare dec_nat.simps [simp del]

definition dec_int :: "int \<Rightarrow> string" where
  "dec_int i = (if i < 0 then CHR ''-'' # dec_nat (nat (- i)) else dec_nat (nat i))"

definition dec_val :: "string \<Rightarrow> nat" where
  "dec_val s = foldl (\<lambda>v c. 10 * v + (of_char c - 48)) 0 s"

lemma dec_val_snoc: "dec_val (s @ [c]) = 10 * dec_val s + (of_char c - 48)"
  by (simp add: dec_val_def)

lemma dec_val_dec_nat [text_simps]: "dec_val (dec_nat n) = n"
proof (induction n rule: dec_nat.induct)
  case (1 n)
  show ?case
  proof (cases "n < 10")
    case True
    then show ?thesis by (simp add: dec_nat.simps[of n] dec_val_def)
  next
    case False
    with 1 show ?thesis by (simp add: dec_nat.simps[of n] dec_val_snoc)
  qed
qed

lemma dec_nat_inj [text_simps]: "dec_nat m = dec_nat n \<longleftrightarrow> m = n"
  by (metis dec_val_dec_nat)

lemma dec_nat_digits: "c \<in> set (dec_nat n) \<Longrightarrow> 48 \<le> (of_char c :: nat) \<and> (of_char c :: nat) < 58"
proof (induction n rule: dec_nat.induct)
  case (1 n)
  then show ?case
    by (cases "n < 10") (auto simp: dec_nat.simps[of n])
qed

lemma dec_nat_nonempty [simp]: "dec_nat n \<noteq> []"
  by (subst dec_nat.simps) simp

section \<open>Tab-separated fields\<close>

definition tab :: char where
  "tab = CHR 0x09"

fun tab_join :: "string list \<Rightarrow> string" where
  "tab_join [] = []"
| "tab_join [x] = x"
| "tab_join (x # y # ys) = x @ tab # tab_join (y # ys)"

lemma tab_neq [simp]: "tab \<noteq> CHR ''.''" "tab \<noteq> CHR ''-''" "tab \<noteq> CHR '':''"
  by (simp_all add: tab_def)

lemma unat_eq_iff [text_simps]: "unat a = unat b \<longleftrightarrow> a = b"
  by (rule word_unat_eq_iff [symmetric])

lemma split_unique:
  "\<lbrakk>x @ c # u = y @ c # v; c \<notin> set x; c \<notin> set y\<rbrakk> \<Longrightarrow> x = y \<and> u = v"
proof (induction x arbitrary: y)
  case Nil
  then show ?case by (cases y) auto
next
  case (Cons a x)
  then show ?case by (cases y) auto
qed

text \<open>Fields without a tab can be read back from the joined line.\<close>

lemma tab_join_inj:
  assumes "length xs = length ys"
    and "\<And>x. x \<in> set xs \<Longrightarrow> tab \<notin> set x" and "\<And>y. y \<in> set ys \<Longrightarrow> tab \<notin> set y"
    and "tab_join xs = tab_join ys"
  shows "xs = ys"
  using assms
proof (induction xs ys rule: list_induct2)
  case Nil
  then show ?case by simp
next
  case (Cons x xs y ys)
  show ?case
  proof (cases xs)
    case Nil
    with Cons show ?thesis by simp
  next
    case (Cons a as)
    then obtain b bs where ys: "ys = b # bs"
      using Cons.hyps by (cases ys) auto
    have "x @ tab # tab_join xs = y @ tab # tab_join ys"
      using \<open>tab_join (x # xs) = tab_join (y # ys)\<close> Cons ys by simp
    moreover have "tab \<notin> set x" "tab \<notin> set y"
      using Cons.prems by auto
    ultimately have "x = y" "tab_join xs = tab_join ys"
      by (blast dest: split_unique)+
    with Cons.IH Cons.prems show ?thesis by simp
  qed
qed

lemma dec_nat_char:
  assumes "c \<in> set (dec_nat n)"
  shows "c \<noteq> tab" and "c \<noteq> CHR ''.''"
  using dec_nat_digits[OF assms] by (auto simp: tab_def)

lemma dec_nat_no_tab [text_simps]: "tab \<notin> set (dec_nat n)"
  using dec_nat_char by blast

lemma dec_nat_no_dot [text_simps]: "CHR ''.'' \<notin> set (dec_nat n)"
  using dec_nat_char by blast

section \<open>Lists\<close>

lemma find_mem: "find P xs = Some x \<Longrightarrow> x \<in> set xs \<and> P x"
  by (auto simp: find_Some_iff)

lemma sum_list_filter_le:
  "(\<And>x. x \<in> set xs \<Longrightarrow> 0 \<le> f x) \<Longrightarrow> sum_list (map f (filter P xs)) \<le> (sum_list (map f xs) :: int)"
  by (induction xs) (auto, smt (verit))

lemma length_filter_unique:
  "\<lbrakk>distinct (map f xs); x \<in> set xs\<rbrakk> \<Longrightarrow> filter (\<lambda>y. f y = f x) xs = [x]"
proof (induction xs)
  case Nil
  then show ?case by simp
next
  case (Cons a xs)
  have "filter (\<lambda>y. f y = f a) xs = []"
    using Cons.prems(1) by (auto simp: filter_empty_conv) (metis image_eqI)
  with Cons show ?case by auto
qed

text \<open>A strictly sorted list is determined by its elements.\<close>

lemma sorted_wrt_set_unique:
  assumes "\<And>x y. R x y \<Longrightarrow> \<not> R y x"
  shows "\<lbrakk>sorted_wrt R xs; sorted_wrt R ys; set xs = set ys\<rbrakk> \<Longrightarrow> xs = ys"
proof (induction xs arbitrary: ys)
  case Nil
  then show ?case by simp
next
  case (Cons x xs)
  then obtain y ys' where ys: "ys = y # ys'"
    by (cases ys) auto
  have "x = y"
    using Cons.prems assms ys by (metis insertE insertI1 list.simps(15) sorted_wrt.simps(2))
  moreover have "x \<notin> set xs" "y \<notin> set ys'"
    using Cons.prems assms[of x x] assms[of y y] ys by auto
  ultimately have "set xs = set ys'"
    using Cons.prems ys by (metis insert_ident list.simps(15))
  with Cons.IH[of ys'] Cons.prems ys \<open>x = y\<close> show ?case by simp
qed

end
