(* ===== verification/Command_Line.thy ===== *)
theory Command_Line
  imports Prelude
begin

text \<open>
  \<open>main\<close> of \<open>noff.cc\<close> up to the start of the capture: the options, the addresses of the UDP
  clients and the latch that waits for the workers. \<open>getopt\<close> is a parameter in the form of what
  it returned, one option character and its argument after the other (\<open>?\<close> for anything it does
  not know). Proved: no option overflows the two character arrays and there is at least one
  worker; which ports make two clients share an address; when \<open>main\<close> waits for ever.
\<close>

section \<open>The C library\<close>

text \<open>\<open>strcpy\<close> into an array; \<open>None\<close> is a write behind its end.\<close>

definition strcpy :: "string \<Rightarrow> string \<Rightarrow> string option" where
  "strcpy dest src = (if length src < length dest then Some (src @ CHR 0x00 # drop (length src + 1) dest) else None)"

definition isspace :: "char \<Rightarrow> bool" where
  "isspace c \<longleftrightarrow> c = CHR '' '' \<or> (9 \<le> (of_char c :: nat) \<and> (of_char c :: nat) \<le> 13)"

definition isdigit :: "char \<Rightarrow> bool" where
  "isdigit c \<longleftrightarrow> 48 \<le> (of_char c :: nat) \<and> (of_char c :: nat) \<le> 57"

definition decimal :: "string \<Rightarrow> int" where
  "decimal s = foldl (\<lambda>v c. 10 * v + (int (of_char c) - 48)) 0 (takeWhile isdigit s)"

text \<open>\<open>atoi\<close> is undefined (\<open>None\<close>) for a number that is not an \<open>int\<close>.\<close>

definition atoi :: "string \<Rightarrow> int option" where
  "atoi s = (let v = (case dropWhile isspace s of
         [] \<Rightarrow> 0
       | c # r \<Rightarrow> if c = CHR ''-'' then - decimal r else if c = CHR ''+'' then decimal r else decimal (c # r))
     in if - (2 ^ 31) \<le> v \<and> v < 2 ^ 31 then Some v else None)"

section \<open>Options\<close>

record options =
  o_name :: string
  o_nPackets :: int
  o_nWorkers :: int
  o_fileCapture :: bool
  o_singleThread :: bool
  o_ip_addr :: string
  o_port :: u16

text \<open>\<open>char a[n] = "..."\<close> fills the array up with zeros.\<close>

definition char_array :: "nat \<Rightarrow> string \<Rightarrow> string" where
  "char_array n s = s @ replicate (n - length s) (CHR 0x00)"

definition default_options :: options where
  "default_options = \<lparr>o_name = char_array 32 ''any'', o_nPackets = 0, o_nWorkers = 1, o_fileCapture = False,
     o_singleThread = False, o_ip_addr = char_array 16 ''10.255.0.12'', o_port = 10666\<rparr>"

definition taskQueSize :: int where
  "taskQueSize = 65536"

text \<open>How \<open>main\<close> ends early: \<open>exit(1)\<close>, a number out of range, or a write behind an array.\<close>

datatype main_end = ExitOne | BadNumber | BufferOverflow

definition copy_name :: "string \<Rightarrow> options \<Rightarrow> main_end + options" where
  "copy_name arg cfg =
     (if length arg \<ge> 31 then Inl ExitOne
      else case strcpy (o_name cfg) arg of None \<Rightarrow> Inl BufferOverflow | Some b \<Rightarrow> Inr (cfg\<lparr>o_name := b\<rparr>))"

definition copy_ip :: "string \<Rightarrow> options \<Rightarrow> main_end + options" where
  "copy_ip arg cfg =
     (if length arg \<ge> 16 then Inl ExitOne
      else case strcpy (o_ip_addr cfg) arg of None \<Rightarrow> Inl BufferOverflow | Some b \<Rightarrow> Inr (cfg\<lparr>o_ip_addr := b\<rparr>))"

definition with_number :: "string \<Rightarrow> (int \<Rightarrow> options) \<Rightarrow> main_end + options" where
  "with_number arg f = (case atoi arg of None \<Rightarrow> Inl BadNumber | Some n \<Rightarrow> Inr (f n))"

definition main_option :: "char \<Rightarrow> string \<Rightarrow> options \<Rightarrow> main_end + options" where
  "main_option opt optarg cfg =
     (if opt = CHR ''f'' then copy_name optarg (cfg\<lparr>o_fileCapture := True\<rparr>)
      else if opt = CHR ''i'' then copy_name optarg cfg
      else if opt = CHR ''c'' then with_number optarg (\<lambda>n. cfg\<lparr>o_nPackets := n\<rparr>)
      else if opt = CHR ''t'' then
        with_number optarg (\<lambda>n. if n \<le> 0 then cfg\<lparr>o_nWorkers := 1, o_singleThread := True\<rparr> else cfg\<lparr>o_nWorkers := n\<rparr>)
      else if opt = CHR ''h'' then copy_ip optarg cfg
      else if opt = CHR ''p'' then with_number optarg (\<lambda>n. cfg\<lparr>o_port := word_of_int n\<rparr>)
      else Inl ExitOne)"

fun main_options :: "(char \<times> string) list \<Rightarrow> options \<Rightarrow> main_end + options" where
  "main_options [] cfg = Inr cfg"
| "main_options ((opt, optarg) # args) cfg =
     (case main_option opt optarg cfg of Inl e \<Rightarrow> Inl e | Inr p \<Rightarrow> main_options args p)"

section \<open>The UDP clients\<close>

datatype udp_client = HttpRequestOutput | HttpResponseOutput | DnsRequestOutput | DnsResponseOutput
  | TcpHeaderOutput | MacCounterOutput | PacketCounterOutput | TcpSessionOutput

text \<open>The address of every client: \<open>ip_addr\<close>, and \<open>port++\<close> or \<open>port2++\<close>, which wrap around.\<close>

fun endpoint :: "options \<Rightarrow> udp_client \<Rightarrow> string \<times> u16" where
  "endpoint cfg HttpRequestOutput = (o_ip_addr cfg, o_port cfg)"
| "endpoint cfg HttpResponseOutput = (o_ip_addr cfg, o_port cfg + 1)"
| "endpoint cfg DnsRequestOutput = (o_ip_addr cfg, o_port cfg + 1 + 1)"
| "endpoint cfg DnsResponseOutput = (o_ip_addr cfg, o_port cfg + 1 + 1 + 1)"
| "endpoint cfg TcpHeaderOutput = (o_ip_addr cfg, 30001)"
| "endpoint cfg MacCounterOutput = (o_ip_addr cfg, 30001 + 1)"
| "endpoint cfg PacketCounterOutput = (o_ip_addr cfg, 30001 + 1 + 1)"
| "endpoint cfg TcpSessionOutput = (o_ip_addr cfg, 30001 + 1 + 1 + 1)"

section \<open>The latch\<close>

text \<open>
  \<open>countDown\<close> counts from \<open>nWorkers\<close> down, once per call of \<open>initInThread\<close>: by \<open>main\<close> itself in
  the single-threaded mode, else by every worker. \<open>wait\<close> returns when the count is not positive.
\<close>

definition initialised_threads :: "options \<Rightarrow> int" where
  "initialised_threads cfg = (if o_singleThread cfg then 1 else o_nWorkers cfg)"

definition wait_returns :: "options \<Rightarrow> bool" where
  "wait_returns cfg \<longleftrightarrow> o_nWorkers cfg - initialised_threads cfg \<le> 0"

section \<open>Lemmas\<close>

definition options_ok :: "options \<Rightarrow> bool" where
  "options_ok cfg \<longleftrightarrow> length (o_name cfg) = 32 \<and> CHR 0x00 \<in> set (o_name cfg) \<and>
     length (o_ip_addr cfg) = 16 \<and> CHR 0x00 \<in> set (o_ip_addr cfg) \<and> 1 \<le> o_nWorkers cfg \<and> o_nWorkers cfg < 2 ^ 31"

lemma default_options_ok: "options_ok default_options"
  by (simp add: options_ok_def default_options_def char_array_def)

lemma strcpy_fits:
  "length src < length dest \<Longrightarrow> \<exists>b. strcpy dest src = Some b \<and> length b = length dest \<and> CHR 0x00 \<in> set b"
  by (simp add: strcpy_def)

lemma main_option_ok:
  assumes "options_ok cfg"
  shows "case main_option opt optarg cfg of Inl e \<Rightarrow> e \<noteq> BufferOverflow | Inr p \<Rightarrow> options_ok p"
proof -
  have "case copy_name optarg p of Inl e \<Rightarrow> e \<noteq> BufferOverflow | Inr q \<Rightarrow> options_ok q" if "options_ok p" for p
    using that strcpy_fits[of optarg "o_name p"] by (auto simp: copy_name_def options_ok_def)
  moreover have "case copy_ip optarg cfg of Inl e \<Rightarrow> e \<noteq> BufferOverflow | Inr q \<Rightarrow> options_ok q"
    using assms strcpy_fits[of optarg "o_ip_addr cfg"] by (auto simp: copy_ip_def options_ok_def)
  moreover have "n < 2 ^ 31" if "atoi optarg = Some n" for n
    using that by (auto simp: atoi_def Let_def split: if_splits)
  ultimately show ?thesis
    using assms by (simp add: main_option_def with_number_def options_ok_def split: option.splits)
qed

lemma main_options_ok:
  "options_ok cfg \<Longrightarrow> case main_options args cfg of Inl e \<Rightarrow> e \<noteq> BufferOverflow | Inr p \<Rightarrow> options_ok p"
proof (induction args cfg rule: main_options.induct)
  case (2 opt optarg args cfg)
  with main_option_ok[OF 2(2), of opt optarg] show ?case
    by (auto split: sum.splits)
qed simp

section \<open>Properties\<close>

text \<open>
  C34: Whatever options are given, no argument is copied behind the end of \<open>name\<close> or \<open>ip_addr\<close>;
  both stay NUL-terminated arrays of their size, and the number of workers is a positive \<open>int\<close>, so
  that the dispatcher, which divides by it as an \<open>unsigned\<close>, does not divide by zero.
\<close>

theorem command_line_bounds:
  "case main_options args default_options of
     Inl e \<Rightarrow> e \<noteq> BufferOverflow
   | Inr cfg \<Rightarrow> length (o_name cfg) = 32 \<and> CHR 0x00 \<in> set (o_name cfg) \<and>
       length (o_ip_addr cfg) = 16 \<and> CHR 0x00 \<in> set (o_ip_addr cfg) \<and> 1 \<le> o_nWorkers cfg \<and> o_nWorkers cfg < 2 ^ 31"
  using main_options_ok[OF default_options_ok, of args] by (simp add: options_ok_def split: sum.splits)

text \<open>
  The eight clients have eight different addresses unless the port given is one of 29998 to
  30004: from there the HTTP and DNS ports run into the fixed ones of the other four clients.
\<close>

theorem client_endpoints_distinct:
  "inj (endpoint cfg) \<longleftrightarrow> o_port cfg \<notin> {29998, 29999, 30000, 30001, 30002, 30003, 30004}"
proof
  assume inj: "inj (endpoint cfg)"
  have "endpoint cfg x \<noteq> endpoint cfg y" if "x \<noteq> y" for x y
    using inj that by (auto dest: injD)
  from this[of DnsResponseOutput TcpHeaderOutput] this[of DnsResponseOutput MacCounterOutput]
    this[of DnsResponseOutput PacketCounterOutput] this[of DnsResponseOutput TcpSessionOutput]
    this[of HttpRequestOutput MacCounterOutput] this[of HttpRequestOutput PacketCounterOutput]
    this[of HttpRequestOutput TcpSessionOutput]
  show "o_port cfg \<notin> {29998, 29999, 30000, 30001, 30002, 30003, 30004}"
    by auto
next
  assume p: "o_port cfg \<notin> {29998, 29999, 30000, 30001, 30002, 30003, 30004}"
  have shift: "o_port cfg + k = n \<longleftrightarrow> o_port cfg = n - k" "n = o_port cfg + k \<longleftrightarrow> o_port cfg = n - k" for k n
    by (auto simp: algebra_simps)
  show "inj (endpoint cfg)"
  proof (rule injI)
    fix x y assume e: "endpoint cfg x = endpoint cfg y"
    show "x = y"
      using p e by (cases x; cases y) (simp_all add: shift add.assoc)
  qed
qed

text \<open>
  After the options are read \<open>main\<close> gets past the latch exactly when it is not asked to run
  single-threaded with more than one worker; the options \<open>-t 0 -t 4\<close> ask for that, and the program
  never starts to capture.
\<close>

theorem main_waits_forever:
  "main_options args default_options = Inr cfg \<Longrightarrow> wait_returns cfg \<longleftrightarrow> \<not> (o_singleThread cfg \<and> o_nWorkers cfg > 1)"
  using main_options_ok[OF default_options_ok, of args]
  by (auto simp: wait_returns_def initialised_threads_def options_ok_def)

lemma main_waits_forever_witness:
  "\<exists>cfg. main_options [(CHR ''t'', ''0''), (CHR ''t'', ''4'')] default_options = Inr cfg \<and> \<not> wait_returns cfg"
proof -
  define p where "p = default_options\<lparr>o_nWorkers := 4, o_singleThread := True\<rparr>"
  have "atoi ''0'' = Some 0" "atoi ''4'' = Some 4"
    by code_simp+
  then have m: "main_options [(CHR ''t'', ''0''), (CHR ''t'', ''4'')] default_options = Inr p"
    by (simp add: main_option_def with_number_def p_def)
  from main_waits_forever[OF m] have "\<not> wait_returns p"
    by (simp add: p_def)
  with m show ?thesis by blast
qed

end
