(* ===== verification/Net_Util.thy ===== *)
theory Net_Util
  imports Prelude
begin

text \<open>
  \<open>dpi/Util.h\<close>: the connection key \<open>tuple4\<close>, its comparison and printing, the sequence
  number comparisons \<open>before\<close> and \<open>after\<close>; and the views of the \<open>struct ip\<close>, \<open>struct tcphdr\<close>
  and \<open>struct udphdr\<close> overlays that the handlers cast packet buffers to (fields of
  \<open>netinet/ip.h\<close>, \<open>tcp.h\<close>, \<open>udp.h\<close> on a little-endian machine; \<open>s_addr\<close> is the word as it
  sits in memory, in network order).
\<close>

section \<open>Connection keys\<close>

definition FROMCLIENT :: int where "FROMCLIENT = 0"
definition FROMSERVER :: int where "FROMSERVER = 1"

record tuple4 =
  source :: u16
  dest :: u16
  saddr :: u32
  daddr :: u32

definition tuple4_eq :: "tuple4 \<Rightarrow> tuple4 \<Rightarrow> bool" where
  "tuple4_eq lhs rhs \<longleftrightarrow> source lhs = source rhs \<and> dest lhs = dest rhs \<and>
     saddr lhs = saddr rhs \<and> daddr lhs = daddr rhs"

lemma tuple4_eq_iff [simp]: "tuple4_eq a b \<longleftrightarrow> a = b"
  by (auto simp: tuple4_eq_def)

text \<open>The key of the opposite direction of the same connection.\<close>

definition t4_reversed :: "tuple4 \<Rightarrow> tuple4" where
  "t4_reversed t = \<lparr>source = dest t, dest = source t, saddr = daddr t, daddr = saddr t\<rparr>"

lemma t4_reversed_sel [simp]:
  "source (t4_reversed t) = dest t" "dest (t4_reversed t) = source t"
  "saddr (t4_reversed t) = daddr t" "daddr (t4_reversed t) = saddr t"
  by (simp_all add: t4_reversed_def)

lemma t4_reversed_twice [simp]: "t4_reversed (t4_reversed t) = t"
  by (simp add: t4_reversed_def)

lemma t4_reversed_inj [simp]: "t4_reversed a = t4_reversed b \<longleftrightarrow> a = b"
  by (metis t4_reversed_twice)

section \<open>Printing addresses and keys\<close>

text \<open>\<open>inet_ntop(AF_INET, ...)\<close>: the four bytes of the address in memory order.\<close>

definition inet_ntop :: "u32 \<Rightarrow> string" where
  "inet_ntop a = dec_nat (unat (take_bit 8 a)) @ ''.'' @
     dec_nat (unat (take_bit 8 (drop_bit 8 a))) @ ''.'' @
     dec_nat (unat (take_bit 8 (drop_bit 16 a))) @ ''.'' @ dec_nat (unat (drop_bit 24 a))"

text \<open>The free function \<open>to_string(const tuple4&)\<close> and the member \<open>tuple4::toString\<close>.\<close>

definition t4_to_string :: "tuple4 \<Rightarrow> string" where
  "t4_to_string t4 = inet_ntop (saddr t4) @ [tab] @ dec_nat (unat (source t4)) @ [tab] @
     inet_ntop (daddr t4) @ [tab] @ dec_nat (unat (dest t4))"

definition t4_toString :: "tuple4 \<Rightarrow> string" where
  "t4_toString t4 = inet_ntop (saddr t4) @ '':'' @ dec_nat (unat (source t4)) @ '' -> '' @
     inet_ntop (daddr t4) @ '':'' @ dec_nat (unat (dest t4))"

lemma word32_from_bytes:
  "a = take_bit 8 a OR push_bit 8 (take_bit 8 (drop_bit 8 a)) OR
       push_bit 16 (take_bit 8 (drop_bit 16 a)) OR push_bit 24 (drop_bit 24 (a :: u32))"
proof (rule bit_word_eqI)
  fix n assume "n < LENGTH(32)"
  then consider "n < 8" | "8 \<le> n \<and> n < 16" | "16 \<le> n \<and> n < 24" | "24 \<le> n \<and> n < 32"
    by fastforce
  then show "bit a n = bit (take_bit 8 a OR push_bit 8 (take_bit 8 (drop_bit 8 a)) OR
       push_bit 16 (take_bit 8 (drop_bit 16 a)) OR push_bit 24 (drop_bit 24 a)) n"
    by cases (auto simp: bit_simps)
qed

lemma dotted_unique:
  "\<lbrakk>dec_nat a @ CHR ''.'' # u = dec_nat b @ CHR ''.'' # v\<rbrakk> \<Longrightarrow> a = b \<and> u = v"
  by (drule split_unique) (auto simp: text_simps)

lemma inet_ntop_inj [text_simps]: "inet_ntop a = inet_ntop b \<longleftrightarrow> a = b"
proof
  assume "inet_ntop a = inet_ntop b"
  then have eqs: "take_bit 8 a = take_bit 8 b" "take_bit 8 (drop_bit 8 a) = take_bit 8 (drop_bit 8 b)"
    "take_bit 8 (drop_bit 16 a) = take_bit 8 (drop_bit 16 b)" "drop_bit 24 a = drop_bit 24 b"
    unfolding inet_ntop_def by (auto dest!: dotted_unique simp: text_simps)
  show "a = b"
    by (subst word32_from_bytes[of a], subst word32_from_bytes[of b]) (simp only: eqs)
qed simp

lemma inet_ntop_no_tab [text_simps]: "tab \<notin> set (inet_ntop a)"
  by (auto simp: inet_ntop_def text_simps)

lemma t4_to_string_fields:
  "t4_to_string t = tab_join [inet_ntop (saddr t), dec_nat (unat (source t)),
     inet_ntop (daddr t), dec_nat (unat (dest t))]"
  by (simp add: t4_to_string_def)

lemma t4_to_string_inj: "t4_to_string a = t4_to_string b \<Longrightarrow> a = b"
proof -
  assume "t4_to_string a = t4_to_string b"
  then have "[inet_ntop (saddr a), dec_nat (unat (source a)), inet_ntop (daddr a), dec_nat (unat (dest a))]
    = [inet_ntop (saddr b), dec_nat (unat (source b)), inet_ntop (daddr b), dec_nat (unat (dest b))]"
    unfolding t4_to_string_fields by (rule tab_join_inj [rotated -1]) (auto simp: text_simps)
  then show ?thesis by (simp add: text_simps)
qed

section \<open>Sequence number comparison\<close>

definition before :: "u32 \<Rightarrow> u32 \<Rightarrow> bool" where
  "before seq1 seq2 \<longleftrightarrow> sint (seq1 - seq2) < 0"

definition after :: "u32 \<Rightarrow> u32 \<Rightarrow> bool" where
  "after seq1 seq2 \<longleftrightarrow> sint (seq2 - seq1) < 0"

lemma after_before: "after a b \<longleftrightarrow> before b a"
  by (simp add: after_def before_def)

lemma before_irrefl [simp]: "\<not> before a a"
  by (simp add: before_def)

text \<open>
  On positions of one stream that lie within half the sequence space of each other the
  comparison is the comparison of the positions, wherever the numbers wrap around.
\<close>

lemma before_offset [seq_simps]:
  assumes "\<bar>j - k\<bar> < 2 ^ 31"
  shows "before (w + word_of_int j) (w + word_of_int k) \<longleftrightarrow> j < k"
proof -
  have "(w + word_of_int j) - (w + word_of_int k) = (word_of_int (j - k) :: u32)"
    by simp
  moreover have "sint (word_of_int (j - k) :: u32) = j - k"
    using assms by (intro sint_of_int_small) auto
  ultimately show ?thesis by (simp add: before_def)
qed

lemma after_offset [seq_simps]:
  assumes "\<bar>j - k\<bar> < 2 ^ 31"
  shows "after (w + word_of_int j) (w + word_of_int k) \<longleftrightarrow> k < j"
  using assms by (simp add: after_before before_offset abs_minus_commute)

section \<open>Header overlays\<close>

text \<open>
  \<open>struct ip\<close>: the fields are read when the pointer is dereferenced; a view exists only
  when the 20 fixed bytes are in the buffer. Lengths and offsets are given after \<open>ntohs\<close>.
\<close>

record iphdr =
  ip_hl :: nat
  ip_v :: nat
  ip_len :: nat
  ip_id :: u16
  ip_off :: u16
  ip_p :: u8
  ip_src :: u32
  ip_dst :: u32

definition IPPROTO_ICMP :: u8 where "IPPROTO_ICMP = 1"
definition IPPROTO_TCP :: u8 where "IPPROTO_TCP = 6"
definition IPPROTO_UDP :: u8 where "IPPROTO_UDP = 17"

definition ip_view :: "bytes \<Rightarrow> iphdr option" where
  "ip_view d = (if length d < 20 then None else Some
     \<lparr>ip_hl = unat (take_bit 4 (d ! 0)), ip_v = unat (drop_bit 4 (d ! 0)),
      ip_len = unat (be16 (d ! 2) (d ! 3)), ip_id = be16 (d ! 4) (d ! 5),
      ip_off = be16 (d ! 6) (d ! 7), ip_p = d ! 9,
      ip_src = le32 (d ! 12) (d ! 13) (d ! 14) (d ! 15),
      ip_dst = le32 (d ! 16) (d ! 17) (d ! 18) (d ! 19)\<rparr>)"

lemma ip_view_None [simp]: "ip_view d = None \<longleftrightarrow> length d < 20"
  by (simp add: ip_view_def)

lemma unat_be16_less: "unat (be16 a b) < 65536"
  using unsigned_less [of "be16 a b"] by simp

lemma ip_view_bounds:
  assumes "ip_view d = Some h"
  shows "20 \<le> length d" "ip_hl h < 16" "ip_len h < 65536"
proof -
  show "20 \<le> length d"
    using assms by (simp add: ip_view_def split: if_splits)
  have "unat (take_bit 4 (d ! 0)) < 16"
    by (simp only: unsigned_take_bit_eq) (simp add: take_bit_eq_mod)
  then show "ip_hl h < 16" "ip_len h < 65536"
    using assms by (auto simp: ip_view_def unat_be16_less split: if_splits)
qed

text \<open>\<open>struct tcphdr\<close> at offset \<open>o\<close> of the buffer, fields after \<open>ntohs\<close>/\<open>ntohl\<close>.\<close>

record tcphdr =
  th_sport :: u16
  th_dport :: u16
  th_seq :: u32
  th_ack :: u32
  th_off :: nat
  th_flags :: u8
  th_win :: u16
  th_urp :: u16

definition TH_FIN :: u8 where "TH_FIN = 1"
definition TH_SYN :: u8 where "TH_SYN = 2"
definition TH_RST :: u8 where "TH_RST = 4"
definition TH_PUSH :: u8 where "TH_PUSH = 8"
definition TH_ACK :: u8 where "TH_ACK = 16"
definition TH_URG :: u8 where "TH_URG = 32"

definition has_flag :: "u8 \<Rightarrow> u8 \<Rightarrow> bool" where
  "has_flag flags m \<longleftrightarrow> flags AND m \<noteq> 0"

definition tcp_view :: "bytes \<Rightarrow> nat \<Rightarrow> tcphdr option" where
  "tcp_view d o' = (if length d < o' + 20 then None else Some
     \<lparr>th_sport = be16 (d ! o') (d ! (o' + 1)), th_dport = be16 (d ! (o' + 2)) (d ! (o' + 3)),
      th_seq = be32 (d ! (o' + 4)) (d ! (o' + 5)) (d ! (o' + 6)) (d ! (o' + 7)),
      th_ack = be32 (d ! (o' + 8)) (d ! (o' + 9)) (d ! (o' + 10)) (d ! (o' + 11)),
      th_off = unat (drop_bit 4 (d ! (o' + 12))), th_flags = d ! (o' + 13),
      th_win = be16 (d ! (o' + 14)) (d ! (o' + 15)),
      th_urp = be16 (d ! (o' + 18)) (d ! (o' + 19))\<rparr>)"

lemma tcp_view_None [simp]: "tcp_view d i = None \<longleftrightarrow> length d < i + 20"
  by (simp add: tcp_view_def)

text \<open>\<open>struct udphdr\<close> at offset \<open>o\<close>: only the two ports are used.\<close>

definition udp_view :: "bytes \<Rightarrow> nat \<Rightarrow> (u16 \<times> u16) option" where
  "udp_view d o' = (if length d < o' + 8 then None else Some
     (be16 (d ! o') (d ! (o' + 1)), be16 (d ! (o' + 2)) (d ! (o' + 3))))"

lemma udp_view_None [simp]: "udp_view d i = None \<longleftrightarrow> length d < i + 8"
  by (simp add: udp_view_def)

text \<open>\<open>htons\<close> and \<open>ntohs\<close> swap the two bytes.\<close>

definition htons :: "u16 \<Rightarrow> u16" where
  "htons w = be16 (ucast w) (ucast (drop_bit 8 w))"

section \<open>Properties\<close>

text \<open>
  Sequence comparison. For two positions of one stream less than half the sequence space
  apart, \<open>before\<close> and \<open>after\<close> decide the order of the positions, also when the 32-bit
  sequence numbers wrap around between them.
\<close>

theorem sequence_order:
  assumes "\<bar>j - k\<bar> < 2 ^ 31"
  shows "(before (w + word_of_int j) (w + word_of_int k) \<longleftrightarrow> j < k) \<and>
         (after (w + word_of_int j) (w + word_of_int k) \<longleftrightarrow> k < j)"
  using assms by (simp add: before_offset after_offset)

lemma sequence_order_witness:
  "before (0xFFFFFFF0 + word_of_int 3) (0xFFFFFFF0 + word_of_int 20) \<and>
   \<not> after (0xFFFFFFF0 + word_of_int 3) (0xFFFFFFF0 + word_of_int 20)"
  using sequence_order[of 3 20 "0xFFFFFFF0"] by simp

text \<open>
  The text form of a connection key determines the key: two tuples print alike only
  when they are equal.
\<close>

theorem t4_to_string_unique: "t4_to_string a = t4_to_string b \<longleftrightarrow> a = b"
  using t4_to_string_inj by auto

end
