(* ===== verification/Ip_Reassembly.thy ===== *)
theory Ip_Reassembly
  imports Net_Util
begin

text \<open>
  The fragment queue of one datagram (\<open>struct ipq\<close> and \<open>struct ipFrag\<close> of
  \<open>dpi/IpFragment.h\<close>, the insertion part of \<open>ipDefrag\<close>, \<open>ip_frag_create\<close>, \<open>ipDone\<close> and
  \<open>ipGlue\<close> of \<open>dpi/IpFragment.cc\<close>). The fragment chain is a list in chain order; the pointer
  \<open>ptr\<close> into a received packet is the suffix of the packet it points at. C \<open>int\<close>s are
  integers: every value is a packet length or offset below \<open>2 ^ 17\<close>.

  Proved: whatever pieces of one datagram arrive, in whatever order, with duplicates and
  overlaps, a queue that is reported complete glues to the original datagram or is rejected;
  pieces that tile the datagram are complete exactly when all have arrived.
\<close>

section \<open>Fragments and their insertion\<close>

record ipFrag =
  f_offset :: int
  f_end :: int
  f_len :: int
  f_truesize :: int
  f_ptr :: bytes

definition ip_frag_create :: "int \<Rightarrow> int \<Rightarrow> int \<Rightarrow> bytes \<Rightarrow> ipFrag" where
  "ip_frag_create offset end truesize ptr =
     \<lparr>f_offset = offset, f_end = end, f_len = end - offset, f_truesize = truesize, f_ptr = ptr\<rparr>"

text \<open>The search for the place: the fragments in front (\<open>prev\<close> is the last of them) and behind.\<close>

fun find_place :: "int \<Rightarrow> ipFrag list \<Rightarrow> ipFrag list \<times> ipFrag list" where
  "find_place offset [] = ([], [])"
| "find_place offset (f # fs) =
     (if f_offset f \<ge> offset then ([], f # fs)
      else let (before', behind) = find_place offset fs in (f # before', behind))"

text \<open>Overlap with the preceding fragment: the new offset and data pointer.\<close>

definition trim_prev :: "ipFrag list \<Rightarrow> int \<Rightarrow> bytes \<Rightarrow> int \<times> bytes" where
  "trim_prev before' offset ptr =
     (if before' \<noteq> [] \<and> offset < f_end (last before')
      then let i = f_end (last before') - offset in (offset + i, drop (nat i) ptr)
      else (offset, ptr))"

text \<open>
  The loop over the succeeding fragments. \<open>cur\<close> holds the fragments from \<open>next\<close> up to \<open>tmp\<close>
  that were kept; the amount is computed from \<open>next\<close>, as in the code, and a removal sets
  \<open>next\<close> behind the removed fragment, which takes the fragments of \<open>cur\<close> out of the chain.
  The second result lists the freed fragments.
\<close>

fun trim_next :: "int \<Rightarrow> ipFrag list \<Rightarrow> ipFrag list \<Rightarrow> ipFrag list \<Rightarrow> ipFrag list \<times> ipFrag list" where
  "trim_next end cur [] freed = (cur, freed)"
| "trim_next end cur (tmp # rest) freed =
     (if f_offset tmp \<ge> end then (cur @ tmp # rest, freed)
      else let i = end - f_offset (hd (cur @ [tmp]));
               tmp' = tmp\<lparr>f_len := f_len tmp - i, f_offset := f_offset tmp + i,
                          f_ptr := drop (nat i) (f_ptr tmp)\<rparr>
           in if f_len tmp' \<le> 0 then trim_next end [] rest (freed @ [tmp'])
              else trim_next end (cur @ [tmp']) rest freed)"

definition insert_frag :: "int \<Rightarrow> int \<Rightarrow> int \<Rightarrow> bytes \<Rightarrow> ipFrag list \<Rightarrow> ipFrag list \<times> ipFrag list" where
  "insert_frag offset end truesize ptr fs =
     (let (before', behind) = find_place offset fs;
          (offset', ptr') = trim_prev before' offset ptr;
          (behind', freed) = trim_next end [] behind []
      in (before' @ ip_frag_create offset' end truesize ptr' # behind', freed))"

section \<open>The queue of a datagram\<close>

record ipq =
  q_id :: nat
  q_iph :: bytes
  q_len :: int
  q_ihlen :: int
  q_frags :: "ipFrag list"

text \<open>
  The header bytes an entry keeps: \<open>ihl + 8\<close> bytes are copied when the entry is created and
  whenever the first fragment arrives (lines 188 to 192 of \<open>ipDefrag\<close>). What lies behind
  the packet when it is shorter is never read back and is not represented.
\<close>

definition saved_header :: "int \<Rightarrow> bytes \<Rightarrow> bytes" where
  "saved_header ihl data = take (nat (ihl + 8)) data"

definition remember_header :: "int \<Rightarrow> int \<Rightarrow> bytes \<Rightarrow> ipq \<Rightarrow> ipq" where
  "remember_header offset ihl data qp =
     (if offset = 0 then qp\<lparr>q_ihlen := ihl, q_iph := saved_header ihl data\<rparr> else qp)"

definition new_queue :: "nat \<Rightarrow> int \<Rightarrow> bytes \<Rightarrow> ipq" where
  "new_queue i ihl data =
     \<lparr>q_id = i, q_iph = saved_header ihl data, q_len = 0, q_ihlen = ihl, q_frags = []\<rparr>"

text \<open>
  Lines 217 to 313 of \<open>ipDefrag\<close>: the fragment at byte offset \<open>offset\<close> of a packet \<open>data\<close>
  with total length \<open>tot_len\<close> and header length \<open>ihl\<close> enters the queue.
\<close>

definition queue_fragment :: "int \<Rightarrow> int \<Rightarrow> int \<Rightarrow> bool \<Rightarrow> int \<Rightarrow> bytes \<Rightarrow> ipq \<Rightarrow> ipq \<times> ipFrag list" where
  "queue_fragment offset tot_len ihl mf truesize data qp =
     (let end = offset + tot_len - ihl;
          ptr = drop (nat ihl) data;
          qp1 = (if \<not> mf then qp\<lparr>q_len := end\<rparr> else qp);
          (fs, freed) = insert_frag offset end truesize ptr (q_frags qp1)
      in (qp1\<lparr>q_frags := fs\<rparr>, freed))"

fun connects :: "int \<Rightarrow> ipFrag list \<Rightarrow> bool" where
  "connects offset [] = True"
| "connects offset (fp # fs) = (if f_offset fp > offset then False else connects (f_end fp) fs)"

definition ipDone :: "ipq \<Rightarrow> bool" where
  "ipDone qp = (if q_len qp = 0 then False else connects 0 (q_frags qp))"

text \<open>\<open>memmove\<close> into the buffer, the copy loop of \<open>ipGlue\<close>, and the header fix-up.\<close>

definition write_at :: "nat \<Rightarrow> bytes \<Rightarrow> bytes \<Rightarrow> bytes" where
  "write_at pos bs buf = take pos buf @ bs @ drop (pos + length bs) buf"

fun copy_frags :: "int \<Rightarrow> int \<Rightarrow> ipFrag list \<Rightarrow> bytes \<Rightarrow> int \<Rightarrow> (bytes \<times> int) option" where
  "copy_frags len ihlen [] buf count = Some (buf, count)"
| "copy_frags len ihlen (fp # fs) buf count =
     (if f_len fp < 0 \<or> f_offset fp + ihlen + f_len fp > len then None
      else copy_frags len ihlen fs
        (write_at (nat (ihlen + f_offset fp)) (take (nat (f_len fp)) (f_ptr fp)) buf) (count + f_len fp))"

definition fix_header :: "int \<Rightarrow> bytes \<Rightarrow> bytes" where
  "fix_header count skb =
     (let l = htons_bytes (word_of_int (int (unat (take_bit 4 (skb ! 0))) * 4 + count))
      in skb[6 := 0, 7 := 0, 2 := l ! 0, 3 := l ! 1])"

datatype glue_result = GlueOversize | GlueInvalid | Glued bytes

text \<open>\<open>junk\<close> is what \<open>malloc\<close> left in the buffer.\<close>

definition ipGlue :: "(nat \<Rightarrow> u8) \<Rightarrow> ipq \<Rightarrow> glue_result" where
  "ipGlue junk qp =
     (let len = q_ihlen qp + q_len qp
      in if len > 65535 then GlueOversize
         else let skb = write_at 0 (take (nat (q_ihlen qp)) (q_iph qp)) (map junk [0..<nat len])
              in case copy_frags len (q_ihlen qp) (q_frags qp) skb 0 of
                   None \<Rightarrow> GlueInvalid
                 | Some (skb', count) \<Rightarrow> Glued (fix_header count skb'))"

section \<open>Pieces of one datagram\<close>

text \<open>A stored fragment agrees with the payload \<open>P\<close>; a chain of them is in order without overlap.\<close>

definition frag_ok :: "bytes \<Rightarrow> ipFrag \<Rightarrow> bool" where
  "frag_ok P f \<longleftrightarrow> 0 \<le> f_offset f \<and> 0 \<le> f_end f \<and> f_end f \<le> int (length P) \<and>
     f_len f = f_end f - f_offset f \<and>
     (0 < f_len f \<longrightarrow> take (nat (f_len f)) (f_ptr f) = take (nat (f_len f)) (drop (nat (f_offset f)) P))"

definition in_order :: "ipFrag \<Rightarrow> ipFrag \<Rightarrow> bool" where
  "in_order f g \<longleftrightarrow> f_offset f \<le> f_offset g \<and> f_end f \<le> f_offset g"

definition chain_str :: "ipFrag list \<Rightarrow> bool" where
  "chain_str fs \<longleftrightarrow> sorted_wrt in_order fs \<and> (\<forall>f \<in> set fs. f_len f = f_end f - f_offset f)"

definition chain_ok :: "bytes \<Rightarrow> ipFrag list \<Rightarrow> bool" where
  "chain_ok P fs \<longleftrightarrow> sorted_wrt in_order fs \<and> (\<forall>f \<in> set fs. frag_ok P f)"

lemma chain_ok_str: "chain_ok P fs \<Longrightarrow> chain_str fs"
  by (simp add: chain_ok_def chain_str_def frag_ok_def)

lemma find_place_eq:
  "find_place offset fs = (takeWhile (\<lambda>f. f_offset f < offset) fs, dropWhile (\<lambda>f. f_offset f < offset) fs)"
  by (induction fs) (auto simp: split_beta)

lemma frag_ok_trim:
  assumes "frag_ok P f" and "f_offset f < e" and "e < f_end f"
  shows "frag_ok P (f\<lparr>f_len := f_len f - (e - f_offset f), f_offset := e,
                      f_ptr := drop (nat (e - f_offset f)) (f_ptr f)\<rparr>)"
proof -
  let ?o = "f_offset f" and ?l = "f_len f"
  have l: "?l = f_end f - ?o" "0 \<le> ?o" and eq: "take (nat ?l) (f_ptr f) = take (nat ?l) (drop (nat ?o) P)"
    using assms by (auto simp: frag_ok_def)
  have "take (nat (?l - (e - ?o))) (drop (nat (e - ?o)) (f_ptr f)) = drop (nat (e - ?o)) (take (nat ?l) (f_ptr f))"
    using assms l by (simp add: drop_take nat_diff_distrib)
  also have "\<dots> = take (nat (?l - (e - ?o))) (drop (nat (e - ?o)) (drop (nat ?o) P))"
    unfolding eq using assms l by (simp add: drop_take nat_diff_distrib)
  also have "drop (nat (e - ?o)) (drop (nat ?o) P) = drop (nat e) P"
    using assms l by (simp add: nat_diff_distrib)
  finally show ?thesis
    using assms l by (auto simp: frag_ok_def)
qed

text \<open>On a chain of a datagram the loop removes what is covered and shortens at most one fragment.\<close>

lemma trim_next_kept:
  "\<lbrakk>cur \<noteq> []; \<And>f. f \<in> set rest \<Longrightarrow> e \<le> f_offset f\<rbrakk> \<Longrightarrow> trim_next e cur rest freed = (cur @ rest, freed)"
  by (cases rest) auto

definition trimmed :: "int \<Rightarrow> ipFrag \<Rightarrow> ipFrag" where
  "trimmed e f = f\<lparr>f_len := f_len f - (e - f_offset f), f_offset := e,
                   f_ptr := drop (nat (e - f_offset f)) (f_ptr f)\<rparr>"

lemma trimmed_sel [simp]:
  "f_offset (trimmed e f) = e" "f_end (trimmed e f) = f_end f"
  "f_len (trimmed e f) = f_len f - (e - f_offset f)" "f_truesize (trimmed e f) = f_truesize f"
  by (simp_all add: trimmed_def)

lemma trim_next_Cons_str:
  assumes "chain_str (t # rest)"
  shows "trim_next e [] (t # rest) freed =
    (if f_offset t \<ge> e then (t # rest, freed)
     else if f_end t \<le> e then trim_next e [] rest (freed @ [trimmed e t])
     else (trimmed e t # rest, freed))"
proof -
  have l: "f_len t = f_end t - f_offset t"
    using assms by (simp add: chain_str_def)
  have "e < f_end t \<Longrightarrow> f \<in> set rest \<Longrightarrow> e \<le> f_offset f" for f
    using assms by (fastforce simp: chain_str_def in_order_def)
  then show ?thesis
    using l trim_next_kept[of "[trimmed e t]" rest e freed]
    by (auto simp: Let_def trimmed_def)
qed

lemmas trim_next_Cons = trim_next_Cons_str [OF chain_ok_str]

declare trim_next.simps(2) [simp del]

lemma trim_next_spec:
  assumes "chain_ok P fs" and "0 \<le> e"
  shows "chain_ok P (fst (trim_next e [] fs freed)) \<and>
    (\<forall>f \<in> set (fst (trim_next e [] fs freed)). e \<le> f_offset f \<and> (\<exists>g \<in> set fs. f_offset g \<le> f_offset f)) \<and>
    (\<forall>f \<in> set fs. e < f_end f \<longrightarrow> (\<exists>g \<in> set (fst (trim_next e [] fs freed)).
        f_end g = f_end f \<and> (f_offset f < f_end f \<longrightarrow> f_offset g < f_end g)))"
  using assms
proof (induction fs arbitrary: freed)
  case Nil
  then show ?case by (simp add: chain_ok_def)
next
  case (Cons t rest)
  have rest: "chain_ok P rest"
    using Cons.prems by (simp add: chain_ok_def)
  show ?case
  proof (cases "f_offset t \<ge> e")
    case True
    moreover have "\<forall>f \<in> set (t # rest). e \<le> f_offset f"
      using True Cons.prems by (fastforce simp: chain_ok_def in_order_def)
    ultimately show ?thesis
      using Cons.prems by (auto simp: trim_next_Cons[OF Cons.prems(1)])
  next
    case offset: False
    show ?thesis
    proof (cases "f_end t \<le> e")
      case True
      then show ?thesis
        using offset Cons.IH[OF rest Cons.prems(2), of "freed @ [trimmed e t]"] Cons.prems
        by (simp add: trim_next_Cons[OF Cons.prems(1)])
    next
      case False
      then have "frag_ok P (trimmed e t)"
        using Cons.prems offset frag_ok_trim[of P t e] by (simp add: chain_ok_def trimmed_def)
      moreover have "\<forall>f \<in> set rest. e \<le> f_offset f \<and> f_end t \<le> f_offset f"
        using False Cons.prems by (fastforce simp: chain_ok_def in_order_def)
      ultimately show ?thesis
        using offset False Cons.prems by (auto simp: trim_next_Cons[OF Cons.prems(1)] chain_ok_def in_order_def)
    qed
  qed
qed

section \<open>The inserted fragment\<close>

definition piece :: "bytes \<Rightarrow> int \<Rightarrow> int \<Rightarrow> bytes \<Rightarrow> bool" where
  "piece P a b ptr \<longleftrightarrow> 0 \<le> a \<and> a < b \<and> b \<le> int (length P) \<and>
     take (nat (b - a)) ptr = take (nat (b - a)) (drop (nat a) P)"

definition has_end :: "int \<Rightarrow> ipFrag list \<Rightarrow> bool" where
  "has_end N fs \<longleftrightarrow> (\<exists>f \<in> set fs. f_end f = N \<and> f_offset f < N)"

text \<open>The fragments in front end before the trimmed new fragment begins.\<close>

definition new_offset :: "int \<Rightarrow> ipFrag list \<Rightarrow> int" where
  "new_offset a before' = (if before' = [] then a else max a (f_end (last before')))"

lemma trim_prev_offset: "fst (trim_prev before' a ptr) = new_offset a before'"
  by (auto simp: trim_prev_def new_offset_def Let_def max_def)

lemma frag_ok_new:
  assumes "piece P a b ptr" and "trim_prev before' a ptr = (a', ptr')"
  shows "frag_ok P (ip_frag_create a' b ts ptr')"
proof (cases "before' \<noteq> [] \<and> a < f_end (last before')")
  case True
  then have a': "a' = f_end (last before')" "ptr' = drop (nat (a' - a)) ptr" "a < a'"
    using assms by (auto simp: trim_prev_def Let_def)
  have eq: "nat (b - a') = nat (b - a) - nat (a' - a)" if "a' < b"
    using a' that by linarith
  have "take (nat (b - a')) ptr' = drop (nat (a' - a)) (take (nat (b - a)) ptr)" if "a' < b"
    unfolding a'(2) eq[OF that] by (simp add: drop_take)
  moreover have "take (nat (b - a')) (drop (nat a') P) = drop (nat (a' - a)) (take (nat (b - a)) (drop (nat a) P))"
    if "a' < b"
    unfolding eq[OF that] using a' assms(1) by (simp add: piece_def drop_take nat_diff_distrib')
  ultimately show ?thesis
    using assms a' by (simp add: frag_ok_def ip_frag_create_def piece_def)
next
  case False
  then show ?thesis
    using assms by (auto simp: trim_prev_def frag_ok_def ip_frag_create_def piece_def)
qed

lemma insert_frag_eq:
  assumes "insert_frag a b ts ptr fs = (fs', freed)"
  obtains before' behind behind' a' ptr' where
    "fs = before' @ behind" "\<forall>f \<in> set before'. f_offset f < a"
    "behind \<noteq> [] \<longrightarrow> a \<le> f_offset (hd behind)"
    "trim_prev before' a ptr = (a', ptr')" "a' = new_offset a before'"
    "behind' = fst (trim_next b [] behind [])" "fs' = before' @ ip_frag_create a' b ts ptr' # behind'"
proof -
  define before' where "before' = takeWhile (\<lambda>f. f_offset f < a) fs"
  define behind where "behind = dropWhile (\<lambda>f. f_offset f < a) fs"
  obtain a' ptr' where t: "trim_prev before' a ptr = (a', ptr')"
    by fastforce
  show thesis
  proof (rule that[of before' behind a' ptr' "fst (trim_next b [] behind [])"])
    show "behind \<noteq> [] \<longrightarrow> a \<le> f_offset (hd behind)"
      using hd_dropWhile[of "\<lambda>f. f_offset f < a" fs] unfolding behind_def not_less by blast
    show "a' = new_offset a before'"
      using trim_prev_offset[of before' a ptr] t by simp
    show "fs' = before' @ ip_frag_create a' b ts ptr' # fst (trim_next b [] behind [])"
      using assms t by (simp add: insert_frag_def find_place_eq before'_def behind_def split_beta)
    show "trim_prev before' a ptr = (a', ptr')"
      by (rule t)
  qed (auto simp: before'_def behind_def dest: set_takeWhileD)
qed

text \<open>What holds between the trimmed fragment and those in front of it.\<close>

lemma before_new_offset:
  assumes "sorted_wrt in_order before'" and "\<forall>f \<in> set before'. f_offset f < a" and "f \<in> set before'"
  shows "f_end f \<le> new_offset a before'" and "f_offset f \<le> new_offset a before'"
proof -
  obtain xs l where l: "before' = xs @ [l]"
    using assms(3) by (cases before' rule: rev_cases) auto
  have "f = l \<or> in_order f l"
    using assms(1,3) l by (auto simp: sorted_wrt_append)
  moreover have "f_offset l < a"
    using assms(2) l by simp
  ultimately show "f_end f \<le> new_offset a before'"
    using l by (auto simp: new_offset_def in_order_def)
  show "f_offset f \<le> new_offset a before'"
    using assms(2,3) l by (fastforce simp: new_offset_def)
qed

lemma new_offset_le:
  assumes "a \<le> c" and "before' \<noteq> [] \<Longrightarrow> f_end (last before') \<le> c"
  shows "new_offset a before' \<le> c"
  using assms by (simp add: new_offset_def)

lemma insert_frag_has_end:
  assumes fs: "chain_ok P fs" and p: "piece P a b ptr" and eq: "insert_frag a b ts ptr fs = (fs', freed)"
    and N: "N = int (length P)" and "b = N \<or> has_end N fs"
  shows "has_end N fs'"
  using eq
proof (rule insert_frag_eq)
  fix before' behind behind' a' ptr'
  assume split: "fs = before' @ behind" and front: "\<forall>f \<in> set before'. f_offset f < a"
    and t: "trim_prev before' a ptr = (a', ptr')" and a': "a' = new_offset a before'"
    and b': "behind' = fst (trim_next b [] behind [])"
    and fs': "fs' = before' @ ip_frag_create a' b ts ptr' # behind'"
  have le: "\<And>f. f \<in> set fs \<Longrightarrow> f_end f \<le> N" and bN: "b \<le> N" "a < b" "0 \<le> a"
    using fs p N by (auto simp: chain_ok_def frag_ok_def piece_def)
  have "chain_ok P behind"
    using fs split by (auto simp: chain_ok_def sorted_wrt_append)
  with bN have keep: "\<And>f. f \<in> set behind \<Longrightarrow> b < f_end f \<Longrightarrow> \<exists>g \<in> set behind'. f_end g = f_end f \<and>
      (f_offset f < f_end f \<longrightarrow> f_offset g < f_end g)"
    using trim_next_spec[of P behind b "[]"] b' by auto
  show ?thesis
  proof (cases "has_end N before'")
    case True
    then show ?thesis by (auto simp: has_end_def fs')
  next
    case no_front: False
    show ?thesis
    proof (cases "b = N")
      case True
      have "f_end (last before') < N" if ne: "before' \<noteq> []"
      proof -
        have "last before' \<in> set before'"
          using ne by simp
        moreover from this have "f_offset (last before') < a" "f_end (last before') \<le> N"
          using front le split by auto
        ultimately show ?thesis
          using no_front bN unfolding has_end_def by force
      qed
      then have "a' < N"
        using a' bN by (auto simp: new_offset_def)
      then show ?thesis
        using True by (auto simp: has_end_def fs' ip_frag_create_def)
    next
      case False
      then have "has_end N behind"
        using no_front split assms(5) by (auto simp: has_end_def)
      then show ?thesis
        using keep False bN by (fastforce simp: has_end_def fs')
    qed
  qed
qed

text \<open>
  The structure of the chain does not depend on the contents: it is kept for every fragment,
  and every stored or freed byte count is accounted for.
\<close>

definition frag_charge :: "ipFrag list \<Rightarrow> int" where
  "frag_charge fs = sum_list (map (\<lambda>f. 48 + f_truesize f) fs)"

lemma frag_charge_simps [simp]:
  "frag_charge [] = 0" "frag_charge (f # fs) = 48 + f_truesize f + frag_charge fs"
  "frag_charge (fs @ gs) = frag_charge fs + frag_charge gs"
  by (simp_all add: frag_charge_def)

lemma trim_next_str:
  assumes "chain_str fs"
  shows "chain_str (fst (trim_next e [] fs freed)) \<and>
    (\<forall>f \<in> set (fst (trim_next e [] fs freed)). e \<le> f_offset f \<and> (\<exists>g \<in> set fs. f_offset g \<le> f_offset f)) \<and>
    frag_charge (fst (trim_next e [] fs freed)) + frag_charge (snd (trim_next e [] fs freed)) =
      frag_charge fs + frag_charge freed"
  using assms
proof (induction fs arbitrary: freed)
  case Nil
  then show ?case by simp
next
  case (Cons t rest)
  note str = trim_next_Cons_str[OF Cons.prems]
  have rest: "chain_str rest"
    using Cons.prems by (simp add: chain_str_def)
  have later: "\<forall>f \<in> set rest. f_offset t \<le> f_offset f \<and> f_end t \<le> f_offset f"
    using Cons.prems by (auto simp: chain_str_def in_order_def)
  consider "e \<le> f_offset t" | "f_offset t < e" "f_end t \<le> e" | "f_offset t < e" "e < f_end t"
    by linarith
  then show ?case
  proof cases
    case 1
    then show ?thesis
      using Cons.prems later by (auto simp: str)
  next
    case 2
    then show ?thesis
      using Cons.IH[OF rest, of "freed @ [trimmed e t]"] by (auto simp: str)
  next
    case 3
    then have "chain_str (trimmed e t # rest)"
      using Cons.prems later by (auto simp: chain_str_def in_order_def)
    with 3 show ?thesis
      using later by (auto simp: str)
  qed
qed

lemma insert_frag_str:
  assumes fs: "chain_str fs" and ab: "a \<le> b" and eq: "insert_frag a b ts ptr fs = (fs', freed)"
  shows "chain_str fs' \<and> frag_charge fs' + frag_charge freed = frag_charge fs + 48 + ts"
proof -
  define before' where "before' = takeWhile (\<lambda>f. f_offset f < a) fs"
  define behind where "behind = dropWhile (\<lambda>f. f_offset f < a) fs"
  obtain a' ptr' where t: "trim_prev before' a ptr = (a', ptr')"
    by fastforce
  obtain behind' freed' where b': "trim_next b [] behind [] = (behind', freed')"
    by fastforce
  have split: "fs = before' @ behind" and front: "\<forall>f \<in> set before'. f_offset f < a"
    by (auto simp: before'_def behind_def dest: set_takeWhileD)
  have hd: "behind \<noteq> [] \<longrightarrow> a \<le> f_offset (hd behind)"
    using hd_dropWhile[of "\<lambda>f. f_offset f < a" fs] unfolding behind_def not_less by blast
  have fs': "fs' = before' @ ip_frag_create a' b ts ptr' # behind'" "freed = freed'"
    using eq t b' by (simp_all add: insert_frag_def find_place_eq before'_def[symmetric] behind_def[symmetric])
  let ?n = "ip_frag_create a' b ts ptr'"
  have a': "a' = new_offset a before'"
    using trim_prev_offset[of before' a ptr] t by simp
  have n: "f_offset ?n = a'" "f_end ?n = b" "f_len ?n = b - a'" "f_truesize ?n = ts"
    by (simp_all add: ip_frag_create_def)
  have "chain_str before'" "chain_str behind"
    and cross: "\<And>f g. f \<in> set before' \<Longrightarrow> g \<in> set behind \<Longrightarrow> in_order f g"
    using fs split by (auto simp: chain_str_def sorted_wrt_append)
  then have before': "sorted_wrt in_order before'" and spec: "chain_str behind'"
    "\<And>g. g \<in> set behind' \<Longrightarrow> b \<le> f_offset g \<and> (\<exists>h \<in> set behind. f_offset h \<le> f_offset g)"
    "frag_charge behind' + frag_charge freed' = frag_charge behind"
    using trim_next_str[of behind b "[]"] b' by (auto simp: chain_str_def)
  have ge: "a \<le> f_offset h" if "h \<in> set behind" for h
    using that hd \<open>chain_str behind\<close>
    by (cases behind) (auto simp: chain_str_def in_order_def intro: order_trans)
  have "in_order f ?n" if "f \<in> set before'" for f
    using before_new_offset[OF before' front that] a' n by (simp add: in_order_def)
  moreover have "in_order ?n g \<and> (\<forall>f \<in> set before'. in_order f g)" if g: "g \<in> set behind'" for g
  proof -
    obtain h where h: "h \<in> set behind" "f_offset h \<le> f_offset g"
      using spec(2)[OF g] by blast
    have "new_offset a before' \<le> f_offset h"
      using ge[OF h(1)] cross[OF _ h(1)] by (intro new_offset_le) (auto simp: in_order_def)
    then show ?thesis
      using h spec(2)[OF g] n a' cross[OF _ h(1)] by (fastforce simp: in_order_def)
  qed
  ultimately have "chain_str fs'"
    using \<open>chain_str before'\<close> spec(1) n by (auto simp: fs' chain_str_def sorted_wrt_append)
  then show ?thesis
    using spec(3) n by (simp add: fs' split)
qed

lemma insert_frag_chain_ok:
  assumes fs: "chain_ok P fs" and p: "piece P a b ptr" and eq: "insert_frag a b ts ptr fs = (fs', freed)"
  shows "chain_ok P fs'"
  using eq
proof (rule insert_frag_eq)
  fix before' behind behind' a' ptr'
  assume split: "fs = before' @ behind" and t: "trim_prev before' a ptr = (a', ptr')"
    and b': "behind' = fst (trim_next b [] behind [])"
    and fs': "fs' = before' @ ip_frag_create a' b ts ptr' # behind'"
  have "chain_ok P behind"
    using fs split by (auto simp: chain_ok_def sorted_wrt_append)
  then have "chain_ok P behind'"
    using trim_next_spec[of P behind b "[]"] p b' by (auto simp: piece_def)
  moreover have "sorted_wrt in_order fs'"
    using insert_frag_str[OF chain_ok_str[OF fs] _ eq] p by (auto simp: chain_str_def piece_def)
  ultimately show ?thesis
    using fs split frag_ok_new[OF p t] by (auto simp: fs' chain_ok_def)
qed

lemma trim_next_truesize:
  "(fs', freed') = trim_next e cur fs freed \<Longrightarrow>
   f_truesize ` (set fs' \<union> set freed') \<subseteq> f_truesize ` (set cur \<union> set fs \<union> set freed)"
proof (induction e cur fs freed rule: trim_next.induct)
  case (1 e cur freed)
  then show ?case by simp
next
  case (2 e cur tmp rest freed)
  let ?i = "e - f_offset (hd (cur @ [tmp]))"
  let ?tmp = "tmp\<lparr>f_len := f_len tmp - ?i, f_offset := f_offset tmp + ?i, f_ptr := drop (nat ?i) (f_ptr tmp)\<rparr>"
  have sz: "f_truesize ?tmp = f_truesize tmp" by simp
  consider "f_offset tmp \<ge> e" | "\<not> f_offset tmp \<ge> e" "f_len ?tmp \<le> 0" | "\<not> f_offset tmp \<ge> e" "\<not> f_len ?tmp \<le> 0"
    by blast
  then show ?case
  proof cases
    case 1
    then show ?thesis
      using 2(3) by (auto simp: trim_next.simps(2))
  next
    case b: 2
    then have "(fs', freed') = trim_next e [] rest (freed @ [?tmp])"
      using 2(3) unfolding trim_next.simps(2) Let_def by simp
    from 2(1)[OF b(1) refl refl b(2) this] show ?thesis
      using sz by auto
  next
    case c: 3
    then have "(fs', freed') = trim_next e (cur @ [?tmp]) rest freed"
      using 2(3) unfolding trim_next.simps(2) Let_def by simp
    from 2(2)[OF c(1) refl refl c(2) this] show ?thesis
      using sz by auto
  qed
qed

lemma insert_frag_truesize:
  assumes "insert_frag a b ts ptr fs = (fs', freed)" and "\<forall>f \<in> set fs. 0 \<le> f_truesize f" and "0 \<le> ts"
  shows "(\<forall>f \<in> set fs'. 0 \<le> f_truesize f) \<and> 0 \<le> frag_charge freed"
proof -
  define before' where "before' = takeWhile (\<lambda>f. f_offset f < a) fs"
  define behind where "behind = dropWhile (\<lambda>f. f_offset f < a) fs"
  obtain a' ptr' where t: "trim_prev before' a ptr = (a', ptr')"
    by fastforce
  obtain behind' freed' where b': "(behind', freed') = trim_next b [] behind []"
    by (metis surj_pair)
  have fs': "fs' = before' @ ip_frag_create a' b ts ptr' # behind'" "freed = freed'"
    using assms(1) t b'[symmetric] by (simp_all add: insert_frag_def find_place_eq before'_def[symmetric] behind_def[symmetric])
  have sub: "set before' \<subseteq> set fs" "set behind \<subseteq> set fs"
    by (auto simp: before'_def behind_def dest: set_takeWhileD set_dropWhileD)
  have "\<forall>f \<in> set behind' \<union> set freed'. 0 \<le> f_truesize f"
    using trim_next_truesize[OF b'] sub(2) assms(2) by (auto simp: subset_iff image_iff)
  then show ?thesis
    using sub(1) assms(2,3) by (auto simp: fs' ip_frag_create_def frag_charge_def intro!: sum_list_nonneg)
qed

section \<open>A connected chain tiles the datagram\<close>

fun tiles :: "int \<Rightarrow> ipFrag list \<Rightarrow> bool" where
  "tiles off [] = True"
| "tiles off (f # fs) = (f_offset f = off \<and> tiles (f_end f) fs)"

fun end_of :: "int \<Rightarrow> ipFrag list \<Rightarrow> int" where
  "end_of off [] = off"
| "end_of off (f # fs) = end_of (f_end f) fs"

lemma connects_tiles:
  "\<lbrakk>connects off fs; sorted_wrt in_order fs; \<And>f. f \<in> set fs \<Longrightarrow> off \<le> f_offset f\<rbrakk> \<Longrightarrow> tiles off fs"
proof (induction fs arbitrary: off)
  case Nil
  then show ?case by simp
next
  case (Cons f fs)
  have "f_offset f = off"
    using Cons.prems(1) Cons.prems(3)[of f] by (auto split: if_splits)
  moreover have "tiles (f_end f) fs"
    by (rule Cons.IH) (use Cons.prems in \<open>auto simp: in_order_def split: if_splits\<close>)
  ultimately show ?case by simp
qed

lemma end_of_ge: "\<lbrakk>tiles off fs; \<And>f. f \<in> set fs \<Longrightarrow> f_offset f \<le> f_end f\<rbrakk> \<Longrightarrow> off \<le> end_of off fs"
proof (induction fs arbitrary: off)
  case (Cons f fs)
  then have "f_end f \<le> end_of (f_end f) fs" "f_offset f \<le> f_end f" by auto
  with Cons.prems show ?case by simp
qed simp

lemma end_of_le:
  "\<lbrakk>off \<le> N; \<And>f. f \<in> set fs \<Longrightarrow> f_end f \<le> N\<rbrakk> \<Longrightarrow> end_of off fs \<le> N"
  by (induction fs arbitrary: off) auto

lemma end_of_mem:
  "\<lbrakk>tiles off fs; \<And>f. f \<in> set fs \<Longrightarrow> f_offset f \<le> f_end f; g \<in> set fs\<rbrakk> \<Longrightarrow> f_end g \<le> end_of off fs"
proof (induction fs arbitrary: off)
  case (Cons f fs)
  then show ?case
    using end_of_ge[of "f_end f" fs] by auto
qed simp

text \<open>Writing consecutive ranges of the payload.\<close>

lemma write_at_range:
  assumes "a \<le> b" and "b \<le> length P" and "h + b \<le> length buf" and "length pre = h"
    and "buf = pre @ take a P @ rest"
  shows "write_at (h + a) (take (b - a) (drop a P)) buf = pre @ take b P @ drop (b - a) rest"
proof -
  have "take a P @ take (b - a) (drop a P) = take b P"
    using take_add[of a "b - a" P] assms by simp
  then show ?thesis
    using assms by (simp add: write_at_def)
qed

lemma frag_ok_le: "\<lbrakk>frag_ok P f; 0 \<le> f_len f\<rbrakk> \<Longrightarrow> f_offset f \<le> f_end f"
  by (simp add: frag_ok_def)

lemma copy_frags_tiles:
  "\<lbrakk>tiles off fs; \<And>f. f \<in> set fs \<Longrightarrow> frag_ok P f \<and> 0 \<le> f_len f; 0 \<le> off; 0 \<le> ihlen;
    len = ihlen + int (length P); length pre = nat ihlen; length pre + length P = length (pre @ take (nat off) P @ rest)\<rbrakk>
   \<Longrightarrow> copy_frags len ihlen fs (pre @ take (nat off) P @ rest) cnt =
       Some (pre @ take (nat (end_of off fs)) P @ drop (nat (end_of off fs - off)) rest, cnt + end_of off fs - off)"
proof (induction fs arbitrary: off rest cnt)
  case Nil
  then show ?case by simp
next
  case (Cons f fs)
  let ?e = "f_end f"
  have f: "f_offset f = off" "tiles ?e fs" "frag_ok P f" "0 \<le> f_len f"
    using Cons.prems by auto
  then have e: "f_len f = ?e - off" "off \<le> ?e" "?e \<le> int (length P)" "0 \<le> ?e"
    by (auto simp: frag_ok_def)
  have ptr: "take (nat (f_len f)) (f_ptr f) = take (nat ?e - nat off) (drop (nat off) P)"
    using f e Cons.prems(3) by (cases "f_len f = 0") (auto simp: frag_ok_def nat_diff_distrib)
  have w: "write_at (nat (ihlen + f_offset f)) (take (nat (f_len f)) (f_ptr f)) (pre @ take (nat off) P @ rest) =
      pre @ take (nat ?e) P @ drop (nat ?e - nat off) rest"
    unfolding ptr f(1) nat_add_distrib[OF Cons.prems(4) Cons.prems(3)]
    by (rule write_at_range) (use e Cons.prems in auto)
  have "?e \<le> end_of ?e fs"
    by (rule end_of_ge) (use f Cons.prems(2) frag_ok_le in auto)
  then have "nat (end_of ?e fs - ?e) + (nat ?e - nat off) = nat (end_of ?e fs - off)"
    using e Cons.prems(3) by linarith
  then have d: "drop (nat (end_of ?e fs - ?e)) (drop (nat ?e - nat off) rest) = drop (nat (end_of ?e fs - off)) rest"
    by simp
  have "copy_frags len ihlen fs (pre @ take (nat ?e) P @ drop (nat ?e - nat off) rest) (cnt + f_len f) =
      Some (pre @ take (nat (end_of ?e fs)) P @ drop (nat (end_of ?e fs - ?e)) (drop (nat ?e - nat off) rest),
        cnt + f_len f + end_of ?e fs - ?e)"
    by (rule Cons.IH) (use Cons.prems f e in auto)
  then show ?case
    unfolding d using w e Cons.prems f by simp
qed

lemma copy_frags_None:
  "\<lbrakk>f \<in> set fs; f_len f < 0\<rbrakk> \<Longrightarrow> copy_frags len ihlen fs buf cnt = None"
  by (induction fs arbitrary: buf cnt) auto

section \<open>The queue invariant\<close>

definition queue_ok :: "bytes \<Rightarrow> ipq \<Rightarrow> bool" where
  "queue_ok P q \<longleftrightarrow> chain_ok P (q_frags q) \<and>
     (q_len q = 0 \<or> q_len q = int (length P) \<and> has_end (int (length P)) (q_frags q))"

text \<open>A received fragment of the payload \<open>P\<close>: byte offset, total length, header length, more-fragments flag, packet.\<close>

record fragment =
  fr_offset :: int
  fr_tot_len :: int
  fr_ihl :: int
  fr_mf :: bool
  fr_truesize :: int
  fr_data :: bytes

definition fr_end :: "fragment \<Rightarrow> int" where
  "fr_end x = fr_offset x + fr_tot_len x - fr_ihl x"

definition fragment_of :: "bytes \<Rightarrow> fragment \<Rightarrow> bool" where
  "fragment_of P x \<longleftrightarrow> piece P (fr_offset x) (fr_end x) (drop (nat (fr_ihl x)) (fr_data x)) \<and>
     (fr_mf x \<longleftrightarrow> fr_end x < int (length P)) \<and>
     20 \<le> fr_ihl x \<and> fr_ihl x \<le> int (length (fr_data x)) \<and>
     fr_ihl x = int (unat (take_bit 4 (fr_data x ! 0))) * 4"

definition receive :: "fragment \<Rightarrow> ipq \<Rightarrow> ipq" where
  "receive x q = fst (queue_fragment (fr_offset x) (fr_tot_len x) (fr_ihl x) (fr_mf x) (fr_truesize x) (fr_data x)
     (remember_header (fr_offset x) (fr_ihl x) (fr_data x) q))"

fun receive_all :: "nat \<Rightarrow> fragment list \<Rightarrow> ipq" where
  "receive_all i [] = new_queue i 0 []"
| "receive_all i (x # xs) = fold receive xs (receive x (new_queue i (fr_ihl x) (fr_data x)))"

lemma receive_sel:
  "q_frags (receive x q) = fst (insert_frag (fr_offset x) (fr_end x) (fr_truesize x)
      (drop (nat (fr_ihl x)) (fr_data x)) (q_frags q))"
  "q_len (receive x q) = (if fr_mf x then q_len q else fr_end x)"
  "q_iph (receive x q) = (if fr_offset x = 0 then saved_header (fr_ihl x) (fr_data x) else q_iph q)"
  "q_ihlen (receive x q) = (if fr_offset x = 0 then fr_ihl x else q_ihlen q)"
  by (auto simp: receive_def remember_header_def queue_fragment_def fr_end_def split_beta Let_def)

lemma queue_ok_receive:
  assumes "queue_ok P q" and "fragment_of P x"
  shows "queue_ok P (receive x q)"
proof -
  let ?N = "int (length P)"
  obtain fs' freed where eq: "insert_frag (fr_offset x) (fr_end x) (fr_truesize x)
      (drop (nat (fr_ihl x)) (fr_data x)) (q_frags q) = (fs', freed)"
    by fastforce
  have p: "piece P (fr_offset x) (fr_end x) (drop (nat (fr_ihl x)) (fr_data x))"
    and c: "chain_ok P (q_frags q)"
    using assms by (auto simp: fragment_of_def queue_ok_def)
  have "chain_ok P fs'"
    by (rule insert_frag_chain_ok[OF c p eq])
  moreover have "has_end ?N fs'" if "\<not> fr_mf x \<or> q_len q \<noteq> 0"
    by (rule insert_frag_has_end[OF c p eq refl])
      (use that assms p in \<open>auto simp: fragment_of_def queue_ok_def piece_def\<close>)
  ultimately show ?thesis
    using assms eq p by (auto simp: queue_ok_def receive_sel fragment_of_def piece_def)
qed

definition header_of :: "ipq \<Rightarrow> bytes" where
  "header_of q = take (nat (q_ihlen q)) (q_iph q)"

text \<open>What gluing a finished queue returns.\<close>

lemma glue_done:
  assumes q: "queue_ok P q" and "ipDone q" and hdr: "length (header_of q) = nat (q_ihlen q)" "0 \<le> q_ihlen q"
  shows "ipGlue junk q =
    (if q_ihlen q + int (length P) > 65535 then GlueOversize
     else if \<exists>f \<in> set (q_frags q). f_len f < 0 then GlueInvalid
     else Glued (fix_header (int (length P)) (header_of q @ P)))"
proof -
  let ?N = "int (length P)" and ?fs = "q_frags q" and ?h = "header_of q"
  have N: "q_len q = ?N" "has_end ?N ?fs" and c: "chain_ok P ?fs" and con: "connects 0 ?fs"
    using q \<open>ipDone q\<close> by (auto simp: queue_ok_def ipDone_def split: if_splits)
  have tiles: "tiles 0 ?fs"
    by (rule connects_tiles[OF con]) (use c in \<open>auto simp: chain_ok_def frag_ok_def\<close>)
  define rest where "rest = drop (length ?h) (map junk [0..<nat (q_ihlen q + ?N)])"
  have skb: "write_at 0 ?h (map junk [0..<nat (q_ihlen q + ?N)]) = ?h @ take (nat 0) P @ rest"
    by (simp add: write_at_def rest_def)
  have len_rest: "length rest = length P"
    using hdr by (simp add: rest_def nat_add_distrib)
  show ?thesis
  proof (cases "\<exists>f \<in> set ?fs. f_len f < 0")
    case True
    then show ?thesis
      using N copy_frags_None by (fastforce simp: ipGlue_def Let_def)
  next
    case False
    then have ok: "frag_ok P f \<and> 0 \<le> f_len f" if "f \<in> set ?fs" for f
      using c that by (auto simp: chain_ok_def not_less)
    obtain g where g: "g \<in> set ?fs" "f_end g = ?N"
      using N by (auto simp: has_end_def)
    have "?N \<le> end_of 0 ?fs"
      using end_of_mem[OF tiles _ g(1)] ok frag_ok_le g by metis
    moreover have "end_of 0 ?fs \<le> ?N"
      by (rule end_of_le) (use ok in \<open>auto simp: frag_ok_def\<close>)
    ultimately have e: "end_of 0 ?fs = ?N" by simp
    have "copy_frags (q_ihlen q + ?N) (q_ihlen q) ?fs (?h @ take (nat 0) P @ rest) 0 =
        Some (?h @ take (nat (end_of 0 ?fs)) P @ drop (nat (end_of 0 ?fs - 0)) rest, 0 + end_of 0 ?fs - 0)"
      by (rule copy_frags_tiles[OF tiles ok]) (use hdr len_rest in auto)
    then show ?thesis
      using False N skb e len_rest by (simp add: ipGlue_def Let_def flip: header_of_def)
  qed
qed

text \<open>The header kept once the beginning of the datagram is there.\<close>

definition header_from :: "fragment set \<Rightarrow> ipq \<Rightarrow> bool" where
  "header_from X q \<longleftrightarrow> (\<forall>f \<in> set (q_frags q). f_offset f = 0 \<longrightarrow>
     (\<exists>x \<in> X. fr_offset x = 0 \<and> q_ihlen q = fr_ihl x \<and> q_iph q = saved_header (fr_ihl x) (fr_data x)))"

lemma header_from_receive:
  assumes "header_from X q" and "queue_ok P q" and x: "fragment_of P x"
  shows "header_from (insert x X) (receive x q)"
proof (cases "fr_offset x = 0")
  case True
  then show ?thesis
    by (auto simp: header_from_def receive_sel)
next
  case False
  obtain fs' freed where eq: "insert_frag (fr_offset x) (fr_end x) (fr_truesize x)
      (drop (nat (fr_ihl x)) (fr_data x)) (q_frags q) = (fs', freed)"
    by fastforce
  have "f \<in> set (q_frags q)" if f: "f \<in> set fs'" "f_offset f = 0" for f
    using eq
  proof (rule insert_frag_eq)
    fix before' behind behind' a' ptr'
    assume *: "q_frags q = before' @ behind" "behind' = fst (trim_next (fr_end x) [] behind [])"
      "a' = new_offset (fr_offset x) before'"
      "fs' = before' @ ip_frag_create a' (fr_end x) (fr_truesize x) ptr' # behind'"
    have "chain_ok P behind" and e: "0 < fr_end x" "0 < fr_offset x"
      using assms * False by (auto simp: queue_ok_def chain_ok_def sorted_wrt_append fragment_of_def piece_def)
    then have "\<forall>g \<in> set behind'. fr_end x \<le> f_offset g"
      using trim_next_spec[of P behind "fr_end x" "[]"] * by auto
    moreover have "0 < a'"
      using * e by (auto simp: new_offset_def)
    ultimately show "f \<in> set (q_frags q)"
      using f * e by (auto simp: ip_frag_create_def)
  qed
  then show ?thesis
    using assms(1) False eq by (auto simp: header_from_def receive_sel)
qed

lemma run_ok:
  "\<lbrakk>queue_ok P q; header_from X q; \<forall>x \<in> set xs. fragment_of P x\<rbrakk>
   \<Longrightarrow> queue_ok P (fold receive xs q) \<and> header_from (X \<union> set xs) (fold receive xs q)"
proof (induction xs arbitrary: q X)
  case (Cons x xs)
  have "queue_ok P (receive x q)"
    using Cons.prems by (simp add: queue_ok_receive)
  moreover have "header_from (insert x X) (receive x q)"
    using Cons.prems by (auto intro: header_from_receive)
  ultimately show ?case
    using Cons.IH[of "receive x q" "insert x X"] Cons.prems by simp
qed simp

lemma receive_all_ok:
  assumes "\<forall>x \<in> set xs. fragment_of P x" and "xs \<noteq> []"
  shows "queue_ok P (receive_all i xs)" and "header_from (set xs) (receive_all i xs)"
proof -
  obtain x ys where xs: "xs = x # ys"
    using assms by (cases xs) auto
  let ?q = "new_queue i (fr_ihl x) (fr_data x)"
  have "queue_ok P ?q" "header_from {} ?q"
    by (simp_all add: queue_ok_def chain_ok_def header_from_def new_queue_def)
  then have "queue_ok P (fold receive xs ?q) \<and> header_from ({} \<union> set xs) (fold receive xs ?q)"
    using assms(1) by (intro run_ok)
  then show "queue_ok P (receive_all i xs)" "header_from (set xs) (receive_all i xs)"
    by (simp_all add: xs)
qed

text \<open>A finished queue begins with the first fragment.\<close>

lemma done_header:
  assumes "\<forall>x \<in> set xs. fragment_of P x" and "xs \<noteq> []" and "ipDone (receive_all i xs)"
  obtains x where "x \<in> set xs" "fr_offset x = 0" "q_ihlen (receive_all i xs) = fr_ihl x"
    "header_of (receive_all i xs) = take (nat (fr_ihl x)) (fr_data x)"
proof -
  let ?q = "receive_all i xs"
  have q: "queue_ok P ?q" and h: "header_from (set xs) ?q"
    using receive_all_ok[OF assms(1,2)] by auto
  then obtain f fs where fs: "q_frags ?q = f # fs"
    using assms(3) by (cases "q_frags ?q") (auto simp: queue_ok_def ipDone_def has_end_def split: if_splits)
  then have "f_offset f = 0"
    using q assms(3) by (auto simp: queue_ok_def ipDone_def chain_ok_def frag_ok_def split: if_splits)
  then obtain x where x: "x \<in> set xs" "fr_offset x = 0" "q_ihlen ?q = fr_ihl x"
    "q_iph ?q = saved_header (fr_ihl x) (fr_data x)"
    using h fs by (auto simp: header_from_def)
  show thesis
    by (rule that[OF x(1-3)]) (use x assms(1) in \<open>auto simp: header_of_def saved_header_def min_def nat_add_distrib\<close>)
qed

section \<open>Fragments that tile the datagram\<close>

text \<open>A sender cuts the datagram into consecutive ranges.\<close>

fun tiling :: "int \<Rightarrow> (int \<times> int) list \<Rightarrow> int \<Rightarrow> bool" where
  "tiling off [] N = (off = N)"
| "tiling off ((a, b) # ts) N = (a = off \<and> a < b \<and> tiling b ts N)"

definition range_of :: "ipFrag \<Rightarrow> int \<times> int" where
  "range_of f = (f_offset f, f_end f)"

abbreviation earlier :: "int \<times> int \<Rightarrow> int \<times> int \<Rightarrow> bool" where
  "earlier p q \<equiv> fst p < fst q"

lemma tiling_le: "tiling off ts N \<Longrightarrow> off \<le> N"
  by (induction off ts N rule: tiling.induct) auto

lemma tiling_ge: "tiling off ts N \<Longrightarrow> t \<in> set ts \<Longrightarrow> off \<le> fst t \<and> fst t < snd t \<and> snd t \<le> N"
  by (induction off ts N rule: tiling.induct) (auto dest: tiling_le)

lemma tiling_last: "tiling off ts N \<Longrightarrow> r \<in> set ts \<Longrightarrow> snd r = N \<longleftrightarrow> r = last ts"
proof (induction off ts N rule: tiling.induct)
  case (2 off a b ts N)
  then show ?case
    using tiling_ge[of b ts N "last ts"] by (cases "ts = []") auto
qed simp

lemma tiling_sorted: "tiling off ts N \<Longrightarrow> sorted_wrt earlier ts"
proof (induction ts arbitrary: off)
  case (Cons p ts)
  then show ?case
    by (cases p) (use tiling_ge[of "snd p" ts N] in fastforce)
qed simp

lemma tiling_apart:
  "\<lbrakk>tiling off ts N; p \<in> set ts; q \<in> set ts; fst p < fst q\<rbrakk> \<Longrightarrow> snd p \<le> fst q"
proof (induction ts arbitrary: off)
  case (Cons t ts)
  obtain a b where t: "t = (a, b)" by fastforce
  have ge: "r \<in> set ts \<Longrightarrow> b \<le> fst r \<and> a < b" for r
    using Cons.prems(1) t tiling_ge[of b ts N r] by simp
  show ?case
    using Cons.IH[of b] Cons.prems t ge[of q] ge[of p] by auto
qed simp

lemma tiling_fst_inj:
  "\<lbrakk>tiling off ts N; p \<in> set ts; q \<in> set ts; fst p = fst q\<rbrakk> \<Longrightarrow> p = q"
proof (induction ts arbitrary: off)
  case (Cons t ts)
  obtain a b where t: "t = (a, b)" by fastforce
  have "r \<in> set ts \<Longrightarrow> b \<le> fst r \<and> a < b" for r
    using Cons.prems(1) t tiling_ge[of b ts N r] by simp
  with Cons t show ?case by fastforce
qed simp

text \<open>The chain is the tiling restricted to the ranges that arrived.\<close>

definition arranged :: "(int \<times> int) list \<Rightarrow> (int \<times> int) set \<Rightarrow> ipFrag list \<Rightarrow> bool" where
  "arranged ts S fs \<longleftrightarrow> sorted_wrt earlier (map range_of fs) \<and> set (map range_of fs) = S \<and> S \<subseteq> set ts"

lemma trim_next_ge: "(\<And>f. f \<in> set fs \<Longrightarrow> e \<le> f_offset f) \<Longrightarrow> trim_next e [] fs freed = (fs, freed)"
  by (cases fs) (simp_all add: trim_next.simps(2))

lemma trim_next_arranged:
  assumes t: "tiling off ts N" and ab: "(a, b) \<in> set ts" and c: "chain_ok P behind"
    and srt: "sorted_wrt earlier (map range_of behind)" and sub: "range_of ` set behind \<subseteq> set ts"
    and hd: "behind \<noteq> [] \<longrightarrow> a \<le> f_offset (hd behind)"
  shows "fst (trim_next b [] behind freed) = filter (\<lambda>f. range_of f \<noteq> (a, b)) behind"
proof (cases behind)
  case Nil
  then show ?thesis by simp
next
  case (Cons f fs)
  have far: "b \<le> f_offset g" if "a < f_offset g" "g \<in> set behind" for g
    using tiling_apart[OF t ab, of "range_of g"] that sub by (auto simp: range_of_def)
  have later: "f_offset f < f_offset g" if "g \<in> set fs" for g
    using srt that Cons by (auto simp: range_of_def)
  have rest: "a < f_offset g" "b \<le> f_offset g" "range_of g \<noteq> (a, b)" if "g \<in> set fs" for g
    using later[OF that] hd Cons far[of g] that by (auto simp: range_of_def)
  show ?thesis
  proof (cases "f_offset f = a")
    case True
    then have "range_of f = (a, b)"
      using tiling_fst_inj[OF t, of "range_of f" "(a, b)"] ab sub Cons by (auto simp: range_of_def)
    moreover have "a < b"
      using tiling_ge[OF t ab] by simp
    ultimately show ?thesis
      using c Cons rest by (auto simp: trim_next_Cons trim_next_ge range_of_def filter_id_conv)
  next
    case False
    then have "a < f_offset f" "b \<le> f_offset f"
      using hd Cons far[of f] by auto
    then show ?thesis
      using c Cons rest by (auto simp: trim_next_Cons range_of_def filter_id_conv)
  qed
qed

lemma insert_frag_arranged:
  assumes t: "tiling off ts N" and ab: "(a, b) \<in> set ts" and c: "chain_ok P fs"
    and arr: "arranged ts S fs" and eq: "insert_frag a b sz ptr fs = (fs', freed)"
  shows "arranged ts (insert (a, b) S) fs'"
  using eq
proof (rule insert_frag_eq)
  fix before' behind behind' a' ptr'
  assume split: "fs = before' @ behind" and front: "\<forall>f \<in> set before'. f_offset f < a"
    and hd: "behind \<noteq> [] \<longrightarrow> a \<le> f_offset (hd behind)" and a': "a' = new_offset a before'"
    and b': "behind' = fst (trim_next b [] behind [])"
    and fs': "fs' = before' @ ip_frag_create a' b sz ptr' # behind'"
  have sub: "range_of f \<in> set ts" if "f \<in> set fs" for f
    using arr that by (auto simp: arranged_def)
  have srt: "sorted_wrt earlier (map range_of behind)" "sorted_wrt earlier (map range_of before')"
    using arr split by (auto simp: arranged_def sorted_wrt_append)
  have "chain_ok P behind"
    using c split by (auto simp: chain_ok_def sorted_wrt_append)
  then have behind': "behind' = filter (\<lambda>f. range_of f \<noteq> (a, b)) behind"
    unfolding b' by (rule trim_next_arranged[OF t ab]) (use srt sub split hd in auto)
  have "f_end f \<le> a" if "f \<in> set before'" for f
    using tiling_apart[OF t, of "range_of f" "(a, b)"] that sub[of f] front ab split by (auto simp: range_of_def)
  from this[of "last before'"] have "a' = a"
    unfolding a' by (simp add: new_offset_def)
  then have new: "range_of (ip_frag_create a' b sz ptr') = (a, b)"
    by (simp add: range_of_def ip_frag_create_def)
  have ge: "a \<le> f_offset f" if "f \<in> set behind" for f
    using that hd srt(1) by (cases behind) (auto simp: range_of_def)
  have later: "a < f_offset f" if "f \<in> set behind'" for f
    using that ge[of f] tiling_fst_inj[OF t, of "range_of f" "(a, b)"] sub[of f] ab split
    unfolding behind' by (fastforce simp: range_of_def)
  have "sorted_wrt earlier (map range_of behind')"
    using srt(1) by (simp add: behind' sorted_wrt_map sorted_wrt_filter)
  then have "sorted_wrt earlier (map range_of fs')"
    using srt(2) new front later by (fastforce simp: fs' sorted_wrt_append range_of_def)
  moreover have "set (map range_of fs') = insert (a, b) S"
    using arr split new by (auto simp: fs' behind' arranged_def)
  ultimately show ?thesis
    using arr ab by (auto simp: arranged_def)
qed

lemma arranged_filter:
  assumes "tiling off ts N" and "arranged ts S fs"
  shows "map range_of fs = filter (\<lambda>t. t \<in> S) ts"
proof (rule sorted_wrt_set_unique[of earlier])
  show "sorted_wrt earlier (filter (\<lambda>t. t \<in> S) ts)"
    using tiling_sorted[OF assms(1)] by (rule sorted_wrt_filter)
qed (use assms in \<open>auto simp: arranged_def\<close>)

lemma connects_filter:
  "\<lbrakk>tiling off ts N; map range_of fs = filter (\<lambda>t. t \<in> S) ts; ts = [] \<or> last ts \<in> S\<rbrakk>
   \<Longrightarrow> connects off fs \<longleftrightarrow> set ts \<subseteq> S"
proof (induction ts arbitrary: off fs)
  case Nil
  then show ?case by simp
next
  case (Cons t ts)
  obtain b where t: "t = (off, b)" "off < b" "tiling b ts N"
    using Cons.prems(1) by (cases t) auto
  show ?case
  proof (cases "t \<in> S")
    case True
    then obtain f fs1 where f: "fs = f # fs1" "range_of f = t" "map range_of fs1 = filter (\<lambda>t. t \<in> S) ts"
      using Cons.prems(2) by (cases fs) auto
    then have "connects off fs \<longleftrightarrow> connects b fs1"
      using t by (auto simp: range_of_def)
    also have "\<dots> \<longleftrightarrow> set ts \<subseteq> S"
      by (rule Cons.IH[OF t(3) f(3)]) (use Cons.prems(3) in \<open>auto split: if_splits\<close>)
    finally show ?thesis
      using True by simp
  next
    case False
    then have "ts \<noteq> []" "last ts \<in> set (map range_of fs)"
      using Cons.prems(2,3) by (auto split: if_splits)
    then obtain f fs1 where f: "fs = f # fs1" by (cases fs) auto
    moreover have "range_of f \<in> set (filter (\<lambda>t. t \<in> S) (t # ts))"
      unfolding Cons.prems(2)[symmetric] by (simp add: f)
    ultimately have f: "fs = f # fs1" "range_of f \<in> set ts"
      using False by auto
    then have "b \<le> f_offset f"
      using tiling_ge[OF t(3)] by (fastforce simp: range_of_def)
    then show ?thesis
      using f t False by auto
  qed
qed

definition fr_range :: "fragment \<Rightarrow> int \<times> int" where
  "fr_range x = (fr_offset x, fr_end x)"

lemma receive_arranged:
  assumes "tiling 0 ts N" and "fragment_of P x" and "fr_range x \<in> set ts" and "queue_ok P q"
    and "arranged ts S (q_frags q)"
  shows "arranged ts (insert (fr_range x) S) (q_frags (receive x q))"
proof -
  obtain fs' freed where eq: "insert_frag (fr_offset x) (fr_end x) (fr_truesize x)
      (drop (nat (fr_ihl x)) (fr_data x)) (q_frags q) = (fs', freed)"
    by fastforce
  have "arranged ts (insert (fr_offset x, fr_end x) S) fs'"
    by (rule insert_frag_arranged[OF assms(1) _ _ assms(5) eq])
      (use assms in \<open>auto simp: fr_range_def queue_ok_def\<close>)
  then show ?thesis
    by (simp add: receive_sel eq fr_range_def)
qed

lemma run_arranged:
  "\<lbrakk>tiling 0 ts (int (length P)); \<forall>x \<in> set xs. fragment_of P x \<and> fr_range x \<in> set ts; queue_ok P q;
    arranged ts S (q_frags q); q_len q = (if last ts \<in> S then int (length P) else 0)\<rbrakk>
   \<Longrightarrow> arranged ts (S \<union> fr_range ` set xs) (q_frags (fold receive xs q)) \<and>
       q_len (fold receive xs q) = (if last ts \<in> S \<union> fr_range ` set xs then int (length P) else 0)"
proof (induction xs arbitrary: q S)
  case Nil
  then show ?case by simp
next
  case (Cons x xs)
  let ?N = "int (length P)"
  have x: "fragment_of P x" "fr_range x \<in> set ts"
    using Cons.prems by auto
  from tiling_last[OF Cons.prems(1) x(2)] have "fr_end x = ?N \<longleftrightarrow> fr_range x = last ts"
    by (simp add: fr_range_def)
  moreover have "fr_end x \<le> ?N" "fr_mf x \<longleftrightarrow> fr_end x < ?N"
    using x(1) unfolding fragment_of_def piece_def by blast+
  ultimately have "fr_mf x \<longleftrightarrow> fr_range x \<noteq> last ts" "\<not> fr_mf x \<Longrightarrow> fr_end x = ?N"
    by auto
  then have "q_len (receive x q) = (if last ts \<in> insert (fr_range x) S then ?N else 0)"
    unfolding receive_sel insert_iff Cons.prems(5) by (cases "fr_mf x") auto
  moreover have "arranged ts (insert (fr_range x) S) (q_frags (receive x q))"
    by (rule receive_arranged[OF Cons.prems(1) x Cons.prems(3,4)])
  moreover have "queue_ok P (receive x q)"
    using Cons.prems(3) x(1) by (rule queue_ok_receive)
  moreover have "\<forall>x \<in> set xs. fragment_of P x \<and> fr_range x \<in> set ts"
    using Cons.prems(2) by simp
  ultimately have "arranged ts (insert (fr_range x) S \<union> fr_range ` set xs) (q_frags (fold receive xs (receive x q))) \<and>
      q_len (fold receive xs (receive x q)) = (if last ts \<in> insert (fr_range x) S \<union> fr_range ` set xs then ?N else 0)"
    using Cons.IH[of "receive x q" "insert (fr_range x) S"] Cons.prems(1) by blast
  then show ?case by simp
qed

lemma receive_all_arranged:
  assumes "tiling 0 ts (int (length P))" and "\<forall>x \<in> set xs. fragment_of P x \<and> fr_range x \<in> set ts" and "xs \<noteq> []"
  shows "arranged ts (fr_range ` set xs) (q_frags (receive_all i xs)) \<and>
    q_len (receive_all i xs) = (if last ts \<in> fr_range ` set xs then int (length P) else 0)"
proof -
  obtain x ys where xs: "xs = x # ys"
    using assms(3) by (cases xs) auto
  have "queue_ok P (new_queue i (fr_ihl x) (fr_data x))"
    by (simp add: queue_ok_def chain_ok_def new_queue_def)
  then show ?thesis
    using run_arranged[OF assms(1,2), of "new_queue i (fr_ihl x) (fr_data x)" "{}"] xs
    by (simp add: arranged_def new_queue_def Let_def)
qed

lemma arranged_len_pos:
  assumes "tiling off ts N" and "arranged ts S fs" and "chain_ok P fs" and "f \<in> set fs"
  shows "0 < f_len f"
proof -
  have "range_of f \<in> set ts"
    using assms(2,4) by (auto simp: arranged_def)
  then show ?thesis
    using tiling_ge[OF assms(1), of "range_of f"] assms(3,4) by (auto simp: range_of_def chain_ok_def frag_ok_def)
qed

lemma fix_header_sel:
  assumes "20 \<le> length h"
  shows "length (fix_header c (h @ P)) = length h + length P"
    and "drop (length h) (fix_header c (h @ P)) = P"
    and "\<lbrakk>k < length h; k \<notin> {2, 3, 6, 7}\<rbrakk> \<Longrightarrow> fix_header c (h @ P) ! k = h ! k"
    and "fix_header c (h @ P) ! 6 = 0" and "fix_header c (h @ P) ! 7 = 0"
    and "be16 (fix_header c (h @ P) ! 2) (fix_header c (h @ P) ! 3) =
         word_of_int (int (unat (take_bit 4 (h ! 0))) * 4 + c)"
    and "\<lbrakk>v = int (unat (take_bit 4 (h ! 0))) * 4 + c; 0 \<le> v; v \<le> 65535\<rbrakk> \<Longrightarrow>
         int (unat (be16 (fix_header c (h @ P) ! 2) (fix_header c (h @ P) ! 3))) = v"
proof -
  let ?w = "word_of_int (int (unat (take_bit 4 (h ! 0))) * 4 + c) :: u16"
  have eq: "fix_header c (h @ P) =
      (h[6 := 0, 7 := 0, 2 := ucast (drop_bit 8 ?w), 3 := ucast ?w]) @ P"
    using assms by (simp add: fix_header_def Let_def htons_bytes_def list_update_append nth_append)
  show "length (fix_header c (h @ P)) = length h + length P" "drop (length h) (fix_header c (h @ P)) = P"
    "fix_header c (h @ P) ! 6 = 0" "fix_header c (h @ P) ! 7 = 0"
    and w: "be16 (fix_header c (h @ P) ! 2) (fix_header c (h @ P) ! 3) = ?w"
    unfolding eq using assms by (simp_all add: nth_append nth_list_update)
  have small: "int (unat (word_of_int u :: u16)) = u" if "0 \<le> u" "u \<le> 65535" for u
    using that by (simp add: unsigned_of_int take_bit_int_eq_self_iff)
  show "\<lbrakk>v = int (unat (take_bit 4 (h ! 0))) * 4 + c; 0 \<le> v; v \<le> 65535\<rbrakk> \<Longrightarrow>
      int (unat (be16 (fix_header c (h @ P) ! 2) (fix_header c (h @ P) ! 3))) = v"
    unfolding w using small[of v] by metis
  show "\<lbrakk>k < length h; k \<notin> {2, 3, 6, 7}\<rbrakk> \<Longrightarrow> fix_header c (h @ P) ! k = h ! k"
    unfolding eq using assms by (simp add: nth_append nth_list_update)
qed

section \<open>Properties of reassembly\<close>

text \<open>A datagram of nine payload bytes in two fragments, the second one first.\<close>

definition sample_header :: bytes where
  "sample_header = [0x45, 0, 0, 28, 0, 7, 0x20, 0, 64, 17, 0, 0, 10, 0, 0, 1, 10, 0, 0, 2]"

definition sample_payload :: bytes where
  "sample_payload = [1, 2, 3, 4, 5, 6, 7, 8, 9]"

definition sample_fragments :: "fragment list" where
  "sample_fragments =
     [\<lparr>fr_offset = 8, fr_tot_len = 21, fr_ihl = 20, fr_mf = False, fr_truesize = 216, fr_data = sample_header @ [9]\<rparr>,
      \<lparr>fr_offset = 0, fr_tot_len = 28, fr_ihl = 20, fr_mf = True, fr_truesize = 216,
       fr_data = sample_header @ [1, 2, 3, 4, 5, 6, 7, 8]\<rparr>]"

lemma sample_ok:
  "\<forall>x \<in> set sample_fragments. fragment_of sample_payload x" "sample_fragments \<noteq> []"
  "ipDone (receive_all 0 sample_fragments)"
  "ipGlue (\<lambda>k. 0) (receive_all 0 sample_fragments) =
     Glued (sample_header[3 := 29, 6 := 0] @ sample_payload)"
  by code_simp+

text \<open>
  C1: Reassembly is sound. Whatever fragments of one datagram arrive, in whatever order and
  however they overlap or repeat, the datagram \<open>ipGlue\<close> hands on once \<open>ipDone\<close> holds has
  exactly the original payload behind the header of a received first fragment, with the
  fragment field cleared and the total length corrected.
\<close>

theorem reassembly_sound:
  assumes "\<forall>x \<in> set xs. fragment_of P x" and "xs \<noteq> []" and "ipDone (receive_all i xs)"
    and "ipGlue junk (receive_all i xs) = Glued d"
  shows "\<exists>x \<in> set xs. fr_offset x = 0 \<and> drop (nat (fr_ihl x)) d = P \<and>
    int (unat (be16 (d ! 2) (d ! 3))) = fr_ihl x + int (length P) \<and> d ! 6 = 0 \<and> d ! 7 = 0 \<and>
    (\<forall>k. k < nat (fr_ihl x) \<longrightarrow> k \<notin> {2, 3, 6, 7} \<longrightarrow> d ! k = fr_data x ! k)"
  using assms(1-3)
proof (rule done_header)
  let ?q = "receive_all i xs"
  fix x assume x: "x \<in> set xs" "fr_offset x = 0" "q_ihlen ?q = fr_ihl x" "header_of ?q = take (nat (fr_ihl x)) (fr_data x)"
  let ?h = "take (nat (fr_ihl x)) (fr_data x)"
  have ihl: "20 \<le> fr_ihl x" "fr_ihl x \<le> int (length (fr_data x))" "fr_ihl x = int (unat (take_bit 4 (?h ! 0))) * 4"
    using assms(1) x(1) by (auto simp: fragment_of_def)
  then have h: "length ?h = nat (fr_ihl x)" "20 \<le> length ?h"
    by auto
  have d: "d = fix_header (int (length P)) (?h @ P)" and le: "fr_ihl x + int (length P) \<le> 65535"
    using glue_done[OF receive_all_ok(1)[OF assms(1,2)] assms(3), of junk] assms(4) x(3,4) h(1) ihl(1)
    by (auto split: if_splits)
  note sel = fix_header_sel[OF h(2), where c = "int (length P)" and P = P, folded d]
  have "int (unat (be16 (d ! 2) (d ! 3))) = fr_ihl x + int (length P)"
    by (rule sel(7)) (use ihl le in auto)
  moreover have "\<forall>k. k < nat (fr_ihl x) \<longrightarrow> k \<notin> {2, 3, 6, 7} \<longrightarrow> d ! k = fr_data x ! k"
    using sel(3) h(1) by simp
  ultimately show ?thesis
    using sel(2,4,5) x(1,2) h(1) by metis
qed

lemma reassembly_sound_witness:
  "\<exists>x \<in> set sample_fragments. fr_offset x = 0 \<and>
    drop (nat (fr_ihl x)) (sample_header[3 := 29, 6 := 0] @ sample_payload) = sample_payload"
  using reassembly_sound[OF sample_ok] by blast

text \<open>
  C18: Reassembly is complete. When the sender cut the datagram into consecutive ranges, the
  queue is reported complete exactly when every range has arrived, in any order and with any
  repetitions, and it then glues to a datagram that carries the payload.
\<close>

theorem reassembly_complete:
  assumes "tiling 0 ts (int (length P))" and "P \<noteq> []"
    and "\<forall>x \<in> set xs. fragment_of P x \<and> fr_range x \<in> set ts \<and> fr_ihl x + int (length P) \<le> 65535" and "xs \<noteq> []"
  shows "(ipDone (receive_all i xs) \<longleftrightarrow> set ts \<subseteq> fr_range ` set xs) \<and>
    (ipDone (receive_all i xs) \<longrightarrow> (\<exists>d n. ipGlue junk (receive_all i xs) = Glued d \<and> drop n d = P))"
proof -
  let ?q = "receive_all i xs" and ?S = "fr_range ` set xs"
  have arr: "arranged ts ?S (q_frags ?q)" and len: "q_len ?q = (if last ts \<in> ?S then int (length P) else 0)"
    using receive_all_arranged[OF assms(1) _ assms(4), of i] assms(3) by auto
  have ne: "ts \<noteq> []"
    using assms(1,2) by auto
  have "connects 0 (q_frags ?q) \<longleftrightarrow> set ts \<subseteq> ?S" if "last ts \<in> ?S"
    by (rule connects_filter[OF assms(1) arranged_filter[OF assms(1) arr]]) (use that in simp)
  then have "ipDone ?q \<longleftrightarrow> set ts \<subseteq> ?S"
    using len assms(2) last_in_set[OF ne] by (cases "last ts \<in> ?S") (auto simp: ipDone_def)
  moreover have "\<exists>d n. ipGlue junk ?q = Glued d \<and> drop n d = P" if d: "ipDone ?q"
  proof -
    have ok: "queue_ok P ?q"
      using assms by (intro receive_all_ok) auto
    have "0 < f_len f" if "f \<in> set (q_frags ?q)" for f
      using arranged_len_pos[OF assms(1) arr _ that, of P] ok by (simp add: queue_ok_def)
    then have pos: "\<not> (\<exists>f \<in> set (q_frags ?q). f_len f < 0)" by force
    obtain x where x: "x \<in> set xs" "q_ihlen ?q = fr_ihl x" "header_of ?q = take (nat (fr_ihl x)) (fr_data x)"
      using done_header[OF _ assms(4) d] assms(3) by blast
    have ihl: "20 \<le> fr_ihl x" "fr_ihl x \<le> int (length (fr_data x))" "fr_ihl x + int (length P) \<le> 65535"
      using assms(3) x(1) by (auto simp: fragment_of_def)
    then show ?thesis
      using glue_done[OF ok d, of junk] pos x fix_header_sel(2)[where h = "header_of ?q" and c = "int (length P)" and P = P]
      by (intro exI[of _ "fix_header (int (length P)) (header_of ?q @ P)"] exI[of _ "length (header_of ?q)"]) simp
  qed
  ultimately show ?thesis by blast
qed

lemma reassembly_complete_witness:
  "\<exists>d n. ipGlue (\<lambda>k. 0) (receive_all 0 sample_fragments) = Glued d \<and> drop n d = sample_payload"
proof -
  have "tiling 0 [(0, 8), (8, 9)] (int (length sample_payload))" "sample_payload \<noteq> []"
    "\<forall>x \<in> set sample_fragments. fragment_of sample_payload x \<and> fr_range x \<in> set [(0, 8), (8, 9)] \<and>
       fr_ihl x + int (length sample_payload) \<le> 65535"
    by code_simp+
  then show ?thesis
    using reassembly_complete[of "[(0, 8), (8, 9)]" sample_payload sample_fragments 0 "\<lambda>k. 0"] sample_ok by blast
qed

end
