(* ===== verification/Timer_List.thy ===== *)
theory Timer_List
  imports Prelude
begin

text \<open>
  The timer list of \<open>dpi/IpFragment.cc\<close>: a doubly linked list through the \<open>timerList\<close>
  nodes embedded in the queues, with \<open>timer_head\<close> and \<open>timer_tail\<close>. Node addresses are
  numbers; the links are maps from addresses. \<open>addTimer\<close> and \<open>delTimer\<close> are translated on
  the links; the locale \<open>timer_queue\<close> states the list contract the fragment code relies on
  (including the double \<open>delTimer\<close> that \<open>ipFind\<close> followed by \<open>ipFree\<close> performs), and it is
  interpreted on the linked implementation and on plain lists.
\<close>

section \<open>The links\<close>

record tlinks =
  t_prev :: "nat \<Rightarrow> nat option"
  t_next :: "nat \<Rightarrow> nat option"
  timer_head :: "nat option"
  timer_tail :: "nat option"

definition tlinks_init :: tlinks where
  "tlinks_init = \<lparr>t_prev = (\<lambda>_. None), t_next = (\<lambda>_. None), timer_head = None, timer_tail = None\<rparr>"

definition addTimer :: "nat \<Rightarrow> tlinks \<Rightarrow> tlinks" where
  "addTimer x s = (case timer_tail s of
     Some t \<Rightarrow> s\<lparr>t_next := (t_next s)(t := Some x, x := None), t_prev := (t_prev s)(x := Some t),
                 timer_tail := Some x\<rparr>
   | None \<Rightarrow> s\<lparr>t_prev := (t_prev s)(x := None), t_next := (t_next s)(x := None),
               timer_tail := Some x, timer_head := Some x\<rparr>)"

definition unlink_front :: "nat \<Rightarrow> tlinks \<Rightarrow> tlinks" where
  "unlink_front x s = (case t_prev s x of
     Some p \<Rightarrow> s\<lparr>t_next := (t_next s)(p := t_next s x)\<rparr>
   | None \<Rightarrow> s\<lparr>timer_head := t_next s x\<rparr>)"

definition unlink_back :: "nat \<Rightarrow> tlinks \<Rightarrow> tlinks" where
  "unlink_back x s = (case t_next s x of
     Some n \<Rightarrow> s\<lparr>t_prev := (t_prev s)(n := t_prev s x)\<rparr>
   | None \<Rightarrow> s\<lparr>timer_tail := t_prev s x\<rparr>)"

definition delTimer :: "nat \<Rightarrow> tlinks \<Rightarrow> tlinks" where
  "delTimer x s = unlink_back x (unlink_front x s)"

section \<open>The list the links represent\<close>

fun first_or :: "nat list \<Rightarrow> nat option \<Rightarrow> nat option" where
  "first_or [] e = e"
| "first_or (x # xs) e = Some x"

definition last_or :: "nat option \<Rightarrow> nat list \<Rightarrow> nat option" where
  "last_or p xs = (if xs = [] then p else Some (last xs))"

fun linked :: "(nat \<Rightarrow> nat option) \<Rightarrow> (nat \<Rightarrow> nat option) \<Rightarrow> nat option \<Rightarrow> nat list \<Rightarrow> nat option \<Rightarrow> bool" where
  "linked prv nxt p [] e = True"
| "linked prv nxt p (x # xs) e = (prv x = p \<and> nxt x = first_or xs e \<and> linked prv nxt (Some x) xs e)"

definition dll :: "tlinks \<Rightarrow> nat list \<Rightarrow> bool" where
  "dll s xs \<longleftrightarrow> distinct xs \<and> timer_head s = first_or xs None \<and> timer_tail s = last_or None xs \<and>
     linked (t_prev s) (t_next s) None xs None"

lemma last_or_simps [simp]:
  "last_or p [] = p" "last_or p (x # xs) = last_or (Some x) xs"
  "last_or p (xs @ y # ys) = last_or (Some y) ys"
  by (auto simp: last_or_def)

lemma first_or_append: "first_or (xs @ ys) e = first_or xs (first_or ys e)"
  by (cases xs) auto

lemma linked_append:
  "linked prv nxt p (xs @ ys) e \<longleftrightarrow>
     linked prv nxt p xs (first_or ys e) \<and> linked prv nxt (last_or p xs) ys e"
  by (induction xs arbitrary: p) (auto simp: first_or_append)

lemma linked_frame:
  "\<lbrakk>linked prv nxt p xs e; \<And>x. x \<in> set xs \<Longrightarrow> prv' x = prv x \<and> nxt' x = nxt x\<rbrakk> \<Longrightarrow>
   linked prv' nxt' p xs e"
  by (induction xs arbitrary: p) auto

lemma linked_new_end:
  assumes "linked prv nxt p (xs @ [x]) e" and "x \<notin> set xs"
  shows "linked prv (nxt(x := e')) p (xs @ [x]) e'"
proof -
  have "linked prv (nxt(x := e')) p xs (Some x)"
    by (rule linked_frame [of prv nxt]) (use assms in \<open>auto simp: linked_append\<close>)
  with assms show ?thesis by (simp add: linked_append)
qed

lemma linked_new_start:
  assumes "linked prv nxt p (x # xs) e" and "x \<notin> set xs"
  shows "linked (prv(x := p')) nxt p' (x # xs) e"
proof -
  have "linked (prv(x := p')) nxt (Some x) xs e"
    by (rule linked_frame [of prv nxt]) (use assms in auto)
  with assms show ?thesis by simp
qed

lemma dll_init: "dll tlinks_init []"
  by (simp add: dll_def tlinks_init_def)

lemma dll_addTimer:
  assumes "dll s xs" and "x \<notin> set xs"
  shows "dll (addTimer x s) (xs @ [x])"
proof (cases xs rule: rev_cases)
  case Nil
  with assms show ?thesis by (simp add: dll_def addTimer_def)
next
  case (snoc ys t)
  have tail: "timer_tail s = Some t"
    using assms(1) snoc by (simp add: dll_def)
  have l: "linked (t_prev s) (t_next s) None (ys @ [t]) None" "t \<notin> set ys" "x \<notin> set ys" "x \<noteq> t"
    using assms snoc by (auto simp: dll_def)
  have "linked (t_prev s) ((t_next s)(t := Some x)) None (ys @ [t]) (Some x)"
    by (rule linked_new_end [OF l(1,2)])
  then have "linked ((t_prev s)(x := Some t)) ((t_next s)(t := Some x, x := None)) None (ys @ [t]) (Some x)"
    by (rule linked_frame) (use l in auto)
  then show ?thesis
    using assms snoc tail by (simp add: dll_def addTimer_def linked_append first_or_append)
qed

lemma dll_delTimer:
  assumes "dll s (as @ x # bs)"
  shows "dll (delTimer x s) (as @ bs)"
proof -
  have d: "distinct (as @ x # bs)" and hd: "timer_head s = first_or (as @ x # bs) None"
    and tl: "timer_tail s = last_or None (as @ x # bs)"
    and l: "linked (t_prev s) (t_next s) None as (Some x)" "t_prev s x = last_or None as"
      "t_next s x = first_or bs None" "linked (t_prev s) (t_next s) (Some x) bs None"
    using assms by (auto simp: dll_def linked_append)
  let ?n = "if as = [] then t_next s else (t_next s)(last as := first_or bs None)"
  let ?p = "if bs = [] then t_prev s else (t_prev s)(hd bs := last_or None as)"
  have ft: "linked (t_prev s) ?n None as (first_or bs None)"
  proof (cases as rule: rev_cases)
    case (snoc ys y)
    then show ?thesis
      using linked_new_end [of "t_prev s" "t_next s" None ys y "Some x" "first_or bs None"] l(1) d
      by simp
  qed simp
  have fr: "linked ?p ?n None as (first_or bs None)"
    by (rule linked_frame [OF ft]) (use d in \<open>cases bs; auto\<close>)
  have "linked ?p (t_next s) (last_or None as) bs None"
    using linked_new_start l(4) d by (cases bs) auto
  then have bk: "linked ?p ?n (last_or None as) bs None"
    by (rule linked_frame) (use d in \<open>cases as rule: rev_cases; auto\<close>)
  have links: "delTimer x s = s\<lparr>t_next := ?n, t_prev := ?p,
      timer_head := first_or (as @ bs) None, timer_tail := last_or None (as @ bs)\<rparr>"
  proof (cases as rule: rev_cases)
    case Nil
    with hd tl l d show ?thesis
      by (cases bs) (auto simp: delTimer_def unlink_front_def unlink_back_def)
  next
    case (snoc ys y)
    with hd tl l d show ?thesis
      by (cases ys; cases bs) (auto simp: delTimer_def unlink_front_def unlink_back_def last_or_def)
  qed
  show ?thesis
    unfolding links using fr bk d by (simp add: dll_def linked_append)
qed

text \<open>A second \<open>delTimer\<close> writes the same links again: nothing changes.\<close>

lemma delTimer_again:
  assumes "t_prev s x \<noteq> Some x" and "t_next s x \<noteq> Some x"
  shows "delTimer x (delTimer x s) = delTimer x s"
  using assms
  by (cases "t_prev s x"; cases "t_next s x")
    (auto simp: delTimer_def unlink_front_def unlink_back_def fun_upd_idem_iff)

lemma dll_no_self:
  assumes "dll s xs" and "x \<in> set xs"
  shows "t_prev s x \<noteq> Some x \<and> t_next s x \<noteq> Some x"
proof -
  obtain as bs where xs: "xs = as @ x # bs"
    using assms(2) by (auto dest: split_list)
  have "t_prev s x = last_or None as" "t_next s x = first_or bs None" "x \<notin> set as" "x \<notin> set bs"
    using assms(1) xs by (auto simp: dll_def linked_append)
  then show ?thesis
    by (cases bs) (auto simp: last_or_def)
qed

section \<open>The contract\<close>

locale timer_queue =
  fixes add del :: "nat \<Rightarrow> 's \<Rightarrow> 's" and rep :: "'s \<Rightarrow> nat list \<Rightarrow> bool"
  assumes rep_distinct: "rep s xs \<Longrightarrow> distinct xs"
    and rep_add: "rep s xs \<Longrightarrow> x \<notin> set xs \<Longrightarrow> rep (add x s) (xs @ [x])"
    and rep_del: "rep s xs \<Longrightarrow> x \<in> set xs \<Longrightarrow> rep (del x s) (removeAll x xs)"
    and del_again: "rep s xs \<Longrightarrow> x \<in> set xs \<Longrightarrow> del x (del x s) = del x s"
begin

lemma rep_restart:
  "rep s xs \<Longrightarrow> x \<in> set xs \<Longrightarrow> rep (add x (del x (del x s))) (removeAll x xs @ [x])"
  by (simp add: del_again rep_add rep_del)

text \<open>Restarting with an expiry not before the others keeps the queue in expiry order.\<close>

lemma restart_sorted:
  assumes "rep s xs" and "x \<in> set xs" and "sorted (map e xs)" and "\<And>y. y \<in> set xs \<Longrightarrow> e y \<le> t"
  shows "\<exists>ys. rep (add x (del x (del x s))) ys \<and> set ys = set xs \<and> sorted (map (e(x := t)) ys)"
proof (intro exI conjI)
  show "rep (add x (del x (del x s))) (removeAll x xs @ [x])"
    using assms by (simp add: rep_restart)
  show "set (removeAll x xs @ [x]) = set xs"
    using assms(2) by auto
  have "sorted (map e (removeAll x xs))"
    using assms(3) by (simp add: removeAll_filter_not_eq sorted_filter)
  moreover have "map (e(x := t)) (removeAll x xs) = map e (removeAll x xs)"
    by (rule map_cong) auto
  ultimately show "sorted (map (e(x := t)) (removeAll x xs @ [x]))"
    using assms(4) by (auto simp del: fun_upd_apply simp add: sorted_append) auto
qed

end

text \<open>Operations on the timers, run on an implementation.\<close>

datatype timer_op = Add nat | Del nat

fun run_op :: "(nat \<Rightarrow> 's \<Rightarrow> 's) \<Rightarrow> (nat \<Rightarrow> 's \<Rightarrow> 's) \<Rightarrow> timer_op \<Rightarrow> 's \<Rightarrow> 's" where
  "run_op add del (Add x) s = add x s"
| "run_op add del (Del x) s = del x s"

definition list_addTimer :: "nat \<Rightarrow> nat list \<Rightarrow> nat list" where
  "list_addTimer x xs = xs @ [x]"

definition list_delTimer :: "nat \<Rightarrow> nat list \<Rightarrow> nat list" where
  "list_delTimer x xs = removeAll x xs"

interpretation dll_timers: timer_queue addTimer delTimer dll
proof
  fix s xs x
  show "dll s xs \<Longrightarrow> distinct xs"
    by (simp add: dll_def)
  show "dll s xs \<Longrightarrow> x \<notin> set xs \<Longrightarrow> dll (addTimer x s) (xs @ [x])"
    by (rule dll_addTimer)
  show "dll s xs \<Longrightarrow> x \<in> set xs \<Longrightarrow> delTimer x (delTimer x s) = delTimer x s"
    by (simp add: delTimer_again dll_no_self)
  show "dll (delTimer x s) (removeAll x xs)" if a: "dll s xs" "x \<in> set xs"
  proof -
    obtain as bs where xs: "xs = as @ x # bs"
      using a(2) by (auto dest: split_list)
    then have "removeAll x xs = as @ bs"
      using a(1) by (auto simp: dll_def)
    with dll_delTimer a(1) xs show ?thesis by simp
  qed
qed

interpretation list_timers: timer_queue list_addTimer list_delTimer "\<lambda>xs ys. xs = ys \<and> distinct xs"
  by unfold_locales (auto simp: list_addTimer_def list_delTimer_def distinct_removeAll)

text \<open>An operation sequence is legal when it adds unlinked nodes and deletes linked ones, or repeats a deletion.\<close>

fun legal_ops :: "nat list \<Rightarrow> timer_op list \<Rightarrow> bool" where
  "legal_ops xs [] = True"
| "legal_ops xs (Add x # ops) = (x \<notin> set xs \<and> legal_ops (xs @ [x]) ops)"
| "legal_ops xs (Del x # ops) = (x \<in> set xs \<and> legal_ops (removeAll x xs) ops)"

lemma dll_simulates_list:
  "\<lbrakk>dll s xs; legal_ops xs ops\<rbrakk> \<Longrightarrow>
   dll (fold (run_op addTimer delTimer) ops s) (fold (run_op list_addTimer list_delTimer) ops xs)"
proof (induction ops arbitrary: s xs)
  case Nil
  then show ?case by simp
next
  case (Cons op ops)
  then show ?case
    by (cases op) (auto simp: list_addTimer_def list_delTimer_def dll_timers.rep_add dll_timers.rep_del)
qed

section \<open>Properties\<close>

text \<open>
  C23: The doubly linked timer list implements a queue: on every legal sequence of \<open>addTimer\<close>
  and \<open>delTimer\<close> calls the forward and backward links, head and tail represent the list
  that the same operations build, oldest timer first.
\<close>

theorem timer_links_refine_list:
  assumes "legal_ops [] ops"
  shows "dll (fold (run_op addTimer delTimer) ops tlinks_init) (fold (run_op list_addTimer list_delTimer) ops [])"
  using dll_simulates_list[OF dll_init assms] .

lemma timer_links_refine_list_witness:
  "timer_head (fold (run_op addTimer delTimer) [Add 1, Add 2, Add 3, Del 1, Add 1, Del 3] tlinks_init) = Some 2"
proof -
  have "legal_ops [] [Add 1, Add 2, Add 3, Del 1, Add 1, Del 3]"
    by code_simp
  from timer_links_refine_list[OF this]
  have "dll (fold (run_op addTimer delTimer) [Add 1, Add 2, Add 3, Del 1, Add 1, Del 3] tlinks_init) [2, 1]"
    by (simp add: list_addTimer_def list_delTimer_def)
  then show ?thesis
    by (simp add: dll_def)
qed

end
