(* ===== verification/Ip_Fragment.thy ===== *)
theory Ip_Fragment
  imports Ip_Reassembly Timer_List
begin

text \<open>
  The fragment handler \<open>IpFragment\<close> of \<open>dpi/IpFragment.cc\<close>: the hash table of hosts, the
  queues of each host, the timers and the memory account, from \<open>startIpfragProc\<close> down.

  Pointers are keys: a host is named by its address (\<open>hostfragFind\<close> keeps addresses unique
  in the table, which is proved), a queue by a number that is never reused, the \<open>data\<close>
  of a timer by the number of its queue together with that queue's \<open>hf\<close> (\<open>owner\<close>). Structure
  sizes are those of an LP64 platform. \<open>gettimeofday\<close> is read at one instant per packet
  (the code caches the first reading in \<open>timenow\<close>); \<open>malloc\<close> succeeds. The outcome \<open>None\<close> of an
  operation is the \<open>exit(1)\<close> of \<open>ipEvictor\<close>, which is proved unreachable.
\<close>

section \<open>State\<close>

definition IP_OFFSET :: u16 where "IP_OFFSET = 0x1FFF"
definition IP_MF :: u16 where "IP_MF = 0x2000"
definition IP_FRAG_TIME :: int where "IP_FRAG_TIME = 30 * 1000"
definition IPFRAG_HIGH_THRESH :: int where "IPFRAG_HIGH_THRESH = 256 * 1024"
definition IPFRAG_LOW_THRESH :: int where "IPFRAG_LOW_THRESH = 192 * 1024"
definition sizeof_ipq :: int where "sizeof_ipq = 88"
definition sizeof_ipFrag :: int where "sizeof_ipFrag = 48"

record hostFrags =
  ipqueue :: "ipq list"
  ip_frag_mem :: int
  hf_ip :: u32
  hash_index :: int

record frag_state =
  fragtable :: "int \<Rightarrow> hostFrags list"
  this_host :: "u32 option"
  numpack :: int
  hash_size :: int
  timenow :: int
  time0 :: int
  timers :: "nat list"
  expires :: "nat \<Rightarrow> int"
  owner :: "nat \<Rightarrow> u32"
  next_id :: nat

definition IpFragment :: "int \<Rightarrow> timeval \<Rightarrow> frag_state" where
  "IpFragment n tv = \<lparr>fragtable = (\<lambda>_. []), this_host = None, numpack = 0, hash_size = n, timenow = 0,
     time0 = tv_sec tv, timers = [], expires = (\<lambda>_. 0), owner = (\<lambda>_. 0), next_id = 0\<rparr>"

text \<open>\<open>(int)\<close> of the 64-bit millisecond count keeps the low 32 bits.\<close>

definition jiffies :: "timeval \<Rightarrow> frag_state \<Rightarrow> int \<times> frag_state" where
  "jiffies tv s = (if timenow s \<noteq> 0 then (timenow s, s)
     else let t = sint (word_of_int ((tv_sec tv - time0 s) * 1000 + c_div (tv_usec tv) 1000) :: u32)
          in (t, s\<lparr>timenow := t\<rparr>))"

section \<open>Hosts\<close>

definition ntohl :: "u32 \<Rightarrow> u32" where
  "ntohl w = be32 (ucast w) (ucast (drop_bit 8 w)) (ucast (drop_bit 16 w)) (ucast (drop_bit 24 w))"

definition fragIndex :: "frag_state \<Rightarrow> u32 \<Rightarrow> int" where
  "fragIndex s ip = uint (ntohl ip) mod hash_size s"

text \<open>The host a pointer names, and an update through the pointer.\<close>

definition host_at :: "frag_state \<Rightarrow> u32 \<Rightarrow> hostFrags option" where
  "host_at s ip = find (\<lambda>h. hf_ip h = ip) (fragtable s (fragIndex s ip))"

definition upd_host :: "u32 \<Rightarrow> (hostFrags \<Rightarrow> hostFrags) \<Rightarrow> frag_state \<Rightarrow> frag_state" where
  "upd_host ip f s = s\<lparr>fragtable := (fragtable s)(fragIndex s ip :=
     map (\<lambda>h. if hf_ip h = ip then f h else h) (fragtable s (fragIndex s ip)))\<rparr>"

definition hostfragFind :: "iphdr \<Rightarrow> frag_state \<Rightarrow> bool \<times> frag_state" where
  "hostfragFind iph s = (case host_at s (ip_dst iph) of
     None \<Rightarrow> (False, s\<lparr>this_host := None\<rparr>)
   | Some hf \<Rightarrow> (True, s\<lparr>this_host := Some (hf_ip hf)\<rparr>))"

definition hostfragCreate :: "iphdr \<Rightarrow> frag_state \<Rightarrow> frag_state" where
  "hostfragCreate iph s =
     (let i = fragIndex s (ip_dst iph);
          hf = \<lparr>ipqueue = [], ip_frag_mem = 0, hf_ip = ip_dst iph, hash_index = i\<rparr>
      in s\<lparr>fragtable := (fragtable s)(i := hf # fragtable s i), this_host := Some (ip_dst iph)\<rparr>)"

definition rmthisHost :: "frag_state \<Rightarrow> frag_state" where
  "rmthisHost s = (case this_host s of
     None \<Rightarrow> s
   | Some ip \<Rightarrow> s\<lparr>fragtable := (fragtable s)(fragIndex s ip :=
                   filter (\<lambda>h. hf_ip h \<noteq> ip) (fragtable s (fragIndex s ip))), this_host := None\<rparr>)"

section \<open>The memory account\<close>

definition atomicAdd :: "int \<Rightarrow> hostFrags \<Rightarrow> hostFrags" where
  "atomicAdd n h = h\<lparr>ip_frag_mem := ip_frag_mem h + n\<rparr>"

definition atomicSub :: "int \<Rightarrow> hostFrags \<Rightarrow> hostFrags" where
  "atomicSub n h = h\<lparr>ip_frag_mem := ip_frag_mem h - n\<rparr>"

definition fragKmalloc :: "int \<Rightarrow> frag_state \<Rightarrow> frag_state" where
  "fragKmalloc n s = (case this_host s of None \<Rightarrow> s | Some ip \<Rightarrow> upd_host ip (atomicAdd n) s)"

definition fragKfrees :: "int \<Rightarrow> frag_state \<Rightarrow> frag_state" where
  "fragKfrees n s = (case this_host s of None \<Rightarrow> s | Some ip \<Rightarrow> upd_host ip (atomicSub n) s)"

definition fragKfreeskb :: "int \<Rightarrow> frag_state \<Rightarrow> frag_state" where
  "fragKfreeskb truesize s = fragKfrees truesize s"

definition free_frag :: "ipFrag \<Rightarrow> frag_state \<Rightarrow> frag_state" where
  "free_frag fp s = fragKfrees sizeof_ipFrag (fragKfreeskb (f_truesize fp) s)"

section \<open>Queues\<close>

definition set_queue :: "(ipq list \<Rightarrow> ipq list) \<Rightarrow> frag_state \<Rightarrow> frag_state" where
  "set_queue g s = (case this_host s of None \<Rightarrow> s
     | Some ip \<Rightarrow> upd_host ip (\<lambda>h. h\<lparr>ipqueue := g (ipqueue h)\<rparr>) s)"

definition the_queues :: "frag_state \<Rightarrow> ipq list" where
  "the_queues s = (case this_host s of None \<Rightarrow> []
     | Some ip \<Rightarrow> (case host_at s ip of None \<Rightarrow> [] | Some h \<Rightarrow> ipqueue h))"

definition the_mem :: "frag_state \<Rightarrow> int" where
  "the_mem s = (case this_host s of None \<Rightarrow> 0
     | Some ip \<Rightarrow> (case host_at s ip of None \<Rightarrow> 0 | Some h \<Rightarrow> ip_frag_mem h))"

definition stop_timer :: "nat \<Rightarrow> frag_state \<Rightarrow> frag_state" where
  "stop_timer x s = s\<lparr>timers := list_delTimer x (timers s)\<rparr>"

definition start_timer :: "nat \<Rightarrow> int \<Rightarrow> frag_state \<Rightarrow> frag_state" where
  "start_timer x e s = s\<lparr>timers := list_addTimer x (timers s), expires := (expires s)(x := e)\<rparr>"

text \<open>A write through a queue pointer of \<open>this_host\<close>.\<close>

definition put_queue :: "ipq \<Rightarrow> frag_state \<Rightarrow> frag_state" where
  "put_queue qp s = set_queue (map (\<lambda>q. if q_id q = q_id qp then qp else q)) s"

text \<open>\<open>ip_view\<close> of the kept header bytes reads the fields that \<open>ipFind\<close> compares.\<close>

definition same_datagram :: "iphdr \<Rightarrow> ipq \<Rightarrow> bool" where
  "same_datagram iph qp = (case ip_view (q_iph qp) of None \<Rightarrow> False
     | Some h \<Rightarrow> ip_id iph = ip_id h \<and> ip_src iph = ip_src h \<and> ip_dst iph = ip_dst h \<and> ip_p iph = ip_p h)"

definition ipFind :: "iphdr \<Rightarrow> frag_state \<Rightarrow> ipq option \<times> frag_state" where
  "ipFind iph s = (case find (same_datagram iph) (the_queues s) of
     None \<Rightarrow> (None, s)
   | Some qp \<Rightarrow> (Some qp, stop_timer (q_id qp) s))"

definition ipCreate :: "timeval \<Rightarrow> iphdr \<Rightarrow> bytes \<Rightarrow> frag_state \<Rightarrow> ipq \<times> frag_state" where
  "ipCreate tv iph data s =
     (let s1 = fragKmalloc (64 + 8) (fragKmalloc sizeof_ipq s);
          qp = new_queue (next_id s1) (int (ip_hl iph) * 4) data;
          hf = (case this_host s1 of Some ip \<Rightarrow> ip | None \<Rightarrow> 0);
          (now, s2) = jiffies tv (s1\<lparr>next_id := next_id s1 + 1, owner := (owner s1)(q_id qp := hf)\<rparr>);
          s3 = start_timer (q_id qp) (now + IP_FRAG_TIME) s2
      in (qp, set_queue (\<lambda>qs. qp # qs) s3))"

text \<open>
  \<open>ipFree\<close>: the entry leaves the queue of \<open>this_host\<close>; when it was the only one the host is
  removed and nothing is charged back, since \<open>this_host\<close> is then null.
\<close>

definition ipFree :: "ipq \<Rightarrow> frag_state \<Rightarrow> frag_state" where
  "ipFree qp s =
     (let s1 = stop_timer (q_id qp) s;
          rest = filter (\<lambda>q. q_id q \<noteq> q_id qp) (the_queues s1);
          s2 = set_queue (\<lambda>_. rest) s1;
          s3 = (if rest = [] then rmthisHost s2 else s2);
          s4 = fold free_frag (q_frags qp) s3
      in fragKfrees sizeof_ipq (fragKfrees (64 + 8) s4))"

section \<open>The map behind the hash table\<close>

lemma find_map_upd:
  "(\<And>h. hf_ip (f h) = hf_ip h) \<Longrightarrow>
   find (\<lambda>h. hf_ip h = ip') (map (\<lambda>h. if hf_ip h = ip then f h else h) hs) =
   (if ip' = ip then map_option f (find (\<lambda>h. hf_ip h = ip) hs) else find (\<lambda>h. hf_ip h = ip') hs)"
  by (induction hs) auto

lemma find_filter_ne:
  "find (\<lambda>h. hf_ip h = ip') (filter (\<lambda>h. hf_ip h \<noteq> ip) hs) =
   (if ip' = ip then None else find (\<lambda>h. hf_ip h = ip') hs)"
  by (induction hs) auto

lemma upd_host_sel [simp]:
  "this_host (upd_host ip f s) = this_host s" "timers (upd_host ip f s) = timers s"
  "expires (upd_host ip f s) = expires s" "owner (upd_host ip f s) = owner s"
  "next_id (upd_host ip f s) = next_id s" "timenow (upd_host ip f s) = timenow s"
  "hash_size (upd_host ip f s) = hash_size s" "time0 (upd_host ip f s) = time0 s"
  by (simp_all add: upd_host_def)

lemma host_at_upd:
  assumes "\<And>h. hf_ip (f h) = hf_ip h"
  shows "host_at (upd_host ip f s) = (host_at s)(ip := map_option f (host_at s ip))"
proof (rule ext)
  fix ip'
  have "fragIndex (upd_host ip f s) ip' = fragIndex s ip'"
    by (simp add: fragIndex_def)
  then show "host_at (upd_host ip f s) ip' = ((host_at s)(ip := map_option f (host_at s ip))) ip'"
    using find_map_upd[OF assms] by (simp add: host_at_def upd_host_def)
qed

lemma host_at_ip: "host_at s ip = Some h \<Longrightarrow> hf_ip h = ip"
  by (auto simp: host_at_def find_Some_iff)

lemma host_at_cong [simp]:
  "host_at (s\<lparr>this_host := x\<rparr>) = host_at s" "host_at (s\<lparr>timers := ts\<rparr>) = host_at s"
  "host_at (s\<lparr>timenow := n\<rparr>) = host_at s" "host_at (s\<lparr>numpack := i\<rparr>) = host_at s"
  "host_at (s\<lparr>timers := ts, expires := e\<rparr>) = host_at s"
  "host_at (s\<lparr>next_id := k, owner := ow\<rparr>) = host_at s"
  by (rule ext, simp add: host_at_def fragIndex_def)+

text \<open>\<open>hostfragCreate\<close> and \<open>rmthisHost\<close> are map update and deletion; lookup is \<open>hostfragFind\<close>.\<close>

lemma hostfragCreate_host_at:
  "host_at (hostfragCreate iph s) = (host_at s)(ip_dst iph \<mapsto>
     \<lparr>ipqueue = [], ip_frag_mem = 0, hf_ip = ip_dst iph, hash_index = fragIndex s (ip_dst iph)\<rparr>)"
  by (rule ext) (auto simp: host_at_def hostfragCreate_def Let_def fragIndex_def)

lemma hostfragCreate_sel [simp]:
  "this_host (hostfragCreate iph s) = Some (ip_dst iph)" "timers (hostfragCreate iph s) = timers s"
  "expires (hostfragCreate iph s) = expires s" "owner (hostfragCreate iph s) = owner s"
  "next_id (hostfragCreate iph s) = next_id s" "timenow (hostfragCreate iph s) = timenow s"
  "hash_size (hostfragCreate iph s) = hash_size s" "time0 (hostfragCreate iph s) = time0 s"
  by (simp_all add: hostfragCreate_def Let_def)

lemma rmthisHost_host_at:
  "this_host s = Some ip \<Longrightarrow> host_at (rmthisHost s) = (host_at s)(ip := None)"
  by (rule ext) (auto simp: host_at_def rmthisHost_def fragIndex_def find_filter_ne)

lemma rmthisHost_sel [simp]:
  "this_host (rmthisHost s) = None" "timers (rmthisHost s) = timers s"
  "expires (rmthisHost s) = expires s" "owner (rmthisHost s) = owner s"
  "next_id (rmthisHost s) = next_id s" "timenow (rmthisHost s) = timenow s"
  "hash_size (rmthisHost s) = hash_size s" "time0 (rmthisHost s) = time0 s"
  by (auto simp: rmthisHost_def split: option.splits)

text \<open>The account.\<close>

lemma free_all_None: "this_host s = None \<Longrightarrow> fold free_frag fs s = s"
  by (induction fs) (auto simp: free_frag_def fragKfreeskb_def fragKfrees_def)

lemma fragK_sel [simp]:
  "this_host (fragKfrees n s) = this_host s" "timers (fragKfrees n s) = timers s"
  "expires (fragKfrees n s) = expires s" "owner (fragKfrees n s) = owner s"
  "next_id (fragKfrees n s) = next_id s" "timenow (fragKfrees n s) = timenow s"
  "hash_size (fragKfrees n s) = hash_size s" "time0 (fragKfrees n s) = time0 s"
  "this_host (fragKmalloc n s) = this_host s" "timers (fragKmalloc n s) = timers s"
  "expires (fragKmalloc n s) = expires s" "owner (fragKmalloc n s) = owner s"
  "next_id (fragKmalloc n s) = next_id s" "timenow (fragKmalloc n s) = timenow s"
  "hash_size (fragKmalloc n s) = hash_size s" "time0 (fragKmalloc n s) = time0 s"
  by (auto simp: fragKfrees_def fragKmalloc_def split: option.splits)

lemma fold_free_sel [simp]:
  "this_host (fold free_frag fs s) = this_host s" "timers (fold free_frag fs s) = timers s"
  "expires (fold free_frag fs s) = expires s" "owner (fold free_frag fs s) = owner s"
  "next_id (fold free_frag fs s) = next_id s" "timenow (fold free_frag fs s) = timenow s"
  "hash_size (fold free_frag fs s) = hash_size s" "time0 (fold free_frag fs s) = time0 s"
  by (induction fs arbitrary: s) (simp_all add: free_frag_def fragKfreeskb_def)

lemma fragK_host_at:
  assumes "this_host s = Some ip" and "host_at s ip = Some h"
  shows "host_at (fragKfrees n s) = (host_at s)(ip \<mapsto> atomicSub n h)"
    and "host_at (fragKmalloc n s) = (host_at s)(ip \<mapsto> atomicAdd n h)"
  using assms by (simp_all add: fragKfrees_def fragKmalloc_def host_at_upd atomicSub_def atomicAdd_def)

lemma atomic_simps [simp]:
  "atomicSub m (atomicSub n h) = atomicSub (n + m) h" "atomicAdd m (atomicAdd n h) = atomicAdd (n + m) h"
  "atomicSub 0 h = h" "ipqueue (atomicSub m h) = ipqueue h" "ipqueue (atomicAdd m h) = ipqueue h"
  "ip_frag_mem (atomicSub m h) = ip_frag_mem h - m" "ip_frag_mem (atomicAdd m h) = ip_frag_mem h + m"
  "hf_ip (atomicSub m h) = hf_ip h" "hf_ip (atomicAdd m h) = hf_ip h"
  by (simp_all add: atomicSub_def atomicAdd_def)

lemma fold_free_host_at:
  "\<lbrakk>this_host s = Some ip; host_at s ip = Some h\<rbrakk> \<Longrightarrow>
   host_at (fold free_frag fs s) = (host_at s)(ip \<mapsto> atomicSub (frag_charge fs) h)"
proof (induction fs arbitrary: s h)
  case Nil
  then show ?case by auto
next
  case (Cons f fs)
  have "host_at (free_frag f s) = (host_at s)(ip \<mapsto> atomicSub (f_truesize f + 48) h)"
    using Cons.prems by (simp add: free_frag_def fragKfreeskb_def fragK_host_at sizeof_ipFrag_def)
  moreover have "this_host (free_frag f s) = Some ip"
    using Cons.prems by (simp add: free_frag_def fragKfreeskb_def)
  ultimately show ?case
    using Cons.IH[of "free_frag f s" "atomicSub (f_truesize f + 48) h"]
    by (simp add: add.commute add.left_commute) auto
qed

text \<open>What \<open>ipFree\<close> does to the map.\<close>

definition q_charge :: "ipq \<Rightarrow> int" where
  "q_charge q = 160 + frag_charge (q_frags q)"

lemma set_queue_sel [simp]:
  "this_host (set_queue g s) = this_host s" "timers (set_queue g s) = timers s"
  "expires (set_queue g s) = expires s" "owner (set_queue g s) = owner s"
  "next_id (set_queue g s) = next_id s" "timenow (set_queue g s) = timenow s"
  "hash_size (set_queue g s) = hash_size s" "time0 (set_queue g s) = time0 s"
  by (auto simp: set_queue_def split: option.splits)

lemma set_queue_host_at:
  assumes "this_host s = Some ip" and "host_at s ip = Some h"
  shows "host_at (set_queue g s) = (host_at s)(ip \<mapsto> h\<lparr>ipqueue := g (ipqueue h)\<rparr>)"
  using assms by (simp add: set_queue_def host_at_upd)

lemma ipFree_effect:
  fixes qp :: ipq
  assumes ip: "this_host s = Some ip" and h: "host_at s ip = Some h"
  defines "rest \<equiv> filter (\<lambda>q. q_id q \<noteq> q_id qp) (ipqueue h)"
  shows "host_at (ipFree qp s) = (host_at s)(ip := if rest = [] then None
           else Some (atomicSub (q_charge qp) (h\<lparr>ipqueue := rest\<rparr>)))"
    and "this_host (ipFree qp s) = (if rest = [] then None else Some ip)"
    and "timers (ipFree qp s) = removeAll (q_id qp) (timers s)"
proof -
  let ?s1 = "stop_timer (q_id qp) s"
  have s1: "this_host ?s1 = Some ip" "host_at ?s1 = host_at s" "timers ?s1 = removeAll (q_id qp) (timers s)"
    using ip by (simp_all add: stop_timer_def list_delTimer_def)
  have qs: "the_queues ?s1 = ipqueue h"
    using s1 h by (simp add: the_queues_def)
  let ?s2 = "set_queue (\<lambda>_. rest) ?s1"
  have s2: "this_host ?s2 = Some ip" "host_at ?s2 = (host_at s)(ip \<mapsto> h\<lparr>ipqueue := rest\<rparr>)"
    using s1 h set_queue_host_at[of ?s1 ip h "\<lambda>_. rest"] by simp_all
  have free: "ipFree qp s = fragKfrees sizeof_ipq (fragKfrees (64 + 8) (fold free_frag (q_frags qp)
      (if rest = [] then rmthisHost ?s2 else ?s2)))"
    by (simp add: ipFree_def qs rest_def[symmetric])
  show "this_host (ipFree qp s) = (if rest = [] then None else Some ip)"
    unfolding free using s2(1) by simp
  show "timers (ipFree qp s) = removeAll (q_id qp) (timers s)"
    unfolding free using s1(3) by simp
  show "host_at (ipFree qp s) = (host_at s)(ip := if rest = [] then None
           else Some (atomicSub (q_charge qp) (h\<lparr>ipqueue := rest\<rparr>)))"
  proof (cases "rest = []")
    case True
    then show ?thesis
      unfolding free using s2 rmthisHost_host_at[of ?s2 ip]
      by (simp add: free_all_None) (simp add: fragKfrees_def)
  next
    case False
    let ?s4 = "fold free_frag (q_frags qp) ?s2"
    have s4: "this_host ?s4 = Some ip"
      "host_at ?s4 = (host_at s)(ip \<mapsto> atomicSub (frag_charge (q_frags qp)) (h\<lparr>ipqueue := rest\<rparr>))"
      using s2 fold_free_host_at[of ?s2 ip "h\<lparr>ipqueue := rest\<rparr>"] by simp_all
    show ?thesis
      unfolding free using False s4 by (simp add: fragK_host_at sizeof_ipq_def q_charge_def algebra_simps)
  qed
qed

lemma stop_timer_sel [simp]:
  "this_host (stop_timer x s) = this_host s" "host_at (stop_timer x s) = host_at s"
  "expires (stop_timer x s) = expires s" "owner (stop_timer x s) = owner s"
  "next_id (stop_timer x s) = next_id s" "timenow (stop_timer x s) = timenow s"
  "hash_size (stop_timer x s) = hash_size s" "time0 (stop_timer x s) = time0 s"
  "timers (stop_timer x s) = removeAll x (timers s)"
  by (simp_all add: stop_timer_def list_delTimer_def)

lemma ipFree_sel [simp]:
  "expires (ipFree q s) = expires s" "owner (ipFree q s) = owner s" "next_id (ipFree q s) = next_id s"
  "timenow (ipFree q s) = timenow s" "hash_size (ipFree q s) = hash_size s" "time0 (ipFree q s) = time0 s"
  by (simp_all add: ipFree_def Let_def)

section \<open>Eviction and expiry\<close>

lemma the_queues_ipFree:
  "the_queues (ipFree q s) = filter (\<lambda>r. q_id r \<noteq> q_id q) (the_queues s)"
proof (cases "this_host s")
  case None
  then have "this_host (ipFree q s) = None"
    by (auto simp: ipFree_def Let_def)
  with None show ?thesis by (simp add: the_queues_def)
next
  case (Some ip)
  show ?thesis
  proof (cases "host_at s ip")
    case None
    then have "the_queues (stop_timer (q_id q) s) = []"
      using Some by (simp add: the_queues_def)
    then have "this_host (ipFree q s) = None"
      by (auto simp: ipFree_def)
    with None Some show ?thesis by (simp add: the_queues_def)
  next
    case h: (Some h)
    with Some ipFree_effect[OF Some h, of q] show ?thesis
      by (auto simp: the_queues_def)
  qed
qed

function ipEvictor :: "frag_state \<Rightarrow> frag_state option" where
  "ipEvictor s =
     (if this_host s \<noteq> None \<and> the_mem s > IPFRAG_LOW_THRESH
      then (case the_queues s of [] \<Rightarrow> None | q # qs \<Rightarrow> ipEvictor (ipFree q s))
      else Some s)"
  by auto
termination
  by (relation "measure (\<lambda>s. length (the_queues s))")
    (auto simp: the_queues_ipFree intro: le_imp_less_Suc length_filter_le)

declare ipEvictor.simps [simp del]

text \<open>The queue a timer points at; a timer without a queue does not occur.\<close>

definition ipExpire :: "nat \<Rightarrow> frag_state \<Rightarrow> frag_state" where
  "ipExpire x s = (case find (\<lambda>q. q_id q = x) (the_queues s) of
     Some qp \<Rightarrow> ipFree qp s | None \<Rightarrow> stop_timer x s)"

lemma ipFree_timers [simp]: "timers (ipFree q s) = removeAll (q_id q) (timers s)"
  by (simp add: ipFree_def Let_def)

lemma jiffies_sel [simp]:
  "timers (snd (jiffies tv s)) = timers s" "expires (snd (jiffies tv s)) = expires s"
  "owner (snd (jiffies tv s)) = owner s" "this_host (snd (jiffies tv s)) = this_host s"
  "next_id (snd (jiffies tv s)) = next_id s" "host_at (snd (jiffies tv s)) = host_at s"
  "hash_size (snd (jiffies tv s)) = hash_size s" "time0 (snd (jiffies tv s)) = time0 s"
  by (simp_all add: jiffies_def Let_def)

lemma ipExpire_timers: "timers (ipExpire x s) = removeAll x (timers s)"
  by (auto simp: ipExpire_def find_Some_iff split: option.split)

function expire_loop :: "timeval \<Rightarrow> frag_state \<Rightarrow> frag_state" where
  "expire_loop tv s = (case timers s of
     [] \<Rightarrow> s
   | x # xs \<Rightarrow> (let s1 = snd (jiffies tv s)
               in if expires s1 x < fst (jiffies tv s)
                  then expire_loop tv (ipExpire x (s1\<lparr>this_host := Some (owner s1 x)\<rparr>))
                  else s1))"
  by auto
termination
  by (relation "measure (\<lambda>(tv, s). length (timers s))")
    (auto simp: ipExpire_timers intro: le_imp_less_Suc)

declare expire_loop.simps [simp del]

section \<open>Packets\<close>

text \<open>
  \<open>ipDefrag\<close>: the outer \<open>None\<close> is the exit of \<open>ipEvictor\<close>; the inner one is the null pointer
  (keep waiting, or not a fragment). \<open>skb\<close> is the \<open>truesize\<close> of the copied packet,
  which \<open>ipDefragStub\<close> passes whenever the packet is a fragment.
\<close>

definition refresh :: "timeval \<Rightarrow> int \<Rightarrow> iphdr \<Rightarrow> bytes \<Rightarrow> ipq \<Rightarrow> frag_state \<Rightarrow> ipq \<times> frag_state" where
  "refresh tv offset iph data qp s =
     (let qp' = remember_header offset (int (ip_hl iph) * 4) data qp;
          (now, s1) = jiffies tv (stop_timer (q_id qp') s)
      in (qp', start_timer (q_id qp') (now + IP_FRAG_TIME) s1))"

definition add_fragment ::
  "(nat \<Rightarrow> u8) \<Rightarrow> int \<Rightarrow> iphdr \<Rightarrow> bytes \<Rightarrow> bool \<Rightarrow> int \<Rightarrow> ipq \<Rightarrow> frag_state \<Rightarrow> bytes option \<times> frag_state" where
  "add_fragment junk offset iph data mf truesize qp s =
     (let (qp', freed) = queue_fragment offset (int (ip_len iph)) (int (ip_hl iph) * 4) mf truesize data qp;
          s1 = fold free_frag freed s;
          s2 = fragKmalloc truesize (fragKmalloc sizeof_ipFrag s1);
          s3 = put_queue qp' s2
      in if ipDone qp'
         then (case ipGlue junk qp' of Glued d \<Rightarrow> Some d | _ \<Rightarrow> None, ipFree qp' s3)
         else (None, s3))"

definition is_fragment :: "iphdr \<Rightarrow> bool" where
  "is_fragment iph \<longleftrightarrow>
     \<not> ((ip_off iph AND NOT IP_OFFSET) AND IP_MF = 0 \<and> ip_off iph AND IP_OFFSET = 0)"

text \<open>Lines 145 to 157: the host, eviction when it holds too much, and the queue of the packet.\<close>

definition make_room :: "frag_state \<Rightarrow> frag_state option" where
  "make_room s = (if this_host s \<noteq> None \<and> the_mem s > IPFRAG_HIGH_THRESH then ipEvictor s else Some s)"

definition locate :: "iphdr \<Rightarrow> bool \<Rightarrow> frag_state \<Rightarrow> (ipq option \<times> frag_state) option" where
  "locate iph have_skb s =
     (let (found, s1) = hostfragFind iph s;
          s2 = (if \<not> found \<and> have_skb then hostfragCreate iph s1 else s1)
      in map_option (\<lambda>s3. if this_host s3 \<noteq> None then ipFind iph s3 else (None, s3)) (make_room s2))"

text \<open>The queue a fragment is added to: the one found, its timer restarted, or a new one (lines 172 to 206).\<close>

definition enter :: "timeval \<Rightarrow> int \<Rightarrow> iphdr \<Rightarrow> bytes \<Rightarrow> ipq option \<Rightarrow> frag_state \<Rightarrow> ipq \<times> frag_state" where
  "enter tv offset iph data qp s4 =
     (let s5 = (if this_host s4 = None then hostfragCreate iph s4 else s4)
      in case qp of Some q \<Rightarrow> refresh tv offset iph data q s5 | None \<Rightarrow> ipCreate tv iph data s5)"

definition ipDefrag ::
  "(nat \<Rightarrow> u8) \<Rightarrow> timeval \<Rightarrow> iphdr \<Rightarrow> bytes \<Rightarrow> int option \<Rightarrow> frag_state \<Rightarrow> (bytes option \<times> frag_state) option" where
  "ipDefrag junk tv iph data skb s = (case locate iph (skb \<noteq> None) s of
     None \<Rightarrow> None
   | Some (qp, s4) \<Rightarrow> Some
       (if \<not> is_fragment iph
        then (None, case qp of Some q \<Rightarrow> ipFree q s4 | None \<Rightarrow> s4)
        else
          (let offset = int (unat (ip_off iph AND IP_OFFSET)) * 8;
               (qp', s6) = enter tv offset iph data qp s4
           in if int (ip_len iph) + offset > 65535 then (None, put_queue qp' s6)
              else add_fragment junk offset iph data
                     ((ip_off iph AND NOT IP_OFFSET) AND IP_MF \<noteq> 0)
                     (case skb of Some t \<Rightarrow> t | None \<Rightarrow> 0) qp' s6)))"

datatype defrag_result = IPF_NOTF | IPF_NEW bytes | IPF_ISF

definition skb_truesize :: "int \<Rightarrow> int" where
  "skb_truesize tot_len = ((tot_len + 16 - 1 + 15) AND NOT 15) + 168"

definition ipDefragStub ::
  "(nat \<Rightarrow> u8) \<Rightarrow> timeval \<Rightarrow> iphdr \<Rightarrow> bytes \<Rightarrow> frag_state \<Rightarrow> (defrag_result \<times> frag_state) option" where
  "ipDefragStub junk tv iph data s =
     (let s1 = expire_loop tv (s\<lparr>numpack := numpack s + 1, timenow := 0\<rparr>)
      in if \<not> is_fragment iph
         then map_option (\<lambda>(_, s2). (IPF_NOTF, s2)) (ipDefrag junk tv iph data None s1)
         else map_option (\<lambda>(r, s2). (case r of Some d \<Rightarrow> IPF_NEW d | None \<Rightarrow> IPF_ISF, s2))
                (ipDefrag junk tv iph (take (ip_len iph) data) (Some (skb_truesize (int (ip_len iph)))) s1))"

text \<open>The packet handed to the callbacks of its protocol, with \<open>skblen\<close>.\<close>

datatype ip_out = ToTcp bytes int | ToUdp bytes int | ToIcmp bytes int

definition genIpProc :: "bytes \<Rightarrow> int \<Rightarrow> ip_out list" where
  "genIpProc data skblen = (case ip_view data of None \<Rightarrow> []
     | Some h \<Rightarrow> if ip_p h = IPPROTO_TCP then [ToTcp data skblen]
               else if ip_p h = IPPROTO_UDP then [ToUdp data skblen]
               else if ip_p h = IPPROTO_ICMP then [ToIcmp data skblen] else [])"

definition skblen_of :: "bool \<Rightarrow> bytes \<Rightarrow> int" where
  "skblen_of need_free data = (case ip_view data of None \<Rightarrow> 0
     | Some h \<Rightarrow> (((int (ip_len h) + 16 + (if need_free then 0 else -1)) + 15) AND NOT 15) + 168)"

definition valid_ip :: "iphdr \<Rightarrow> int \<Rightarrow> bool" where
  "valid_ip iph len \<longleftrightarrow> \<not> (len < 20 \<or> ip_hl iph < 5 \<or> ip_v iph \<noteq> 4 \<or>
     len < int (ip_len iph) \<or> ip_len iph < ip_hl iph * 4)"

definition startIpfragProc ::
  "(nat \<Rightarrow> u8) \<Rightarrow> timeval \<Rightarrow> bytes \<Rightarrow> int \<Rightarrow> frag_state \<Rightarrow> (ip_out list \<times> frag_state) option" where
  "startIpfragProc junk tv data len s = (case ip_view data of
     None \<Rightarrow> Some ([], s)
   | Some iph \<Rightarrow>
       if \<not> valid_ip iph len then Some ([], s)
       else map_option (\<lambda>(r, s'). (case r of
                IPF_ISF \<Rightarrow> []
              | IPF_NOTF \<Rightarrow> genIpProc data (skblen_of False data)
              | IPF_NEW d \<Rightarrow> genIpProc d (skblen_of True d), s'))
            (ipDefragStub junk tv iph data s))"

section \<open>The invariant\<close>

definition frags_ok :: "ipFrag list \<Rightarrow> bool" where
  "frags_ok fs \<longleftrightarrow> chain_str fs \<and> (\<forall>f \<in> set fs. 0 \<le> f_truesize f)"

lemma frags_ok_Nil [simp]: "frags_ok []"
  by (simp add: frags_ok_def chain_str_def)

definition host_ok :: "frag_state \<Rightarrow> u32 \<Rightarrow> hostFrags \<Rightarrow> bool" where
  "host_ok s ip h \<longleftrightarrow> ip_frag_mem h = sum_list (map q_charge (ipqueue h)) \<and>
     distinct (map q_id (ipqueue h)) \<and>
     (\<forall>q \<in> set (ipqueue h). frags_ok (q_frags q) \<and> q_id q < next_id s \<and> owner s (q_id q) = ip)"

definition acct :: "frag_state \<Rightarrow> bool" where
  "acct s \<longleftrightarrow> (\<forall>ip h. host_at s ip = Some h \<longrightarrow> host_ok s ip h)"

definition busy :: "frag_state \<Rightarrow> bool" where
  "busy s \<longleftrightarrow> (\<forall>ip h. host_at s ip = Some h \<longrightarrow> ipqueue h \<noteq> [])"

definition live_at :: "frag_state \<Rightarrow> u32 \<Rightarrow> nat set" where
  "live_at s ip = (case host_at s ip of None \<Rightarrow> {} | Some h \<Rightarrow> q_id ` set (ipqueue h))"

definition live_ids :: "frag_state \<Rightarrow> nat set" where
  "live_ids s = (\<Union>ip. live_at s ip)"

definition timed :: "nat set \<Rightarrow> frag_state \<Rightarrow> bool" where
  "timed X s \<longleftrightarrow> distinct (timers s) \<and> set (timers s) = live_ids s - X"

definition frag_inv :: "frag_state \<Rightarrow> bool" where
  "frag_inv s \<longleftrightarrow> acct s \<and> busy s \<and> timed {} s"

text \<open>A timer never fires before those in front of it.\<close>

definition clock_ok :: "int \<Rightarrow> frag_state \<Rightarrow> bool" where
  "clock_ok t s \<longleftrightarrow> sorted (map (expires s) (timers s)) \<and> (\<forall>x \<in> set (timers s). expires s x \<le> t + IP_FRAG_TIME)"

lemmas inv_defs = frag_inv_def acct_def busy_def timed_def

lemma acct_cong:
  "\<lbrakk>host_at s' = host_at s; next_id s' = next_id s; owner s' = owner s\<rbrakk> \<Longrightarrow> acct s' = acct s"
  by (simp add: acct_def host_ok_def)

lemma live_cong: "host_at s' = host_at s \<Longrightarrow> live_ids s' = live_ids s"
  by (simp add: live_ids_def live_at_def)

lemma live_owner: "acct s \<Longrightarrow> x \<in> live_at s ip \<Longrightarrow> owner s x = ip \<and> x < next_id s"
  by (auto simp: live_at_def acct_def host_ok_def split: option.splits)

lemma filter_id_charge:
  "\<lbrakk>distinct (map q_id qs); q \<in> set qs\<rbrakk> \<Longrightarrow>
   sum_list (map q_charge (filter (\<lambda>r. q_id r \<noteq> q_id q) qs)) = sum_list (map q_charge qs) - q_charge q"
proof (induction qs)
  case (Cons a qs)
  show ?case
  proof (cases "q = a")
    case True
    then have "filter (\<lambda>r. q_id r \<noteq> q_id q) qs = qs"
      using Cons.prems by (auto simp: filter_id_conv) (metis image_eqI)
    with True show ?thesis by simp
  next
    case False
    then have "q \<in> set qs" "q_id a \<noteq> q_id q"
      using Cons.prems by auto
    with Cons show ?thesis by simp
  qed
qed simp

lemma ipFree_inv:
  assumes acct: "acct s" and ip: "this_host s = Some ip" and h: "host_at s ip = Some h" and q: "q \<in> set (ipqueue h)"
  shows "acct (ipFree q s)" and "busy s \<Longrightarrow> busy (ipFree q s)"
    and "live_ids (ipFree q s) = live_ids s - {q_id q}"
    and "timed X s \<Longrightarrow> timed (X - {q_id q}) (ipFree q s)"
proof -
  define rest where "rest = filter (\<lambda>r. q_id r \<noteq> q_id q) (ipqueue h)"
  have host: "host_at (ipFree q s) = (host_at s)(ip := if rest = [] then None
           else Some (atomicSub (q_charge q) (h\<lparr>ipqueue := rest\<rparr>)))"
    using ipFree_effect(1)[OF ip h, of q] by (simp add: rest_def)
  have ok: "host_ok s ip h"
    using acct h by (simp add: acct_def)
  have "host_ok (ipFree q s) ip (atomicSub (q_charge q) (h\<lparr>ipqueue := rest\<rparr>))"
    using ok q by (auto simp: host_ok_def rest_def filter_id_charge distinct_map_filter)
  moreover have "host_ok (ipFree q s) ip' h' = host_ok s ip' h'" for ip' h'
    by (simp add: host_ok_def)
  ultimately show "acct (ipFree q s)"
    using acct by (auto simp: acct_def host split: if_splits)
  show "busy s \<Longrightarrow> busy (ipFree q s)"
    by (auto simp: busy_def host split: if_splits)
  have at: "live_at (ipFree q s) ip' = (if ip' = ip then live_at s ip - {q_id q} else live_at s ip')" for ip'
    using h by (auto simp: live_at_def host rest_def filter_empty_conv split: option.splits)
  have "owner s (q_id q) = ip"
    using ok q by (simp add: host_ok_def)
  then have "q_id q \<notin> live_at s ip'" if "ip' \<noteq> ip" for ip'
    using live_owner[OF acct] that by blast
  then show live: "live_ids (ipFree q s) = live_ids s - {q_id q}"
    unfolding live_ids_def at by (auto split: if_splits) metis
  show "timed X s \<Longrightarrow> timed (X - {q_id q}) (ipFree q s)"
    by (auto simp: timed_def live distinct_removeAll)
qed


lemma ipFree_frag_inv:
  "\<lbrakk>frag_inv s; this_host s = Some ip; host_at s ip = Some h; q \<in> set (ipqueue h)\<rbrakk> \<Longrightarrow> frag_inv (ipFree q s)"
  using ipFree_inv(1,2)[of s ip h q] ipFree_inv(4)[of s ip h q "{}"] by (simp add: frag_inv_def)

text \<open>Eviction: it ends, never meets an empty queue with memory charged, and gets below the low mark.\<close>

lemma the_sel:
  "\<lbrakk>this_host s = Some ip; host_at s ip = Some h\<rbrakk> \<Longrightarrow> the_queues s = ipqueue h \<and> the_mem s = ip_frag_mem h"
  by (simp add: the_queues_def the_mem_def)

text \<open>Operations that only stop timers and free queues.\<close>

definition shrinks :: "frag_state \<Rightarrow> frag_state \<Rightarrow> bool" where
  "shrinks s s' \<longleftrightarrow> expires s' = expires s \<and> owner s' = owner s \<and> next_id s' = next_id s \<and>
     time0 s' = time0 s \<and> hash_size s' = hash_size s \<and> (\<exists>P. timers s' = filter P (timers s))"

lemma ex_filter_id [simp]: "\<exists>P. xs = filter P xs"
  by (rule exI[of _ "\<lambda>_. True"]) simp

lemma shrinks_refl [simp]: "shrinks s s"
  by (simp add: shrinks_def)

lemma shrinks_trans [trans]: "\<lbrakk>shrinks s s'; shrinks s' s''\<rbrakk> \<Longrightarrow> shrinks s s''"
  unfolding shrinks_def by (metis filter_filter)

lemma shrinks_ipFree [simp]: "shrinks s (ipFree q s)"
  unfolding shrinks_def by (auto simp: removeAll_filter_not_eq)

lemma shrinks_clock: "\<lbrakk>shrinks s s'; clock_ok t s\<rbrakk> \<Longrightarrow> clock_ok t s'"
  unfolding shrinks_def clock_ok_def by (auto simp: sorted_filter)

definition evicted :: "frag_state \<Rightarrow> frag_state \<Rightarrow> bool" where
  "evicted s s' \<longleftrightarrow> frag_inv s' \<and> shrinks s s' \<and> timenow s' = timenow s \<and>
     (this_host s' = None \<or> this_host s' = this_host s \<and> the_mem s' \<le> IPFRAG_LOW_THRESH) \<and>
     (\<forall>ip. this_host s \<noteq> Some ip \<longrightarrow> host_at s' ip = host_at s ip) \<and>
     (\<forall>ip. this_host s' = Some ip \<longrightarrow> host_at s' ip \<noteq> None) \<and>
     (\<forall>ip. this_host s = Some ip \<and> this_host s' = None \<longrightarrow> host_at s' ip = None)"

lemma ipEvictor_evicted:
  assumes "frag_inv s" and "\<forall>ip. this_host s = Some ip \<longrightarrow> host_at s ip \<noteq> None"
  shows "\<exists>s'. ipEvictor s = Some s' \<and> evicted s s'"
  using assms
proof (induction s rule: ipEvictor.induct)
  case (1 s)
  show ?case
  proof (cases "this_host s \<noteq> None \<and> the_mem s > IPFRAG_LOW_THRESH")
    case False
    then have "ipEvictor s = Some s"
      by (subst ipEvictor.simps) (simp only: if_False)
    then show ?thesis
      using 1 False by (auto simp: evicted_def)
  next
    case True
    then obtain ip h where ip: "this_host s = Some ip" and h: "host_at s ip = Some h"
      using 1(3) by auto
    then obtain q qs where q: "ipqueue h = q # qs"
      using 1(2) by (cases "ipqueue h") (auto simp: frag_inv_def busy_def)
    note sel = the_sel[OF ip h]
    have eq: "ipEvictor s = ipEvictor (ipFree q s)"
      using True sel q by (subst ipEvictor.simps) simp
    have inv: "frag_inv (ipFree q s)"
      using ipFree_frag_inv[OF 1(2) ip h] q by simp
    note eff = ipFree_effect[OF ip h, of q]
    have "\<forall>ip. this_host (ipFree q s) = Some ip \<longrightarrow> host_at (ipFree q s) ip \<noteq> None"
      using eff by auto
    then obtain s' where s': "ipEvictor (ipFree q s) = Some s'" "evicted (ipFree q s) s'"
      using 1(1)[OF True _ inv, of qs] sel q by auto
    have "evicted s s'"
      using s'(2) eff ip shrinks_trans[OF shrinks_ipFree]
      by (auto simp: evicted_def split: if_splits)
    with s'(1) eq show ?thesis by simp
  qed
qed

text \<open>Expiry: the loop ends, and no timer that is left has expired.\<close>

lemma jiffies_now: "timenow (snd (jiffies tv s)) = fst (jiffies tv s)"
  by (simp add: jiffies_def Let_def)

lemma jiffies_again: "timenow s' = fst (jiffies tv s) \<Longrightarrow> time0 s' = time0 s \<Longrightarrow> fst (jiffies tv s') = fst (jiffies tv s)"
  by (auto simp: jiffies_def Let_def)

lemma frag_inv_cong:
  "\<lbrakk>host_at s' = host_at s; next_id s' = next_id s; owner s' = owner s; timers s' = timers s\<rbrakk> \<Longrightarrow> frag_inv s' = frag_inv s"
  using acct_cong[of s' s] live_cong[of s' s] by (simp add: frag_inv_def busy_def timed_def)

lemma ipExpire_inv:
  assumes inv: "frag_inv s" and x: "x \<in> set (timers s)" and "this_host s = Some (owner s x)"
  shows "frag_inv (ipExpire x s)" and "shrinks s (ipExpire x s)" and "timenow (ipExpire x s) = timenow s"
proof -
  let ?ip = "owner s x"
  have "x \<in> live_ids s"
    using inv x by (simp add: frag_inv_def timed_def)
  then obtain ip where "x \<in> live_at s ip"
    by (auto simp: live_ids_def)
  moreover from this have "ip = ?ip"
    using live_owner inv by (auto simp: frag_inv_def)
  ultimately obtain h q where h: "host_at s ?ip = Some h" "q \<in> set (ipqueue h)" "q_id q = x"
    by (auto simp: live_at_def split: option.splits)
  then obtain q' where q': "find (\<lambda>q. q_id q = x) (ipqueue h) = Some q'"
    by (cases "find (\<lambda>q. q_id q = x) (ipqueue h)") (auto simp: find_None_iff)
  then have q'': "q' \<in> set (ipqueue h)" "q_id q' = x"
    by (auto simp: find_Some_iff)
  have eq: "ipExpire x s = ipFree q' s"
    using q' the_sel[OF assms(3) h(1)] by (simp add: ipExpire_def)
  show "frag_inv (ipExpire x s)"
    unfolding eq by (rule ipFree_frag_inv[OF inv assms(3) h(1) q''(1)])
  show "shrinks s (ipExpire x s)" "timenow (ipExpire x s) = timenow s"
    by (simp_all add: eq)
qed

lemma expire_loop_inv:
  "frag_inv s \<Longrightarrow> frag_inv (expire_loop tv s) \<and> shrinks s (expire_loop tv s) \<and>
     fst (jiffies tv (expire_loop tv s)) = fst (jiffies tv s) \<and>
     (timers (expire_loop tv s) \<noteq> [] \<longrightarrow> fst (jiffies tv s) \<le> expires s (hd (timers (expire_loop tv s))))"
proof (induction tv s rule: expire_loop.induct)
  case (1 tv s)
  show ?case
  proof (cases "timers s")
    case Nil
    then have "expire_loop tv s = s"
      by (subst expire_loop.simps) simp
    with 1 Nil show ?thesis by simp
  next
    case (Cons x xs)
    let ?s1 = "snd (jiffies tv s)" and ?now = "fst (jiffies tv s)"
    let ?s2 = "?s1\<lparr>this_host := Some (owner ?s1 x)\<rparr>"
    have now: "fst (jiffies tv s') = ?now" if "timenow s' = timenow ?s1" "time0 s' = time0 s" for s'
      using jiffies_again[of s' tv s] that jiffies_now by simp
    show ?thesis
    proof (cases "expires s x < ?now")
      case False
      then have "expire_loop tv s = ?s1"
        using Cons by (subst expire_loop.simps) (simp add: Let_def)
      moreover have "shrinks s ?s1"
        by (simp add: shrinks_def)
      ultimately show ?thesis
        using 1 Cons False now[of ?s1] frag_inv_cong[of ?s1 s] by simp
    next
      case True
      have inv: "frag_inv ?s2"
        using 1(2) frag_inv_cong[of ?s2 s] by simp
      note ex = ipExpire_inv[OF inv, of x]
      have eq: "expire_loop tv s = expire_loop tv (ipExpire x ?s2)"
        using True Cons by (subst expire_loop.simps) (simp add: Let_def)
      have "shrinks s ?s2"
        by (simp add: shrinks_def)
      also have "shrinks ?s2 (ipExpire x ?s2)"
        using ex(2) Cons by simp
      finally have sh: "shrinks s (ipExpire x ?s2)" .
      have "fst (jiffies tv (ipExpire x ?s2)) = ?now"
        by (rule now) (use ex Cons sh in \<open>auto simp: shrinks_def\<close>)
      moreover have "expires (ipExpire x ?s2) = expires s"
        using sh by (simp add: shrinks_def)
      ultimately show ?thesis
        using 1(1)[OF Cons refl] True ex(1) Cons sh eq shrinks_trans[OF sh] by auto
    qed
  qed
qed

section \<open>One packet\<close>

text \<open>
  While a packet is processed the host of the packet may be fresh (no queue yet) and the timer
  of the found queue may be stopped (\<open>X\<close>).
\<close>

definition near :: "nat set \<Rightarrow> frag_state \<Rightarrow> bool" where
  "near X s \<longleftrightarrow> acct s \<and> timed X s \<and>
     (\<forall>ip h. host_at s ip = Some h \<longrightarrow> this_host s \<noteq> Some ip \<longrightarrow> ipqueue h \<noteq> []) \<and>
     (\<forall>ip. this_host s = Some ip \<longrightarrow> host_at s ip \<noteq> None)"

lemma near_busy: "\<lbrakk>near {} s; \<forall>ip h. this_host s = Some ip \<and> host_at s ip = Some h \<longrightarrow> ipqueue h \<noteq> []\<rbrakk> \<Longrightarrow> frag_inv s"
  unfolding near_def frag_inv_def busy_def by blast

lemma hostfragFind_near:
  assumes "frag_inv s" and "hostfragFind iph s = (found, s1)"
  shows "frag_inv s1 \<and> near {} s1 \<and> host_at s1 = host_at s \<and> shrinks s s1 \<and> timenow s1 = timenow s \<and>
    (found \<longrightarrow> this_host s1 = Some (ip_dst iph)) \<and> (\<not> found \<longrightarrow> this_host s1 = None \<and> host_at s1 (ip_dst iph) = None)"
proof -
  have "host_at s1 = host_at s" "next_id s1 = next_id s" "owner s1 = owner s" "timers s1 = timers s" "shrinks s s1"
    "timenow s1 = timenow s"
    using assms(2) by (auto simp: hostfragFind_def shrinks_def split: option.splits)
  moreover from this have "frag_inv s1"
    using assms(1) frag_inv_cong[of s1 s] by simp
  moreover have "(found \<longrightarrow> this_host s1 = Some (ip_dst iph)) \<and> (\<not> found \<longrightarrow> this_host s1 = None \<and> host_at s1 (ip_dst iph) = None)"
    "\<forall>ip. this_host s1 = Some ip \<longrightarrow> host_at s ip \<noteq> None"
    using assms(2) by (auto simp: hostfragFind_def host_at_ip split: option.splits)
  ultimately show ?thesis
    by (auto simp: near_def frag_inv_def busy_def)
qed

lemma hostfragCreate_near:
  assumes "near {} s" and "host_at s (ip_dst iph) = None" and "this_host s = None"
  shows "near {} (hostfragCreate iph s)" and "the_queues (hostfragCreate iph s) = []" and "the_mem (hostfragCreate iph s) = 0"
proof -
  let ?s = "hostfragCreate iph s"
  have at: "live_at ?s ip = live_at s ip" for ip
    using assms(2) by (auto simp: live_at_def hostfragCreate_host_at)
  have "acct ?s"
    using assms(1) by (auto simp: near_def acct_def host_ok_def hostfragCreate_host_at)
  moreover have "timed {} ?s"
    using assms(1) by (simp add: near_def timed_def live_ids_def at)
  ultimately show "near {} ?s"
    using assms by (auto simp: near_def hostfragCreate_host_at)
  show "the_queues ?s = []" "the_mem ?s = 0"
    by (simp_all add: the_queues_def the_mem_def hostfragCreate_host_at)
qed

text \<open>The optional eviction before the packet is stored.\<close>

lemma make_room_near:
  assumes "near {} s"
  shows "\<exists>s'. make_room s = Some s' \<and> near {} s' \<and> shrinks s s' \<and> timenow s' = timenow s \<and>
    (this_host s' = None \<or> this_host s' = this_host s) \<and> the_mem s' \<le> IPFRAG_HIGH_THRESH \<and>
    (\<forall>ip. this_host s \<noteq> Some ip \<longrightarrow> host_at s' ip = host_at s ip) \<and>
    (\<forall>ip. this_host s = Some ip \<and> this_host s' = None \<longrightarrow> host_at s' ip = None) \<and>
    (the_mem s \<le> IPFRAG_HIGH_THRESH \<longrightarrow> s' = s) \<and> (frag_inv s \<longrightarrow> frag_inv s')"
proof (cases "this_host s \<noteq> None \<and> the_mem s > IPFRAG_HIGH_THRESH")
  case False
  moreover have "the_mem s \<le> IPFRAG_HIGH_THRESH"
    using False by (auto simp: the_mem_def IPFRAG_HIGH_THRESH_def)
  ultimately show ?thesis
    using assms by (auto simp: make_room_def)
next
  case True
  then obtain ip h where h: "this_host s = Some ip" "host_at s ip = Some h"
    using assms by (auto simp: near_def)
  have "ip_frag_mem h > 0" "host_ok s ip h"
    using True h the_sel[OF h] assms by (auto simp: IPFRAG_HIGH_THRESH_def near_def acct_def)
  then have "ipqueue h \<noteq> []"
    by (auto simp: host_ok_def)
  then have inv: "frag_inv s"
    using h by (intro near_busy[OF assms]) auto
  then obtain s' where s': "ipEvictor s = Some s'" "evicted s s'"
    using ipEvictor_evicted[OF inv] h by auto
  have "near {} s'"
    using s'(2) by (auto simp: evicted_def near_def frag_inv_def busy_def)
  moreover have "the_mem s' \<le> IPFRAG_HIGH_THRESH"
    using s'(2) by (auto simp: evicted_def IPFRAG_HIGH_THRESH_def IPFRAG_LOW_THRESH_def the_mem_def)
  ultimately show ?thesis
    using s' True h by (auto simp: make_room_def evicted_def)
qed

text \<open>A queue of the host replaced in place: the account moves with the charges.\<close>

lemma replace_charge:
  "\<lbrakk>distinct (map q_id qs); q \<in> set qs; q_id qp = q_id q\<rbrakk> \<Longrightarrow>
   sum_list (map q_charge (map (\<lambda>r. if q_id r = q_id qp then qp else r) qs)) =
   sum_list (map q_charge qs) - q_charge q + q_charge qp"
proof (induction qs)
  case (Cons a qs)
  show ?case
  proof (cases "q = a")
    case True
    then have "map (\<lambda>r. if q_id r = q_id qp then qp else r) qs = qs"
      using Cons.prems by (intro map_idI) (auto, metis image_eqI)
    with True Cons.prems(3) show ?thesis by simp
  next
    case False
    then have "q \<in> set qs" "q_id a \<noteq> q_id qp"
      using Cons.prems by auto
    with Cons show ?thesis by simp
  qed
qed simp

lemma replace_ids: "map q_id (map (\<lambda>r. if q_id r = q_id qp then qp else r) qs) = map q_id qs"
  by auto

lemma replace_inv:
  assumes inv: "frag_inv s" and h: "host_at s ip = Some h" and q: "q \<in> set (ipqueue h)" "q_id qp = q_id q"
    and str: "frags_ok (q_frags qp)"
    and s': "host_at s' = (host_at s)(ip \<mapsto> h')" "next_id s' = next_id s" "owner s' = owner s" "timers s' = timers s"
    and h': "ipqueue h' = map (\<lambda>r. if q_id r = q_id qp then qp else r) (ipqueue h)"
      "ip_frag_mem h' = ip_frag_mem h - q_charge q + q_charge qp"
  shows "frag_inv s' \<and> qp \<in> set (ipqueue h')"
proof -
  have ok: "host_ok s ip h" and ne: "ipqueue h \<noteq> []"
    using inv h by (auto simp: frag_inv_def acct_def busy_def)
  have "distinct (map q_id (ipqueue h'))" "sum_list (map q_charge (ipqueue h')) = ip_frag_mem h'"
    using ok replace_charge[OF _ q] unfolding h' replace_ids host_ok_def by auto
  then have "host_ok s' ip h'"
    using ok str q s' by (auto simp: host_ok_def h'(1))
  moreover have "host_ok s' = host_ok s"
    by (intro ext) (simp add: host_ok_def s')
  ultimately have "acct s'"
    using inv by (auto simp: frag_inv_def acct_def s')
  moreover have "busy s'"
    using inv ne by (auto simp: frag_inv_def busy_def s' h')
  moreover have "q_id ` set (ipqueue h') = q_id ` set (ipqueue h)"
    using arg_cong[OF replace_ids[of qp "ipqueue h"], of set] unfolding h' set_map .
  then have "live_at s' ip' = live_at s ip'" for ip'
    using h by (simp add: live_at_def s')
  then have "timed {} s'"
    using inv by (simp add: frag_inv_def timed_def live_ids_def s')
  ultimately show ?thesis
    using q by (force simp: frag_inv_def h')
qed

text \<open>\<open>loaded qp s\<close>: the packet's host is in the table and has the entry \<open>qp\<close> refers to.\<close>

definition loaded :: "u32 \<Rightarrow> ipq \<Rightarrow> frag_state \<Rightarrow> bool" where
  "loaded ip qp s \<longleftrightarrow> frag_inv s \<and> this_host s = Some ip \<and> frags_ok (q_frags qp) \<and>
     (\<exists>h q. host_at s ip = Some h \<and> q \<in> set (ipqueue h) \<and> q_id qp = q_id q \<and> q_frags qp = q_frags q)"

lemma put_queue_sel [simp]:
  "this_host (put_queue qp s) = this_host s" "timers (put_queue qp s) = timers s"
  "expires (put_queue qp s) = expires s" "owner (put_queue qp s) = owner s"
  "next_id (put_queue qp s) = next_id s" "timenow (put_queue qp s) = timenow s"
  "hash_size (put_queue qp s) = hash_size s" "time0 (put_queue qp s) = time0 s"
  by (simp_all add: put_queue_def)

lemma put_queue_inv:
  assumes "loaded ip qp s"
  shows "frag_inv (put_queue qp s)"
proof -
  obtain h q where h: "frag_inv s" "this_host s = Some ip" "host_at s ip = Some h" "q \<in> set (ipqueue h)"
    "q_id qp = q_id q" "q_frags qp = q_frags q" "frags_ok (q_frags qp)"
    using assms by (auto simp: loaded_def)
  let ?h' = "h\<lparr>ipqueue := map (\<lambda>r. if q_id r = q_id qp then qp else r) (ipqueue h)\<rparr>"
  have "host_at (put_queue qp s) = (host_at s)(ip \<mapsto> ?h')"
    unfolding put_queue_def by (rule set_queue_host_at[OF h(2,3)])
  then show ?thesis
    using replace_inv[OF h(1,3,4,5,7), of "put_queue qp s" ?h'] h(6) by (simp add: q_charge_def)
qed

lemma start_timer_sel [simp]:
  "this_host (start_timer x e s) = this_host s" "host_at (start_timer x e s) = host_at s"
  "owner (start_timer x e s) = owner s" "next_id (start_timer x e s) = next_id s"
  "timenow (start_timer x e s) = timenow s" "hash_size (start_timer x e s) = hash_size s"
  "time0 (start_timer x e s) = time0 s" "timers (start_timer x e s) = timers s @ [x]"
  "expires (start_timer x e s) = (expires s)(x := e)"
  by (simp_all add: start_timer_def list_addTimer_def)

lemma remember_header_sel [simp]:
  "q_id (remember_header off ihl data qp) = q_id qp" "q_frags (remember_header off ihl data qp) = q_frags qp"
  "q_len (remember_header off ihl data qp) = q_len qp"
  by (simp_all add: remember_header_def)

lemma refresh_loaded:
  assumes inv: "frag_inv s0" and s: "host_at s = host_at s0" "next_id s = next_id s0" "owner s = owner s0"
      "this_host s = Some ip" "timers s = removeAll (q_id qp) (timers s0)"
    and h: "host_at s ip = Some h" "qp \<in> set (ipqueue h)" and eq: "refresh tv offset iph data qp s = (qp', s')"
  shows "loaded ip qp' s' \<and> host_at s' = host_at s \<and> qp' = remember_header offset (int (ip_hl iph) * 4) data qp"
proof -
  have qp': "qp' = remember_header offset (int (ip_hl iph) * 4) data qp"
    and s': "host_at s' = host_at s" "next_id s' = next_id s" "owner s' = owner s" "this_host s' = Some ip"
    "timers s' = removeAll (q_id qp) (timers s0) @ [q_id qp]"
    using eq s by (auto simp: refresh_def Let_def split_beta)
  have "q_id qp \<in> live_at s0 ip"
    using h s by (auto simp: live_at_def)
  then have "q_id qp \<in> live_ids s0"
    by (auto simp: live_ids_def)
  then have "timed {} s'"
    using inv s' live_cong[of s' s0] s by (auto simp: frag_inv_def timed_def distinct_removeAll)
  then have "frag_inv s'"
    using inv acct_cong[of s' s0] s s' by (simp add: frag_inv_def busy_def)
  moreover have "frags_ok (q_frags qp)"
    using inv h s by (auto simp: frag_inv_def acct_def host_ok_def)
  ultimately show ?thesis
    using h s s' by (auto simp: loaded_def qp')
qed

lemma ipCreate_loaded:
  assumes near: "near {} s" and ip: "this_host s = Some ip" and h: "host_at s ip = Some h"
    and eq: "ipCreate tv iph data s = (qp, s')"
  shows "loaded ip qp s'" and "qp = new_queue (next_id s) (int (ip_hl iph) * 4) data"
    and "host_at s' = (host_at s)(ip \<mapsto> h\<lparr>ipqueue := qp # ipqueue h, ip_frag_mem := ip_frag_mem h + 160\<rparr>)"
proof -
  let ?s1 = "fragKmalloc (64 + 8) (fragKmalloc sizeof_ipq s)"
  have s1: "host_at ?s1 = (host_at s)(ip \<mapsto> atomicAdd 160 h)"
    using ip h by (simp add: fragK_host_at sizeof_ipq_def)
  show qp: "qp = new_queue (next_id s) (int (ip_hl iph) * 4) data"
    using eq by (simp add: ipCreate_def Let_def split_beta)
  then have id: "q_id qp = next_id s" "q_frags qp = []"
    by (simp_all add: new_queue_def)
  let ?s2 = "start_timer (q_id qp) (fst (jiffies tv (?s1\<lparr>next_id := next_id s + 1, owner := (owner s)(q_id qp := ip)\<rparr>)) + IP_FRAG_TIME)
      (snd (jiffies tv (?s1\<lparr>next_id := next_id s + 1, owner := (owner s)(q_id qp := ip)\<rparr>)))"
  have s': "s' = set_queue (\<lambda>qs. qp # qs) ?s2"
    using eq ip by (auto simp: ipCreate_def Let_def split_beta)
  have "host_at s' = (host_at s)(ip \<mapsto> atomicAdd 160 h\<lparr>ipqueue := qp # ipqueue h\<rparr>)"
    unfolding s' using s1 ip set_queue_host_at[of ?s2 ip "atomicAdd 160 h" "\<lambda>qs. qp # qs"] by simp
  then show host: "host_at s' = (host_at s)(ip \<mapsto> h\<lparr>ipqueue := qp # ipqueue h, ip_frag_mem := ip_frag_mem h + 160\<rparr>)"
    unfolding atomicAdd_def by (cases h) simp
  have sel: "next_id s' = next_id s + 1" "owner s' = (owner s)(q_id qp := ip)" "this_host s' = Some ip"
    "timers s' = timers s @ [next_id s]"
    using ip id by (simp_all add: s')
  have ok: "host_ok s ip' h'" if "host_at s ip' = Some h'" for ip' h'
    using near that by (auto simp: near_def acct_def)
  have "host_ok s' ip' h'" if "host_at s ip' = Some h'" for ip' h'
    using ok[OF that] sel id by (auto simp: host_ok_def)
  moreover have "host_ok s' ip (h\<lparr>ipqueue := qp # ipqueue h, ip_frag_mem := ip_frag_mem h + 160\<rparr>)"
    using ok[OF h] sel id by (fastforce simp: host_ok_def q_charge_def)
  ultimately have "acct s'"
    by (auto simp: acct_def host)
  moreover have "busy s'"
    using near ip by (auto simp: near_def busy_def host)
  moreover have "live_at s' ip' = (if ip' = ip then insert (next_id s) (live_at s ip) else live_at s ip')" for ip'
    using h id by (auto simp: live_at_def host)
  then have "live_ids s' = insert (next_id s) (live_ids s)"
    unfolding live_ids_def by (auto split: if_splits) metis
  moreover have "next_id s \<notin> live_ids s"
    using live_owner[of s] near by (auto simp: live_ids_def near_def)
  ultimately have "frag_inv s'"
    using near sel by (auto simp: frag_inv_def near_def timed_def)
  then show "loaded ip qp s'"
    using sel id host by (auto simp: loaded_def)
qed

lemma filter_replace:
  "q_id qp = i \<Longrightarrow> filter (\<lambda>r. q_id r \<noteq> i) (map (\<lambda>r. if q_id r = i then qp else r) qs) =
     filter (\<lambda>r. q_id r \<noteq> i) qs"
  by (induction qs) auto

text \<open>The fragment enters its queue.\<close>

lemma queue_fragment_sel:
  assumes "queue_fragment offset tot_len ihl mf ts data qp = (qp', freed)" and "frags_ok (q_frags qp)"
    and "ihl \<le> tot_len" and "0 \<le> ts"
  shows "q_id qp' = q_id qp" and "frags_ok (q_frags qp')"
    and "frag_charge (q_frags qp') + frag_charge freed = frag_charge (q_frags qp) + 48 + ts"
    and "0 \<le> frag_charge freed"
proof -
  let ?top = "offset + tot_len - ihl"
  have frags: "insert_frag offset ?top ts (drop (nat ihl) data) (q_frags qp) = (q_frags qp', freed)"
    using assms(1) by (auto simp: queue_fragment_def Let_def split_beta)
  have str: "chain_str (q_frags qp)" and "\<forall>f \<in> set (q_frags qp). 0 \<le> f_truesize f"
    using assms(2) by (simp_all add: frags_ok_def)
  have "offset \<le> ?top"
    using assms(3) by simp
  from insert_frag_str[OF str this frags] insert_frag_truesize[OF frags] assms(2,4)
  show "frags_ok (q_frags qp')"
    "frag_charge (q_frags qp') + frag_charge freed = frag_charge (q_frags qp) + 48 + ts"
    "0 \<le> frag_charge freed"
    by (auto simp: frags_ok_def)
  show "q_id qp' = q_id qp"
    using assms(1) by (auto simp: queue_fragment_def Let_def split_beta)
qed

definition fragment_record :: "int \<Rightarrow> iphdr \<Rightarrow> bytes \<Rightarrow> bool \<Rightarrow> int \<Rightarrow> fragment" where
  "fragment_record offset iph data mf ts = \<lparr>fr_offset = offset, fr_tot_len = int (ip_len iph),
     fr_ihl = int (ip_hl iph) * 4, fr_mf = mf, fr_truesize = ts, fr_data = data\<rparr>"

lemma add_fragment_spec:
  assumes "loaded ip qp s" and "ip_hl iph * 4 \<le> ip_len iph" and "0 \<le> ts"
    and eq: "add_fragment junk offset iph data mf ts qp s = (out, s')"
  defines "qp' \<equiv> fst (queue_fragment offset (int (ip_len iph)) (int (ip_hl iph) * 4) mf ts data qp)"
  shows "frag_inv s'" and "out = (if ipDone qp' then (case ipGlue junk qp' of Glued d \<Rightarrow> Some d | _ \<Rightarrow> None) else None)"
    and "\<forall>ip'. ip' \<noteq> ip \<longrightarrow> host_at s' ip' = host_at s ip'"
    and "the_mem s' \<le> the_mem s + 48 + ts"
    and "\<not> ipDone qp' \<Longrightarrow> this_host s' = Some ip \<and>
           the_queues s' = map (\<lambda>r. if q_id r = q_id qp then qp' else r) (the_queues s)"
    and "ipDone qp' \<Longrightarrow> shrinks s s' \<and> (this_host s' = Some ip \<or> host_at s' ip = None \<and> this_host s' = None) \<and>
           the_queues s' = filter (\<lambda>r. q_id r \<noteq> q_id qp) (the_queues s)"
    and "\<not> ipDone qp' \<Longrightarrow> shrinks s s'"
proof -
  obtain h q where h: "frag_inv s" "this_host s = Some ip" "host_at s ip = Some h" "q \<in> set (ipqueue h)"
    "q_id qp = q_id q" "q_frags qp = q_frags q" "frags_ok (q_frags qp)"
    using assms(1) by (auto simp: loaded_def)
  obtain freed where qf: "queue_fragment offset (int (ip_len iph)) (int (ip_hl iph) * 4) mf ts data qp = (qp', freed)"
    unfolding qp'_def by (metis prod.collapse)
  have "int (ip_hl iph) * 4 \<le> int (ip_len iph)"
    using assms(2) by linarith
  note qs = queue_fragment_sel[OF qf h(7) this assms(3)]
  let ?s2 = "fragKmalloc ts (fragKmalloc sizeof_ipFrag (fold free_frag freed s))"
  define s3 where "s3 = put_queue qp' ?s2"
  have free: "host_at (fold free_frag freed s) = (host_at s)(ip \<mapsto> atomicSub (frag_charge freed) h)"
    by (rule fold_free_host_at[OF h(2,3)])
  have s2: "this_host ?s2 = Some ip"
    "host_at ?s2 = (host_at s)(ip \<mapsto> atomicAdd (48 + ts) (atomicSub (frag_charge freed) h))"
    using free h(2) fragK_host_at(2)[of "fold free_frag freed s" ip "atomicSub (frag_charge freed) h" sizeof_ipFrag]
      fragK_host_at(2)[of "fragKmalloc sizeof_ipFrag (fold free_frag freed s)" ip
        "atomicAdd sizeof_ipFrag (atomicSub (frag_charge freed) h)" ts]
    by (simp_all add: sizeof_ipFrag_def)
  define h3 where "h3 = atomicAdd (48 + ts) (atomicSub (frag_charge freed) h)
    \<lparr>ipqueue := map (\<lambda>r. if q_id r = q_id qp' then qp' else r) (ipqueue h)\<rparr>"
  have host3: "host_at s3 = (host_at s)(ip \<mapsto> h3)" and sel3: "this_host s3 = Some ip" "next_id s3 = next_id s"
    "owner s3 = owner s" "timers s3 = timers s" "expires s3 = expires s" "time0 s3 = time0 s" "hash_size s3 = hash_size s"
    using s2 h(2) set_queue_host_at[OF s2(1), of "atomicAdd (48 + ts) (atomicSub (frag_charge freed) h)"
        "map (\<lambda>r. if q_id r = q_id qp' then qp' else r)"]
    by (auto simp: s3_def put_queue_def h3_def)
  have h3: "ipqueue h3 = map (\<lambda>r. if q_id r = q_id qp' then qp' else r) (ipqueue h)"
    "ip_frag_mem h3 = ip_frag_mem h + 48 + ts - frag_charge freed"
    by (simp_all add: h3_def)
  have inv3: "frag_inv s3 \<and> qp' \<in> set (ipqueue h3)"
    by (rule replace_inv[OF h(1,3,4) _ qs(2) host3 sel3(2-4) h3(1)])
      (use qs h h3 in \<open>auto simp: q_charge_def\<close>)
  have sh3: "shrinks s s3"
    by (simp add: shrinks_def sel3)
  have res: "(out, s') = (if ipDone qp' then (case ipGlue junk qp' of Glued d \<Rightarrow> Some d | _ \<Rightarrow> None, ipFree qp' s3) else (None, s3))"
    using eq qf by (simp add: add_fragment_def s3_def Let_def split: if_splits)
  then have s': "s' = (if ipDone qp' then ipFree qp' s3 else s3)"
    and "out = (if ipDone qp' then (case ipGlue junk qp' of Glued d \<Rightarrow> Some d | _ \<Rightarrow> None) else None)"
    by (auto split: if_splits)
  then show "out = (if ipDone qp' then (case ipGlue junk qp' of Glued d \<Rightarrow> Some d | _ \<Rightarrow> None) else None)"
    by simp
  have h3': "host_at s3 ip = Some h3"
    by (simp add: host3)
  note eff = ipFree_effect[OF sel3(1) h3', of qp']
  show "frag_inv s'"
    using inv3 ipFree_frag_inv[OF _ sel3(1) h3'] by (simp add: s')
  show "\<forall>ip'. ip' \<noteq> ip \<longrightarrow> host_at s' ip' = host_at s ip'"
    using eff by (simp add: s' host3)
  have mem: "the_mem s = ip_frag_mem h" "the_mem s3 = ip_frag_mem h3"
    using the_sel h h3' sel3 by auto
  have "0 \<le> q_charge qp'"
    using qs(2) by (auto simp: q_charge_def frags_ok_def frag_charge_def intro!: add_nonneg_nonneg sum_list_nonneg)
  moreover have "0 \<le> ip_frag_mem h"
    using h(1,3) by (fastforce simp: frag_inv_def acct_def host_ok_def q_charge_def frags_ok_def frag_charge_def
        intro!: sum_list_nonneg add_nonneg_nonneg)
  moreover have "the_mem (ipFree qp' s3) \<le> max 0 (ip_frag_mem h3 - q_charge qp')"
    using eff by (auto simp: the_mem_def)
  ultimately show "the_mem s' \<le> the_mem s + 48 + ts"
    using mem h3(2) qs(4) assms(3) by (auto simp: s')
  have queues: "the_queues s = ipqueue h" "the_queues s3 = ipqueue h3"
    using the_sel h h3' sel3 by auto
  show "\<not> ipDone qp' \<Longrightarrow> this_host s' = Some ip \<and>
      the_queues s' = map (\<lambda>r. if q_id r = q_id qp then qp' else r) (the_queues s)"
    using queues h3(1) qs(1) sel3 by (simp add: s')
  show "\<not> ipDone qp' \<Longrightarrow> shrinks s s'"
    using sh3 by (simp add: s')
  have "filter (\<lambda>r. q_id r \<noteq> q_id qp') (ipqueue h3) = filter (\<lambda>r. q_id r \<noteq> q_id qp) (ipqueue h)"
    unfolding h3(1) qs(1) by (rule filter_replace[OF qs(1)])
  then show "ipDone qp' \<Longrightarrow> shrinks s s' \<and> (this_host s' = Some ip \<or> host_at s' ip = None \<and> this_host s' = None) \<and>
      the_queues s' = filter (\<lambda>r. q_id r \<noteq> q_id qp) (the_queues s)"
    using shrinks_trans[OF sh3 shrinks_ipFree] eff queues by (auto simp: s' the_queues_ipFree)
qed

text \<open>What is known after the lookup.\<close>

definition queues_of :: "frag_state \<Rightarrow> u32 \<Rightarrow> ipq list" where
  "queues_of s ip = (case host_at s ip of None \<Rightarrow> [] | Some h \<Rightarrow> ipqueue h)"

definition mem_of :: "frag_state \<Rightarrow> u32 \<Rightarrow> int" where
  "mem_of s ip = (case host_at s ip of None \<Rightarrow> 0 | Some h \<Rightarrow> ip_frag_mem h)"

lemma mem_of_cong: "host_at s' ip = host_at s ip \<Longrightarrow> mem_of s' ip = mem_of s ip"
  by (simp add: mem_of_def)

lemma of_this: "this_host s = Some ip \<Longrightarrow> the_queues s = queues_of s ip \<and> the_mem s = mem_of s ip"
  by (simp add: the_queues_def the_mem_def queues_of_def mem_of_def)

lemma locate_spec:
  assumes inv: "frag_inv s"
  obtains s3 qp s4 where "locate iph b s = Some (qp, s4)" "shrinks s s3" "timenow s3 = timenow s" "near {} s3"
    "\<not> b \<Longrightarrow> frag_inv s3"
    "this_host s3 = Some (ip_dst iph) \<or> this_host s3 = None \<and> host_at s3 (ip_dst iph) = None"
    "mem_of s3 (ip_dst iph) \<le> IPFRAG_HIGH_THRESH" "\<forall>ip. ip \<noteq> ip_dst iph \<longrightarrow> host_at s3 ip = host_at s ip"
    "mem_of s (ip_dst iph) \<le> IPFRAG_HIGH_THRESH \<Longrightarrow> queues_of s3 (ip_dst iph) = queues_of s (ip_dst iph) \<and>
       mem_of s3 (ip_dst iph) = mem_of s (ip_dst iph)"
    "qp = find (same_datagram iph) (queues_of s3 (ip_dst iph))"
    "s4 = (case qp of None \<Rightarrow> s3 | Some q \<Rightarrow> stop_timer (q_id q) s3)"
proof -
  let ?ip = "ip_dst iph"
  obtain found s1 where f: "hostfragFind iph s = (found, s1)"
    by fastforce
  note s1 = hostfragFind_near[OF inv f]
  define s2 where "s2 = (if \<not> found \<and> b then hostfragCreate iph s1 else s1)"
  have shr: "shrinks s (hostfragCreate iph s1)" if "shrinks s s1"
    using that by (auto simp: shrinks_def)
  have s2: "near {} s2" "shrinks s s2" "timenow s2 = timenow s" "\<not> b \<Longrightarrow> frag_inv s2"
    "this_host s2 = Some ?ip \<or> this_host s2 = None \<and> host_at s2 ?ip = None"
    "\<forall>ip. ip \<noteq> ?ip \<longrightarrow> host_at s2 ip = host_at s ip"
    "queues_of s2 ?ip = queues_of s ?ip" "mem_of s2 ?ip = mem_of s ?ip"
    using s1 hostfragCreate_near[of s1 iph] shr
    by (auto simp: s2_def queues_of_def mem_of_def hostfragCreate_host_at)
  obtain s3 where s3: "make_room s2 = Some s3" "near {} s3" "shrinks s2 s3" "timenow s3 = timenow s2"
    "this_host s3 = None \<or> this_host s3 = this_host s2" "the_mem s3 \<le> IPFRAG_HIGH_THRESH"
    "\<forall>ip. this_host s2 \<noteq> Some ip \<longrightarrow> host_at s3 ip = host_at s2 ip"
    "\<forall>ip. this_host s2 = Some ip \<and> this_host s3 = None \<longrightarrow> host_at s3 ip = None"
    "the_mem s2 \<le> IPFRAG_HIGH_THRESH \<longrightarrow> s3 = s2" "frag_inv s2 \<longrightarrow> frag_inv s3"
    using make_room_near[OF s2(1)] by blast
  have host: "this_host s3 = Some ?ip \<or> this_host s3 = None \<and> host_at s3 ?ip = None"
    using s3(5,7,8) s2(5) by auto
  have high: "0 \<le> IPFRAG_HIGH_THRESH" by (simp add: IPFRAG_HIGH_THRESH_def)
  have same: "the_mem s2 \<le> IPFRAG_HIGH_THRESH" if "mem_of s ?ip \<le> IPFRAG_HIGH_THRESH"
    using that s2(5,8) of_this[of s2 ?ip] high by (auto simp: the_mem_def)
  define qp where "qp = find (same_datagram iph) (queues_of s3 ?ip)"
  define s4 where "s4 = (case qp of None \<Rightarrow> s3 | Some q \<Rightarrow> stop_timer (q_id q) s3)"
  have loc: "locate iph b s = Some (qp, s4)"
    using host of_this[of s3 ?ip]
    by (auto simp: locate_def f s2_def[symmetric] s3(1) ipFind_def qp_def s4_def queues_of_def split: option.splits)
  show thesis
  proof (rule that[OF loc _ _ s3(2) _ host])
    show "shrinks s s3"
      using shrinks_trans[OF s2(2) s3(3)] .
    show "mem_of s3 ?ip \<le> IPFRAG_HIGH_THRESH"
      using host s3(6) of_this[of s3 ?ip] high by (auto simp: mem_of_def)
    show "\<forall>ip. ip \<noteq> ?ip \<longrightarrow> host_at s3 ip = host_at s ip"
      using s3(7) s2(5,6) by auto
    show "mem_of s ?ip \<le> IPFRAG_HIGH_THRESH \<Longrightarrow>
        queues_of s3 ?ip = queues_of s ?ip \<and> mem_of s3 ?ip = mem_of s ?ip"
      using s3(9) same s2(7,8) by simp
  qed (use s2 s3 in \<open>auto simp: qp_def s4_def\<close>)
qed

text \<open>A packet that is not a fragment replaces what was queued of its datagram.\<close>

lemma ipDefrag_whole:
  assumes inv: "frag_inv s" and nf: "\<not> is_fragment iph"
  shows "\<exists>s'. ipDefrag junk tv iph data None s = Some (None, s') \<and> frag_inv s' \<and> shrinks s s' \<and>
    (\<forall>ip. ip \<noteq> ip_dst iph \<longrightarrow> host_at s' ip = host_at s ip) \<and> mem_of s' (ip_dst iph) \<le> IPFRAG_HIGH_THRESH"
proof -
  let ?ip = "ip_dst iph"
  obtain s3 qp s4 where l: "locate iph False s = Some (qp, s4)" "shrinks s s3" "near {} s3"
    "frag_inv s3" "mem_of s3 ?ip \<le> IPFRAG_HIGH_THRESH" "\<forall>ip. ip \<noteq> ?ip \<longrightarrow> host_at s3 ip = host_at s ip"
    "this_host s3 = Some ?ip \<or> this_host s3 = None \<and> host_at s3 ?ip = None"
    "qp = find (same_datagram iph) (queues_of s3 ?ip)"
    "s4 = (case qp of None \<Rightarrow> s3 | Some q \<Rightarrow> stop_timer (q_id q) s3)"
    by (rule locate_spec[OF inv, of iph False]) auto
  show ?thesis
  proof (cases qp)
    case None
    then show ?thesis
      using l nf by (intro exI[of _ s3]) (simp add: ipDefrag_def)
  next
    case (Some q)
    then obtain h where h: "host_at s3 ?ip = Some h" "q \<in> set (ipqueue h)" "this_host s3 = Some ?ip"
      using l(7,8) find_mem[of "same_datagram iph" "queues_of s3 ?ip" q]
      by (auto simp: queues_of_def split: option.splits)
    have s4: "s4 = stop_timer (q_id q) s3"
      using l(9) Some by simp
    have "timed {q_id q} s4" "acct s4" "busy s4"
      using l(4) acct_cong[of s4 s3] live_cong[of s4 s3]
      by (auto simp: s4 frag_inv_def timed_def busy_def distinct_removeAll)
    then have inv': "frag_inv (ipFree q s4)"
      using ipFree_inv(1,2)[of s4 ?ip h q] ipFree_inv(4)[of s4 ?ip h q "{q_id q}"] h by (simp add: s4 frag_inv_def)
    have "this_host s4 = Some ?ip" "host_at s4 ?ip = Some h"
      using h s4 by simp_all
    note eff = ipFree_effect[OF this, of q]
    have "mem_of (ipFree q s4) ?ip \<le> IPFRAG_HIGH_THRESH"
    proof -
      have "0 \<le> q_charge q"
        using l(4) h by (fastforce simp: frag_inv_def acct_def host_ok_def q_charge_def frags_ok_def frag_charge_def
            intro!: sum_list_nonneg add_nonneg_nonneg)
      moreover have "0 \<le> IPFRAG_HIGH_THRESH"
        by (simp add: IPFRAG_HIGH_THRESH_def)
      ultimately show ?thesis
        using eff(1) l(5) h(1) by (auto simp: mem_of_def)
    qed
    moreover have "shrinks s (ipFree q s4)"
    proof -
      note l(2)
      also have "shrinks s3 s4"
        by (auto simp: s4 shrinks_def removeAll_filter_not_eq)
      also have "shrinks s4 (ipFree q s4)" by simp
      finally show ?thesis .
    qed
    ultimately show ?thesis
      using l(1,6) nf Some inv' eff(1) s4
      by (intro exI[of _ "ipFree q s4"]) (simp add: ipDefrag_def)
  qed
qed

definition entry_for :: "int \<Rightarrow> iphdr \<Rightarrow> bytes \<Rightarrow> nat \<Rightarrow> ipq option \<Rightarrow> ipq" where
  "entry_for offset iph data i qp = (case qp of
     Some q \<Rightarrow> remember_header offset (int (ip_hl iph) * 4) data q
   | None \<Rightarrow> new_queue i (int (ip_hl iph) * 4) data)"

lemma refresh_clock:
  assumes "refresh tv offset iph data qp s = (qp', s')"
  shows "timers s' = removeAll (q_id qp) (timers s) @ [q_id qp] \<and>
    expires s' = (expires s)(q_id qp := fst (jiffies tv s) + IP_FRAG_TIME) \<and> time0 s' = time0 s \<and> hash_size s' = hash_size s"
proof -
  have "fst (jiffies tv (stop_timer (q_id qp) s)) = fst (jiffies tv s)"
    by (simp add: jiffies_def Let_def)
  then show ?thesis
    using assms by (auto simp: refresh_def Let_def split_beta)
qed

lemma ipCreate_clock:
  assumes "ipCreate tv iph data s = (qp', s')"
  shows "timers s' = timers s @ [q_id qp'] \<and> q_id qp' = next_id s \<and>
    expires s' = (expires s)(q_id qp' := fst (jiffies tv s) + IP_FRAG_TIME) \<and> time0 s' = time0 s \<and> hash_size s' = hash_size s"
proof -
  have "fst (jiffies tv (s1\<lparr>next_id := k, owner := ow\<rparr>)) = fst (jiffies tv s1)" for s1 k ow
    by (simp add: jiffies_def Let_def)
  moreover have "fst (jiffies tv (fragKmalloc n s1)) = fst (jiffies tv s1)" for n s1
    by (simp add: jiffies_def Let_def)
  ultimately show ?thesis
    using assms by (auto simp: ipCreate_def new_queue_def Let_def split_beta)
qed

lemma enter_spec:
  assumes near: "near {} s3" and host: "this_host s3 = Some (ip_dst iph) \<or> this_host s3 = None \<and> host_at s3 (ip_dst iph) = None"
    and qp: "qp = find (same_datagram iph) (queues_of s3 (ip_dst iph))"
    and s4: "s4 = (case qp of None \<Rightarrow> s3 | Some q \<Rightarrow> stop_timer (q_id q) s3)"
    and eq: "enter tv offset iph data qp s4 = (qp', s6)"
  shows "loaded (ip_dst iph) qp' s6" and "qp' = entry_for offset iph data (next_id s3) qp"
    and "queues_of s6 (ip_dst iph) = (if qp = None then qp' # queues_of s3 (ip_dst iph) else queues_of s3 (ip_dst iph))"
    and "mem_of s6 (ip_dst iph) \<le> mem_of s3 (ip_dst iph) + 160"
    and "\<forall>ip. ip \<noteq> ip_dst iph \<longrightarrow> host_at s6 ip = host_at s3 ip"
    and "timers s6 = removeAll (q_id qp') (timers s3) @ [q_id qp']"
    and "expires s6 = (expires s3)(q_id qp' := fst (jiffies tv s3) + IP_FRAG_TIME)"
    and "time0 s6 = time0 s3 \<and> hash_size s6 = hash_size s3"
proof -
  let ?ip = "ip_dst iph"
  have "loaded ?ip qp' s6 \<and> qp' = entry_for offset iph data (next_id s3) qp \<and>
    queues_of s6 ?ip = (if qp = None then qp' # queues_of s3 ?ip else queues_of s3 ?ip) \<and>
    mem_of s6 ?ip \<le> mem_of s3 ?ip + 160 \<and> (\<forall>ip. ip \<noteq> ?ip \<longrightarrow> host_at s6 ip = host_at s3 ip) \<and>
    timers s6 = removeAll (q_id qp') (timers s3) @ [q_id qp'] \<and>
    expires s6 = (expires s3)(q_id qp' := fst (jiffies tv s3) + IP_FRAG_TIME) \<and>
    time0 s6 = time0 s3 \<and> hash_size s6 = hash_size s3"
  proof (cases qp)
    case None
    define s5 where "s5 = (if this_host s3 = None then hostfragCreate iph s3 else s3)"
    have s5: "near {} s5" "this_host s5 = Some ?ip" "queues_of s5 ?ip = queues_of s3 ?ip" "mem_of s5 ?ip = mem_of s3 ?ip"
      "\<forall>ip. ip \<noteq> ?ip \<longrightarrow> host_at s5 ip = host_at s3 ip" "next_id s5 = next_id s3"
      "timers s5 = timers s3" "expires s5 = expires s3" "fst (jiffies tv s5) = fst (jiffies tv s3)"
      "time0 s5 = time0 s3" "hash_size s5 = hash_size s3"
      using near host hostfragCreate_near[OF near]
      by (auto simp: s5_def queues_of_def mem_of_def hostfragCreate_host_at jiffies_def Let_def)
    then obtain h where h: "host_at s5 ?ip = Some h"
      unfolding near_def by blast
    have cr: "ipCreate tv iph data s5 = (qp', s6)"
      using eq None s4 by (simp add: enter_def s5_def)
    have "next_id s3 \<notin> set (timers s3)"
      using near live_owner[of s3] by (auto simp: near_def timed_def live_ids_def)
    then have "removeAll (next_id s3) (timers s3) = timers s3" by simp
    then show ?thesis
      using ipCreate_loaded[OF s5(1,2) h cr] ipCreate_clock[OF cr] None s5 h
      by (auto simp: entry_for_def queues_of_def mem_of_def)
  next
    case (Some q)
    then obtain h where h: "host_at s3 ?ip = Some h" "q \<in> set (ipqueue h)" "this_host s3 = Some ?ip"
      using host qp find_mem[of "same_datagram iph" "queues_of s3 ?ip" q]
      by (auto simp: queues_of_def split: option.splits)
    have inv: "frag_inv s3"
      by (rule near_busy[OF near]) (use h in auto)
    have rf: "refresh tv offset iph data q s4 = (qp', s6)"
      using eq Some s4 h by (simp add: enter_def)
    have j: "fst (jiffies tv s4) = fst (jiffies tv s3)"
      using s4 Some by (simp add: jiffies_def Let_def)
    have "loaded ?ip qp' s6 \<and> host_at s6 = host_at s4 \<and> qp' = remember_header offset (int (ip_hl iph) * 4) data q"
      by (rule refresh_loaded[OF inv _ _ _ _ _ _ h(2) rf]) (use s4 Some h in simp_all)
    then show ?thesis
      using refresh_clock[OF rf] j s4 Some h by (auto simp: entry_for_def queues_of_def mem_of_def)
  qed
  then show "loaded ?ip qp' s6" "qp' = entry_for offset iph data (next_id s3) qp"
    "queues_of s6 ?ip = (if qp = None then qp' # queues_of s3 ?ip else queues_of s3 ?ip)"
    "mem_of s6 ?ip \<le> mem_of s3 ?ip + 160" "\<forall>ip. ip \<noteq> ?ip \<longrightarrow> host_at s6 ip = host_at s3 ip"
    "timers s6 = removeAll (q_id qp') (timers s3) @ [q_id qp']"
    "expires s6 = (expires s3)(q_id qp' := fst (jiffies tv s3) + IP_FRAG_TIME)"
    "time0 s6 = time0 s3 \<and> hash_size s6 = hash_size s3"
    by blast+
qed

section \<open>What a fragment does\<close>

lemma find_replace:
  "\<lbrakk>find P qs = Some q; distinct (map q_id qs); P q'\<rbrakk> \<Longrightarrow>
   find P (map (\<lambda>r. if q_id r = q_id q then q' else r) qs) = Some q'"
proof (induction qs)
  case (Cons a qs)
  show ?case
  proof (cases "P a")
    case True
    then show ?thesis using Cons by simp
  next
    case False
    then have "q \<in> set qs"
      using Cons.prems find_mem[of P qs q] by simp
    then have "q_id a \<noteq> q_id q"
      using Cons.prems by auto
    then show ?thesis using Cons False by simp
  qed
qed simp

definition frag_offset :: "iphdr \<Rightarrow> int" where
  "frag_offset iph = int (unat (ip_off iph AND IP_OFFSET)) * 8"

definition more_frags :: "iphdr \<Rightarrow> bool" where
  "more_frags iph \<longleftrightarrow> (ip_off iph AND NOT IP_OFFSET) AND IP_MF \<noteq> 0"

definition queue_for :: "frag_state \<Rightarrow> iphdr \<Rightarrow> ipq option" where
  "queue_for s iph = find (same_datagram iph) (queues_of s (ip_dst iph))"

text \<open>The queue after the packet, as the reassembly theory describes it.\<close>

definition next_queue :: "frag_state \<Rightarrow> iphdr \<Rightarrow> bytes \<Rightarrow> int \<Rightarrow> ipq" where
  "next_queue s iph data ts = receive (fragment_record (frag_offset iph) iph data (more_frags iph) ts)
     (case queue_for s iph of Some q \<Rightarrow> q | None \<Rightarrow> new_queue (next_id s) (int (ip_hl iph) * 4) data)"

lemma entry_receive:
  "fst (queue_fragment (frag_offset iph) (int (ip_len iph)) (int (ip_hl iph) * 4) (more_frags iph) ts data
     (entry_for (frag_offset iph) iph data (next_id s) (queue_for s iph))) = next_queue s iph data ts"
proof -
  have "remember_header off ihl data (new_queue i ihl data) = new_queue i ihl data" for off ihl i
    by (simp add: remember_header_def new_queue_def)
  then show ?thesis
    by (auto simp: next_queue_def entry_for_def receive_def fragment_record_def split: option.split)
qed

lemma ip_view_saved:
  assumes "ip_view data = Some iph" and "20 \<le> ihl"
  shows "ip_view (saved_header ihl data) = Some iph"
proof -
  have "20 \<le> length data" "28 \<le> nat (ihl + 8)"
    using ip_view_bounds(1)[OF assms(1)] assms(2) by auto
  then show ?thesis
    using assms(1) by (simp add: ip_view_def saved_header_def)
qed

lemma entry_matches:
  assumes "ip_view data = Some iph" and "5 \<le> ip_hl iph"
  shows "same_datagram iph (next_queue s iph data ts)"
proof -
  have new: "same_datagram iph q" if "q_iph q = saved_header (int (ip_hl iph) * 4) data" for q
    using ip_view_saved[OF assms(1), of "int (ip_hl iph) * 4"] assms(2) that by (simp add: same_datagram_def)
  have old: "same_datagram iph q \<Longrightarrow> q_iph q' = q_iph q \<Longrightarrow> same_datagram iph q'" for q q'
    by (simp add: same_datagram_def)
  have found: "same_datagram iph q" if "queue_for s iph = Some q" for q
    using that find_mem unfolding queue_for_def by metis
  show ?thesis
    by (cases "queue_for s iph"; cases "frag_offset iph = 0")
      (auto simp: next_queue_def receive_sel fragment_record_def new_queue_def intro: new old[OF found])
qed

lemma clock_restart:
  assumes "clock_ok t s" and "t \<le> now" and "timers s' = removeAll x (timers s) @ [x]"
    and "expires s' = (expires s)(x := now + IP_FRAG_TIME)"
  shows "clock_ok now s'"
proof -
  have "map (expires s') (removeAll x (timers s)) = map (expires s) (removeAll x (timers s))"
    using assms(4) by (intro map_cong) auto
  moreover have "sorted (map (expires s) (removeAll x (timers s)))"
    using assms(1) by (simp add: clock_ok_def removeAll_filter_not_eq sorted_filter)
  ultimately show ?thesis
    using assms by (fastforce simp: clock_ok_def sorted_append)
qed

lemma ipDefrag_fragment:
  assumes inv: "frag_inv s" and frag: "is_fragment iph" and len: "ip_hl iph * 4 \<le> ip_len iph" and ts: "0 \<le> ts"
    and clock: "clock_ok t s" "t \<le> fst (jiffies tv s)"
  obtains out s' where "ipDefrag junk tv iph data (Some ts) s = Some (out, s')" "frag_inv s'"
    "clock_ok (fst (jiffies tv s)) s'" "\<forall>ip. ip \<noteq> ip_dst iph \<longrightarrow> host_at s' ip = host_at s ip"
    "mem_of s' (ip_dst iph) \<le> IPFRAG_HIGH_THRESH + 208 + ts" "time0 s' = time0 s" "hash_size s' = hash_size s"
    "\<forall>x \<in> set (timers s'). expires s' x = fst (jiffies tv s) + IP_FRAG_TIME \<or> x \<in> set (timers s) \<and> expires s' x = expires s x"
    "\<lbrakk>mem_of s (ip_dst iph) \<le> IPFRAG_HIGH_THRESH; int (ip_len iph) + frag_offset iph \<le> 65535;
      ip_view data = Some iph; 5 \<le> ip_hl iph\<rbrakk> \<Longrightarrow>
     (let q = next_queue s iph data ts
      in if ipDone q then out = (case ipGlue junk q of Glued d \<Rightarrow> Some d | _ \<Rightarrow> None)
         else out = None \<and> queue_for s' iph = Some q \<and> mem_of s' (ip_dst iph) \<le> mem_of s (ip_dst iph) + 208 + ts)"
proof -
  let ?ip = "ip_dst iph" and ?now = "fst (jiffies tv s)"
  obtain s3 qp s4 where l: "locate iph True s = Some (qp, s4)" "shrinks s s3" "timenow s3 = timenow s" "near {} s3"
    "this_host s3 = Some ?ip \<or> this_host s3 = None \<and> host_at s3 ?ip = None"
    "mem_of s3 ?ip \<le> IPFRAG_HIGH_THRESH" "\<forall>ip. ip \<noteq> ?ip \<longrightarrow> host_at s3 ip = host_at s ip"
    "mem_of s ?ip \<le> IPFRAG_HIGH_THRESH \<Longrightarrow> queues_of s3 ?ip = queues_of s ?ip \<and> mem_of s3 ?ip = mem_of s ?ip"
    "qp = find (same_datagram iph) (queues_of s3 ?ip)"
    "s4 = (case qp of None \<Rightarrow> s3 | Some q \<Rightarrow> stop_timer (q_id q) s3)"
    by (rule locate_spec[OF inv, of iph True]) auto
  obtain qp' s6 where en: "enter tv (frag_offset iph) iph data qp s4 = (qp', s6)"
    by fastforce
  note e = enter_spec[OF l(4,5,9,10) en]
  have now3: "fst (jiffies tv s3) = ?now"
    using l(2,3) by (auto simp: shrinks_def jiffies_def Let_def)
  have clock6: "clock_ok ?now s6"
    by (rule clock_restart[OF shrinks_clock[OF l(2) clock(1)] clock(2) e(6)]) (use e(7) now3 in simp)
  have t6: "time0 s6 = time0 s" "hash_size s6 = hash_size s"
    using e(8) l(2) by (simp_all add: shrinks_def)
  have mem6: "mem_of s6 ?ip \<le> IPFRAG_HIGH_THRESH + 160"
    using e(4) l(6) by simp
  have this6: "this_host s6 = Some ?ip"
    using e(1) by (simp add: loaded_def)
  have exp6: "\<forall>x \<in> set (timers s6). expires s6 x = ?now + IP_FRAG_TIME \<or> x \<in> set (timers s) \<and> expires s6 x = expires s x"
    using e(6,7) now3 l(2) by (auto simp: shrinks_def)
  have others6: "\<forall>ip. ip \<noteq> ?ip \<longrightarrow> host_at s6 ip = host_at s ip"
    using e(5) l(7) by simp
  show thesis
  proof (cases "int (ip_len iph) + frag_offset iph > 65535")
    case True
    have "host_at (put_queue qp' s6) = (host_at s6)(?ip := map_option (\<lambda>h. h\<lparr>ipqueue :=
        map (\<lambda>r. if q_id r = q_id qp' then qp' else r) (ipqueue h)\<rparr>) (host_at s6 ?ip))"
      using this6 by (simp add: put_queue_def set_queue_def host_at_upd)
    then have "mem_of (put_queue qp' s6) ?ip = mem_of s6 ?ip"
      "\<forall>ip. ip \<noteq> ?ip \<longrightarrow> host_at (put_queue qp' s6) ip = host_at s ip"
      using others6 by (auto simp: mem_of_def split: option.splits)
    moreover have "clock_ok ?now (put_queue qp' s6)"
      using clock6 by (simp add: clock_ok_def)
    moreover have "ipDefrag junk tv iph data (Some ts) s = Some (None, put_queue qp' s6)"
      using l(1) frag en True by (simp add: ipDefrag_def frag_offset_def)
    ultimately show thesis
      using that[of None "put_queue qp' s6"] put_queue_inv[OF e(1)] t6 mem6 ts True exp6 by simp
  next
    case False
    obtain out s' where add: "add_fragment junk (frag_offset iph) iph data (more_frags iph) ts qp' s6 = (out, s')"
      by fastforce
    note a = add_fragment_spec[OF e(1) len ts add]
    have res: "ipDefrag junk tv iph data (Some ts) s = Some (out, s')"
      using l(1) frag en False add by (simp add: ipDefrag_def frag_offset_def more_frags_def)
    let ?q = "fst (queue_fragment (frag_offset iph) (int (ip_len iph)) (int (ip_hl iph) * 4) (more_frags iph) ts data qp')"
    have "shrinks s6 s' \<and> (this_host s' = Some ?ip \<or> host_at s' ?ip = None)"
    proof (cases "ipDone ?q")
      case True
      from a(6)[OF True] show ?thesis by auto
    next
      case False
      from a(5)[OF False] a(7)[OF False] show ?thesis by auto
    qed
    then have sh: "shrinks s6 s'" and "this_host s' = Some ?ip \<or> host_at s' ?ip = None"
      by auto
    then have mem': "mem_of s' ?ip \<le> the_mem s' \<or> mem_of s' ?ip = 0"
      using of_this[of s' ?ip] by (auto simp: mem_of_def)
    have nonneg: "0 \<le> mem_of s6 ?ip" "0 \<le> mem_of s ?ip"
    proof -
      have "0 \<le> mem_of z ?ip" if "frag_inv z" for z
        using that by (fastforce simp: mem_of_def frag_inv_def acct_def host_ok_def q_charge_def frags_ok_def
            frag_charge_def intro!: sum_list_nonneg add_nonneg_nonneg split: option.split)
      then show "0 \<le> mem_of s6 ?ip" "0 \<le> mem_of s ?ip"
        using e(1) inv by (auto simp: loaded_def)
    qed
    have mem: "mem_of s' ?ip \<le> mem_of s6 ?ip + 48 + ts"
      using mem' a(4) of_this[OF this6] nonneg ts by auto
    have func: "let q = next_queue s iph data ts
        in if ipDone q then out = (case ipGlue junk q of Glued d \<Rightarrow> Some d | _ \<Rightarrow> None)
           else out = None \<and> queue_for s' iph = Some q \<and> mem_of s' ?ip \<le> mem_of s ?ip + 208 + ts"
      if c: "mem_of s ?ip \<le> IPFRAG_HIGH_THRESH" "ip_view data = Some iph" "5 \<le> ip_hl iph"
    proof -
      have qf: "queue_for s iph = qp" "mem_of s3 ?ip = mem_of s ?ip" "next_id s3 = next_id s"
        using l(2,8,9) c(1) by (simp_all add: queue_for_def shrinks_def)
      have q: "fst (queue_fragment (frag_offset iph) (int (ip_len iph)) (int (ip_hl iph) * 4) (more_frags iph) ts data qp')
          = next_queue s iph data ts"
        using entry_receive[of iph ts data s] e(2) qf by simp
      have match: "same_datagram iph (next_queue s iph data ts)"
        by (rule entry_matches[OF c(2,3)])
      have "queue_for s' iph = Some (next_queue s iph data ts)" if nd: "\<not> ipDone (next_queue s iph data ts)"
      proof -
        have this': "this_host s' = Some ?ip"
          and qs: "the_queues s' = map (\<lambda>r. if q_id r = q_id qp' then next_queue s iph data ts else r) (the_queues s6)"
          using a(5) nd q by simp_all
        show ?thesis
        proof (cases qp)
          case None
          then show ?thesis
            using qs e(3) of_this[OF this'] of_this[OF this6] match by (simp add: queue_for_def)
        next
          case (Some q0)
          have "distinct (map q_id (queues_of s3 ?ip))"
            using l(4) by (auto simp: near_def acct_def host_ok_def queues_of_def split: option.split)
          moreover have "q_id qp' = q_id q0"
            using e(2) Some by (simp add: entry_for_def)
          ultimately show ?thesis
            using qs e(3) of_this[OF this'] of_this[OF this6] match Some l(9)
              find_replace[of "same_datagram iph" "queues_of s3 ?ip" q0 "next_queue s iph data ts"]
            by (simp add: queue_for_def)
        qed
      qed
      moreover have "mem_of s' ?ip \<le> mem_of s ?ip + 208 + ts"
        using mem e(4) qf by simp
      ultimately show ?thesis
        using a(2) q by (simp add: Let_def)
    qed
    have "\<forall>x \<in> set (timers s'). expires s' x = ?now + IP_FRAG_TIME \<or> x \<in> set (timers s) \<and> expires s' x = expires s x"
      using exp6 sh by (auto simp: shrinks_def)
    then show thesis
      using that[OF res a(1) shrinks_clock[OF sh clock6]] a(3) others6 mem mem6 sh t6 func
      by (simp add: shrinks_def)
  qed
qed

section \<open>Reachable states\<close>

definition now_of :: "timeval \<Rightarrow> frag_state \<Rightarrow> int" where
  "now_of tv s = fst (jiffies tv (s\<lparr>timenow := 0\<rparr>))"

definition MEM_BOUND :: int where
  "MEM_BOUND = 328085"

definition frag_wf :: "int \<Rightarrow> frag_state \<Rightarrow> bool" where
  "frag_wf t s \<longleftrightarrow> frag_inv s \<and> clock_ok t s \<and> (\<forall>ip. mem_of s ip \<le> MEM_BOUND)"

text \<open>A packet is processed at a time not before the previous one.\<close>

inductive frag_reach :: "int \<Rightarrow> frag_state \<Rightarrow> bool" where
  start: "frag_reach t (IpFragment n tv)"
| packet: "\<lbrakk>frag_reach t s; t \<le> now_of tv s; startIpfragProc junk tv data len s = Some (out, s')\<rbrakk>
    \<Longrightarrow> frag_reach (now_of tv s) s'"

lemma skb_truesize_bounds:
  assumes "0 \<le> n"
  shows "0 \<le> skb_truesize n" and "skb_truesize n \<le> n + 198"
proof -
  have "(n + 30) AND NOT 15 \<le> n + 30" "0 \<le> (n + 30) AND NOT 15"
    using assms by (simp_all add: AND_upper1)
  then show "0 \<le> skb_truesize n" "skb_truesize n \<le> n + 198"
    by (simp_all add: skb_truesize_def)
qed

lemma expire_mem:
  assumes "frag_inv s" and "\<forall>ip. mem_of s ip \<le> B" and "0 \<le> B"
  shows "\<forall>ip. mem_of (expire_loop tv s) ip \<le> B"
  using assms
proof (induction tv s rule: expire_loop.induct)
  case (1 tv s)
  show ?case
  proof (cases "timers s")
    case Nil
    then have "expire_loop tv s = s"
      by (subst expire_loop.simps) simp
    with 1 show ?thesis by simp
  next
    case (Cons x xs)
    let ?s1 = "snd (jiffies tv s)" and ?now = "fst (jiffies tv s)"
    let ?s2 = "?s1\<lparr>this_host := Some (owner ?s1 x)\<rparr>"
    show ?thesis
    proof (cases "expires s x < ?now")
      case False
      then have "expire_loop tv s = ?s1"
        using Cons by (subst expire_loop.simps) (simp add: Let_def)
      then show ?thesis
        using 1(3) by (simp add: mem_of_def)
    next
      case True
      have inv: "frag_inv ?s2"
        using 1(2) frag_inv_cong[of ?s2 s] by simp
      have eq: "expire_loop tv s = expire_loop tv (ipExpire x ?s2)"
        using True Cons by (subst expire_loop.simps) (simp add: Let_def)
      have "mem_of (ipExpire x ?s2) ip \<le> B" for ip
      proof (cases "find (\<lambda>q. q_id q = x) (the_queues ?s2)")
        case None
        then show ?thesis
          using 1(3) by (simp add: ipExpire_def mem_of_def)
      next
        case (Some q)
        then obtain h where h: "host_at ?s2 (owner ?s1 x) = Some h" "q \<in> set (ipqueue h)"
          using find_mem[OF Some] by (auto simp: the_queues_def split: option.splits)
        have "0 \<le> q_charge q"
          using inv h by (fastforce simp: frag_inv_def acct_def host_ok_def q_charge_def frags_ok_def frag_charge_def
              intro!: sum_list_nonneg add_nonneg_nonneg)
        moreover have "mem_of ?s2 ip \<le> B"
          using 1(3) by (simp add: mem_of_def)
        ultimately show ?thesis
          using Some ipFree_effect(1)[of ?s2, OF _ h(1), of q] h 1(4)
          by (auto simp: ipExpire_def mem_of_def)
      qed
      then show ?thesis
        using 1(1)[OF Cons refl] True Cons ipExpire_inv(1)[OF inv, of x] 1(4) eq by simp
    qed
  qed
qed

text \<open>One packet on a well-formed state.\<close>

lemma startIpfragProc_step:
  assumes wf: "frag_wf t s" and t: "t \<le> now_of tv s"
  obtains out s' where "startIpfragProc junk tv data len s = Some (out, s')" "frag_wf (now_of tv s) s'"
    "ip_view data = Some iph \<Longrightarrow> valid_ip iph len \<Longrightarrow> \<forall>x \<in> set (timers s'). now_of tv s \<le> expires s' x"
proof (cases "\<exists>iph. ip_view data = Some iph \<and> valid_ip iph len")
  case False
  then have "startIpfragProc junk tv data len s = Some ([], s)"
    by (auto simp: startIpfragProc_def split: option.splits)
  moreover have "frag_wf (now_of tv s) s"
    using wf t by (fastforce simp: frag_wf_def clock_ok_def)
  ultimately show thesis
    using False that by blast
next
  case True
  then obtain iph where iph: "ip_view data = Some iph" "valid_ip iph len" by auto
  let ?now = "now_of tv s" and ?s0 = "s\<lparr>numpack := numpack s + 1, timenow := 0\<rparr>"
  have s0: "frag_inv ?s0" "clock_ok t ?s0" "\<forall>ip. mem_of ?s0 ip \<le> MEM_BOUND" "fst (jiffies tv ?s0) = ?now"
    using wf frag_inv_cong[of ?s0 s] host_at_cong(3,4)
    by (simp_all add: frag_wf_def clock_ok_def mem_of_def now_of_def jiffies_def Let_def host_at_def fragIndex_def)
  define s1 where "s1 = expire_loop tv ?s0"
  have s1: "frag_inv s1" "shrinks ?s0 s1" "fst (jiffies tv s1) = ?now"
    "timers s1 \<noteq> [] \<longrightarrow> ?now \<le> expires s1 (hd (timers s1))" "\<forall>ip. mem_of s1 ip \<le> MEM_BOUND"
    using expire_loop_inv[OF s0(1), of tv] expire_mem[OF s0(1,3), of tv] s0(4)
    by (auto simp: s1_def shrinks_def MEM_BOUND_def)
  have clock1: "clock_ok t s1"
    by (rule shrinks_clock[OF s1(2) s0(2)])
  have exp1: "\<forall>x \<in> set (timers s1). ?now \<le> expires s1 x"
    using s1(4) clock1 by (cases "timers s1") (auto simp: clock_ok_def)
  have len: "ip_hl iph * 4 \<le> ip_len iph"
    using iph(2) by (simp add: valid_ip_def)
  have high: "IPFRAG_HIGH_THRESH \<le> MEM_BOUND"
    by (simp add: IPFRAG_HIGH_THRESH_def MEM_BOUND_def)
  show thesis
  proof (cases "is_fragment iph")
    case False
    obtain s' where s': "ipDefrag junk tv iph data None s1 = Some (None, s')" "frag_inv s'" "shrinks s1 s'"
      "\<forall>ip. ip \<noteq> ip_dst iph \<longrightarrow> host_at s' ip = host_at s1 ip" "mem_of s' (ip_dst iph) \<le> IPFRAG_HIGH_THRESH"
      using ipDefrag_whole[OF s1(1) False, of junk tv data] by blast
    have "startIpfragProc junk tv data len s = Some (genIpProc data (skblen_of False data), s')"
      using iph s'(1) False by (simp add: startIpfragProc_def ipDefragStub_def s1_def Let_def)
    moreover have "mem_of s' ip \<le> MEM_BOUND" for ip
      using s'(4,5) s1(5) high mem_of_cong[of s' ip s1] by (cases "ip = ip_dst iph") auto
    moreover have "clock_ok ?now s'"
      using shrinks_clock[OF s'(3) clock1] t by (fastforce simp: clock_ok_def)
    ultimately show thesis
      using that exp1 s'(2,3) by (fastforce simp: frag_wf_def shrinks_def)
  next
    case True
    let ?ts = "skb_truesize (int (ip_len iph))"
    have "ip_len iph < 65536"
      by (rule ip_view_bounds(3)[OF iph(1)])
    then have ts: "0 \<le> ?ts" "IPFRAG_HIGH_THRESH + 208 + ?ts \<le> MEM_BOUND"
      using skb_truesize_bounds[of "int (ip_len iph)"] by (auto simp: MEM_BOUND_def IPFRAG_HIGH_THRESH_def)
    obtain out s' where s': "ipDefrag junk tv iph (take (ip_len iph) data) (Some ?ts) s1 = Some (out, s')" "frag_inv s'"
      "clock_ok ?now s'" "\<forall>ip. ip \<noteq> ip_dst iph \<longrightarrow> host_at s' ip = host_at s1 ip"
      "mem_of s' (ip_dst iph) \<le> IPFRAG_HIGH_THRESH + 208 + ?ts"
      "\<forall>x \<in> set (timers s'). expires s' x = ?now + IP_FRAG_TIME \<or> x \<in> set (timers s1) \<and> expires s' x = expires s1 x"
      using ipDefrag_fragment[OF s1(1) True len ts(1) clock1, of tv junk "take (ip_len iph) data"] t s1(3) by metis
    have "\<exists>r. startIpfragProc junk tv data len s = Some (r, s')"
      using iph s'(1) True by (simp add: startIpfragProc_def ipDefragStub_def s1_def Let_def)
    moreover have "mem_of s' ip \<le> MEM_BOUND" for ip
      using s'(4,5) s1(5) ts(2) mem_of_cong[of s' ip s1] by (cases "ip = ip_dst iph") auto
    moreover have "\<forall>x \<in> set (timers s'). ?now \<le> expires s' x"
      using s'(6) exp1 by (auto simp: IP_FRAG_TIME_def)
    ultimately show thesis
      using that s'(2,3) by (auto simp: frag_wf_def)
  qed
qed

lemma frag_reach_wf: "frag_reach t s \<Longrightarrow> frag_wf t s"
proof (induction rule: frag_reach.induct)
  case (start t n tv)
  have "host_at (IpFragment n tv) ip = None" for ip
    by (simp add: IpFragment_def host_at_def)
  then show ?case
    by (simp add: frag_wf_def frag_inv_def acct_def busy_def timed_def live_ids_def live_at_def clock_ok_def
        mem_of_def MEM_BOUND_def) (simp add: IpFragment_def)
next
  case (packet t s tv junk data len out s')
  then show ?case
    using startIpfragProc_step[OF packet.IH packet.hyps(2), of junk data len] by (metis option.inject prod.inject)
qed

lemma live_at_queues: "live_at s ip = q_id ` set (queues_of s ip)"
  by (simp add: live_at_def queues_of_def split: option.split)

lemma live_timer:
  assumes "frag_inv s" and "q \<in> set (queues_of s ip)"
  shows "q_id q \<in> set (timers s)"
proof -
  have "q_id q \<in> live_at s ip"
    using assms(2) by (simp add: live_at_queues)
  then show ?thesis
    using assms(1) by (auto simp: frag_inv_def timed_def live_ids_def)
qed

text \<open>With no expired timer the expiry loop leaves hosts and numbering alone.\<close>

lemma expire_loop_quiet:
  assumes "\<forall>x \<in> set (timers s). fst (jiffies tv s) \<le> expires s x"
  shows "host_at (expire_loop tv s) = host_at s \<and> next_id (expire_loop tv s) = next_id s"
proof (cases "timers s")
  case Nil
  then show ?thesis by (subst (1 2) expire_loop.simps) simp
next
  case (Cons x xs)
  then have "expire_loop tv s = snd (jiffies tv s)"
    using assms by (subst expire_loop.simps) (simp add: Let_def)
  then show ?thesis by simp
qed

lemma next_queue_cong:
  "\<lbrakk>host_at s' = host_at s; next_id s' = next_id s\<rbrakk> \<Longrightarrow> next_queue s' = next_queue s \<and> mem_of s' = mem_of s"
  by (intro conjI ext) (simp_all add: next_queue_def queue_for_def queues_of_def mem_of_def split: option.split)

lemma fragment_step:
  assumes wf: "frag_wf t s" and t: "t \<le> now_of tv s" and iph: "ip_view data = Some iph" "valid_ip iph len" "is_fragment iph"
    and fits: "int (ip_len iph) + frag_offset iph \<le> 65535" and quiet: "\<forall>x \<in> set (timers s). now_of tv s \<le> expires s x"
    and mem: "mem_of s (ip_dst iph) \<le> IPFRAG_HIGH_THRESH"
    and step: "startIpfragProc junk tv data len s = Some (out, s')"
  shows "let q = next_queue s iph (take (ip_len iph) data) (skb_truesize (int (ip_len iph)))
    in if ipDone q then out = (case ipGlue junk q of Glued d \<Rightarrow> genIpProc d (skblen_of True d) | _ \<Rightarrow> [])
       else out = [] \<and> queue_for s' iph = Some q"
proof -
  let ?s0 = "s\<lparr>numpack := numpack s + 1, timenow := 0\<rparr>" and ?ts = "skb_truesize (int (ip_len iph))"
    and ?data = "take (ip_len iph) data"
  have s0: "frag_inv ?s0" "clock_ok t ?s0" "fst (jiffies tv ?s0) = now_of tv s" "host_at ?s0 = host_at s"
    using wf frag_inv_cong[of ?s0 s]
    by (simp_all add: frag_wf_def clock_ok_def now_of_def jiffies_def Let_def host_at_def fragIndex_def fun_eq_iff)
  define s1 where "s1 = expire_loop tv ?s0"
  have s1: "frag_inv s1" "shrinks ?s0 s1" "fst (jiffies tv s1) = now_of tv s" "host_at s1 = host_at s" "next_id s1 = next_id s"
    using expire_loop_inv[OF s0(1), of tv] expire_loop_quiet[of ?s0 tv] s0 quiet by (auto simp: s1_def)
  have len: "ip_hl iph * 4 \<le> ip_len iph" "5 \<le> ip_hl iph" "20 \<le> ip_len iph"
    using iph(2) by (auto simp: valid_ip_def)
  have view: "ip_view ?data = Some iph"
    using iph(1) len(3) ip_view_bounds(1)[OF iph(1)] by (simp add: ip_view_def)
  have ts: "0 \<le> ?ts"
    by (simp add: skb_truesize_bounds)
  have nq: "next_queue s1 = next_queue s" "mem_of s1 = mem_of s"
    using next_queue_cong[of s1 s] s1(4,5) by simp_all
  obtain r s2 where r: "ipDefrag junk tv iph ?data (Some ?ts) s1 = Some (r, s2)"
    "let q = next_queue s1 iph ?data ?ts
      in if ipDone q then r = (case ipGlue junk q of Glued d \<Rightarrow> Some d | _ \<Rightarrow> None)
         else r = None \<and> queue_for s2 iph = Some q \<and> mem_of s2 (ip_dst iph) \<le> mem_of s1 (ip_dst iph) + 208 + ?ts"
    by (rule ipDefrag_fragment[OF s1(1) iph(3) len(1) ts shrinks_clock[OF s1(2) s0(2)], of tv junk ?data])
      (use t s1(3) mem fits view len(2) nq in auto)
  have "s' = s2" "out = (case r of None \<Rightarrow> [] | Some d \<Rightarrow> genIpProc d (skblen_of True d))"
    using step iph r(1) by (auto simp: startIpfragProc_def ipDefragStub_def s1_def Let_def split: option.splits)
  then show ?thesis
    using r(2) nq by (auto simp: Let_def split: if_splits glue_result.splits)
qed

section \<open>Properties of the fragment handler\<close>

text \<open>
  A first fragment with eight payload bytes arrives at a fresh handler.
\<close>

definition sample_time :: timeval where
  "sample_time = \<lparr>tv_sec = 5, tv_usec = 0\<rparr>"

definition sample_packet :: bytes where
  "sample_packet = sample_header @ [1, 2, 3, 4, 5, 6, 7, 8]"

definition sample_start :: frag_state where
  "sample_start = IpFragment 3001 \<lparr>tv_sec = 1, tv_usec = 0\<rparr>"

definition sample_state :: frag_state where
  "sample_state = snd (the (startIpfragProc (\<lambda>_. 0) sample_time sample_packet 28 sample_start))"

definition sample_iph :: iphdr where
  "sample_iph = the (ip_view sample_packet)"

lemma sample_iph: "ip_view sample_packet = Some sample_iph" "valid_ip sample_iph 28" "is_fragment sample_iph"
  "int (ip_len sample_iph) + frag_offset sample_iph \<le> 65535" "ip_dst sample_iph = 0x0200000A"
  by code_simp+

lemma sample_values:
  "fst (the (startIpfragProc (\<lambda>_. 0) sample_time sample_packet 28 sample_start)) = [] \<and>
   mem_of sample_state 0x0200000A = 424 \<and> length (queues_of sample_state 0x0200000A) = 1 \<and>
   expires sample_state 0 = 34000 \<and> now_of sample_time sample_state = 4000"
proof -
  have "let r = the (startIpfragProc (\<lambda>_. 0) sample_time sample_packet 28 sample_start)
    in fst r = [] \<and> mem_of (snd r) 0x0200000A = 424 \<and> length (queues_of (snd r) 0x0200000A) = 1 \<and>
       expires (snd r) 0 = 34000 \<and> now_of sample_time (snd r) = 4000"
    by code_simp
  then show ?thesis
    by (simp add: sample_state_def Let_def)
qed

lemma sample_now: "now_of sample_time sample_start = 4000"
  by code_simp

lemma sample_step:
  "startIpfragProc (\<lambda>_. 0) sample_time sample_packet 28 sample_start = Some ([], sample_state)"
proof -
  have "frag_wf 0 sample_start"
    unfolding sample_start_def by (rule frag_reach_wf[OF frag_reach.start])
  then obtain out s' where "startIpfragProc (\<lambda>_. 0) sample_time sample_packet 28 sample_start = Some (out, s')"
    using startIpfragProc_step[of 0 sample_start sample_time "\<lambda>_. 0" sample_packet 28] sample_now by (metis zero_le_numeral)
  then show ?thesis
    using sample_values by (simp add: sample_state_def)
qed

lemma sample_reach: "frag_reach 4000 sample_state"
proof -
  have "frag_reach 0 sample_start"
    unfolding sample_start_def by (rule frag_reach.start)
  from frag_reach.packet[OF this _ sample_step] show ?thesis
    by (simp add: sample_now)
qed

text \<open>
  C21: The fragment handler never reaches the fatal exit of \<open>ipEvictor\<close>: on every reachable
  state every packet is processed to the end, whatever its bytes and claimed length.
\<close>

theorem ipfrag_never_exits:
  assumes "frag_reach t s" and "t \<le> now_of tv s"
  shows "\<exists>out s'. startIpfragProc junk tv data len s = Some (out, s')"
  using startIpfragProc_step[OF frag_reach_wf[OF assms(1)] assms(2)] by metis

lemma ipfrag_never_exits_witness:
  "\<exists>out s'. startIpfragProc (\<lambda>_. 0) sample_time sample_packet 28 sample_state = Some (out, s')"
  by (rule ipfrag_never_exits[OF sample_reach]) (simp add: sample_values)





text \<open>
  C5: The handler implements reassembly: a fragment that fits, for a host below its threshold
  and with no timer due, is added to the queue of its datagram (found by source, destination,
  identification and protocol, or new); the packet is handed on exactly when that queue is
  complete, and it is the one \<open>ipGlue\<close> returns.
\<close>

theorem ipfrag_refines_reassembly:
  assumes "frag_reach t s" and "t \<le> now_of tv s" and "ip_view data = Some iph" and "valid_ip iph len" and "is_fragment iph"
    and "int (ip_len iph) + frag_offset iph \<le> 65535" and "\<forall>x \<in> set (timers s). now_of tv s \<le> expires s x"
    and "mem_of s (ip_dst iph) \<le> IPFRAG_HIGH_THRESH" and "startIpfragProc junk tv data len s = Some (out, s')"
  shows "let q = next_queue s iph (take (ip_len iph) data) (skb_truesize (int (ip_len iph)))
    in if ipDone q then out = (case ipGlue junk q of Glued d \<Rightarrow> genIpProc d (skblen_of True d) | _ \<Rightarrow> [])
       else out = [] \<and> queue_for s' iph = Some q"
  by (rule fragment_step[OF frag_reach_wf[OF assms(1)] assms(2-9)])

lemma ipfrag_refines_reassembly_witness:
  "let q = next_queue sample_start sample_iph (take (ip_len sample_iph) sample_packet) (skb_truesize (int (ip_len sample_iph)))
   in if ipDone q then [] = (case ipGlue (\<lambda>_. 0) q of Glued d \<Rightarrow> genIpProc d (skblen_of True d) | _ \<Rightarrow> [])
      else [] = ([] :: ip_out list) \<and> queue_for sample_state sample_iph = Some q"
proof -
  have "frag_reach 0 sample_start"
    unfolding sample_start_def by (rule frag_reach.start)
  moreover have "timers sample_start = []" "mem_of sample_start ip \<le> IPFRAG_HIGH_THRESH" for ip
    by (simp_all add: sample_start_def IpFragment_def mem_of_def host_at_def IPFRAG_HIGH_THRESH_def)
  ultimately show ?thesis
    by (intro ipfrag_refines_reassembly[OF _ _ sample_iph(1-4) _ _ sample_step]) (auto simp: sample_now)
qed

end
