(* ===== verification/Http_Url.thy ===== *)
theory Http_Url
  imports Net_Util
begin

text \<open>
  The character classes and the URL automaton of \<open>app/http/HttpParser.cc\<close> in strict mode (the
  default of \<open>HttpParser.h\<close>): \<open>parse_url_char\<close>, shared by the message parser and by
  \<open>http_parser_parse_url\<close>, and the host parser behind the latter. Proved: the components
  reported for a URL lie inside it.
\<close>

section \<open>Characters\<close>

definition byte_of :: "char \<Rightarrow> u8" where
  "byte_of = of_char"

definition bytes_of :: "string \<Rightarrow> bytes" where
  "bytes_of s = map byte_of s"

definition CR :: u8 where "CR = 13"
definition LF :: u8 where "LF = 10"

definition LOWER :: "u8 \<Rightarrow> u8" where "LOWER c = c OR 0x20"

definition IS_ALPHA :: "u8 \<Rightarrow> bool" where
  "IS_ALPHA c \<longleftrightarrow> byte_of CHR ''a'' \<le> LOWER c \<and> LOWER c \<le> byte_of CHR ''z''"

definition IS_NUM :: "u8 \<Rightarrow> bool" where
  "IS_NUM c \<longleftrightarrow> byte_of CHR ''0'' \<le> c \<and> c \<le> byte_of CHR ''9''"

definition IS_ALPHANUM :: "u8 \<Rightarrow> bool" where
  "IS_ALPHANUM c \<longleftrightarrow> IS_ALPHA c \<or> IS_NUM c"

definition IS_HEX :: "u8 \<Rightarrow> bool" where
  "IS_HEX c \<longleftrightarrow> IS_NUM c \<or> (byte_of CHR ''a'' \<le> LOWER c \<and> LOWER c \<le> byte_of CHR ''f'')"

definition IS_MARK :: "u8 \<Rightarrow> bool" where
  "IS_MARK c \<longleftrightarrow> c \<in> set (bytes_of [CHR ''-'', CHR ''_'', CHR ''.'', CHR ''!'', CHR ''~'', CHR ''*'', CHR 0x27, CHR ''('', CHR '')''])"

definition IS_USERINFO_CHAR :: "u8 \<Rightarrow> bool" where
  "IS_USERINFO_CHAR c \<longleftrightarrow> IS_ALPHANUM c \<or> IS_MARK c \<or> c \<in> set (bytes_of ''%;:&=+$,'')"

text \<open>\<open>tokens\<close> lowercases; entries from 128 on are 0, as is every entry not listed.\<close>

definition tokens :: "u8 list" where
  "tokens = replicate 33 0 @ bytes_of [CHR ''!''] @ [0] @ bytes_of [CHR ''#'', CHR ''$'', CHR ''%'', CHR ''&'', CHR 0x27] @ [0, 0]
     @ bytes_of ''*+'' @ [0] @ bytes_of ''-.'' @ [0] @ bytes_of ''0123456789'' @ replicate 7 0
     @ bytes_of ''abcdefghijklmnopqrstuvwxyz'' @ [0, 0, 0] @ bytes_of ''^_'' @ bytes_of [CHR 0x60]
     @ bytes_of ''abcdefghijklmnopqrstuvwxyz'' @ [0] @ bytes_of [CHR ''|''] @ [0] @ bytes_of [CHR ''~''] @ replicate 129 0"

definition TOKEN :: "u8 \<Rightarrow> u8" where
  "TOKEN c = tokens ! unat c"

text \<open>\<open>unhex\<close>: -1 is \<open>None\<close>. The table of the code ends at 128; the rest is 0.\<close>

definition unhex :: "u8 \<Rightarrow> u64 option" where
  "unhex c = (if 128 \<le> c then Some 0
     else if IS_NUM c then Some (ucast (c - byte_of CHR ''0''))
     else if byte_of CHR ''a'' \<le> LOWER c \<and> LOWER c \<le> byte_of CHR ''f'' then Some (ucast (LOWER c - byte_of CHR ''a'') + 10)
     else None)"

text \<open>The bitmap \<open>normal_url_char\<close>, one byte per eight characters, and \<open>BIT_AT\<close>.\<close>

definition normal_url_char :: "u8 list" where
  "normal_url_char = [0, 0, 0, 0, 2 + 4 + 16 + 32 + 64 + 128, 255, 255, 127, 255, 255, 255, 255, 255, 255, 255, 127] @ replicate 16 0"

definition IS_URL_CHAR :: "u8 \<Rightarrow> bool" where
  "IS_URL_CHAR c \<longleftrightarrow> bit (normal_url_char ! (unat c div 8)) (unat c mod 8)"

definition IS_HOST_CHAR :: "u8 \<Rightarrow> bool" where
  "IS_HOST_CHAR c \<longleftrightarrow> IS_ALPHANUM c \<or> c = byte_of CHR ''.'' \<or> c = byte_of CHR ''-''"

definition IS_HEADER_CHAR :: "u8 \<Rightarrow> bool" where
  "IS_HEADER_CHAR c \<longleftrightarrow> c = CR \<or> c = LF \<or> c = 9 \<or> (31 < c \<and> c \<noteq> 127)"

section \<open>States\<close>

datatype (plugins only: code) state =
    s_dead
  | s_start_req_or_res | s_res_or_resp_H | s_start_res | s_res_H | s_res_HT | s_res_HTT | s_res_HTTP
  | s_res_first_http_major | s_res_http_major | s_res_first_http_minor | s_res_http_minor
  | s_res_first_status_code | s_res_status_code | s_res_status_start | s_res_status | s_res_line_almost_done
  | s_start_req | s_req_method | s_req_spaces_before_url
  | s_req_schema | s_req_schema_slash | s_req_schema_slash_slash | s_req_server_start | s_req_server
  | s_req_server_with_at | s_req_path | s_req_query_string_start | s_req_query_string | s_req_fragment_start
  | s_req_fragment
  | s_req_http_start | s_req_http_H | s_req_http_HT | s_req_http_HTT | s_req_http_HTTP
  | s_req_first_http_major | s_req_http_major | s_req_first_http_minor | s_req_http_minor | s_req_line_almost_done
  | s_header_field_start | s_header_field | s_header_value_discard_ws | s_header_value_discard_ws_almost_done
  | s_header_value_discard_lws | s_header_value_start | s_header_value | s_header_value_lws | s_header_almost_done
  | s_chunk_size_start | s_chunk_size | s_chunk_parameters | s_chunk_size_almost_done
  | s_headers_almost_done | s_headers_done
  | s_chunk_data | s_chunk_data_almost_done | s_chunk_data_done
  | s_body_identity | s_body_identity_eof | s_message_done

section \<open>The URL automaton\<close>

text \<open>The cases of \<open>parse_url_char\<close>; \<open>server_char\<close> is shared by three of them.\<close>

definition server_char :: "u8 \<Rightarrow> state" where
  "server_char ch =
     (if ch = byte_of CHR ''/'' then s_req_path
      else if ch = byte_of CHR ''?'' then s_req_query_string_start
      else if ch = byte_of CHR ''@'' then s_req_server_with_at
      else if IS_USERINFO_CHAR ch \<or> ch = byte_of CHR ''['' \<or> ch = byte_of CHR '']'' then s_req_server
      else s_dead)"

definition parse_url_char :: "state \<Rightarrow> u8 \<Rightarrow> state" where
  "parse_url_char s ch =
     (if ch = byte_of CHR '' '' \<or> ch = CR \<or> ch = LF \<or> ch = 9 \<or> ch = 12 then s_dead
      else case s of
        s_req_spaces_before_url \<Rightarrow>
          if ch = byte_of CHR ''/'' \<or> ch = byte_of CHR ''*'' then s_req_path
          else if IS_ALPHA ch then s_req_schema else s_dead
      | s_req_schema \<Rightarrow>
          if IS_ALPHA ch then s_req_schema
          else if ch = byte_of CHR '':'' then s_req_schema_slash else s_dead
      | s_req_schema_slash \<Rightarrow> if ch = byte_of CHR ''/'' then s_req_schema_slash_slash else s_dead
      | s_req_schema_slash_slash \<Rightarrow> if ch = byte_of CHR ''/'' then s_req_server_start else s_dead
      | s_req_server_with_at \<Rightarrow> if ch = byte_of CHR ''@'' then s_dead else server_char ch
      | s_req_server_start \<Rightarrow> server_char ch
      | s_req_server \<Rightarrow> server_char ch
      | s_req_path \<Rightarrow>
          if IS_URL_CHAR ch then s_req_path
          else if ch = byte_of CHR ''?'' then s_req_query_string_start
          else if ch = byte_of CHR ''#'' then s_req_fragment_start else s_dead
      | s_req_query_string_start \<Rightarrow>
          if IS_URL_CHAR ch \<or> ch = byte_of CHR ''?'' then s_req_query_string
          else if ch = byte_of CHR ''#'' then s_req_fragment_start else s_dead
      | s_req_query_string \<Rightarrow>
          if IS_URL_CHAR ch \<or> ch = byte_of CHR ''?'' then s_req_query_string
          else if ch = byte_of CHR ''#'' then s_req_fragment_start else s_dead
      | s_req_fragment_start \<Rightarrow>
          if IS_URL_CHAR ch \<or> ch = byte_of CHR ''?'' then s_req_fragment
          else if ch = byte_of CHR ''#'' then s_req_fragment_start else s_dead
      | s_req_fragment \<Rightarrow>
          if IS_URL_CHAR ch \<or> ch = byte_of CHR ''?'' \<or> ch = byte_of CHR ''#'' then s_req_fragment else s_dead
      | _ \<Rightarrow> s_dead)"

section \<open>Hosts\<close>

datatype http_host_state =
    s_http_host_dead | s_http_userinfo_start | s_http_userinfo | s_http_host_start | s_http_host_v6_start
  | s_http_host | s_http_host_v6 | s_http_host_v6_end | s_http_host_v6_zone_start | s_http_host_v6_zone
  | s_http_host_port_start | s_http_host_port

definition http_parse_host_char :: "http_host_state \<Rightarrow> u8 \<Rightarrow> http_host_state" where
  "http_parse_host_char s ch =
     (if s = s_http_userinfo \<or> s = s_http_userinfo_start then
        if ch = byte_of CHR ''@'' then s_http_host_start
        else if IS_USERINFO_CHAR ch then s_http_userinfo else s_http_host_dead
      else if s = s_http_host_start then
        if ch = byte_of CHR ''['' then s_http_host_v6_start
        else if IS_HOST_CHAR ch then s_http_host else s_http_host_dead
      else if s = s_http_host \<and> IS_HOST_CHAR ch then s_http_host
      else if s = s_http_host \<or> s = s_http_host_v6_end then
        if ch = byte_of CHR '':'' then s_http_host_port_start else s_http_host_dead
      else if s = s_http_host_v6 \<and> ch = byte_of CHR '']'' then s_http_host_v6_end
      else if s = s_http_host_v6 \<or> s = s_http_host_v6_start then
        if IS_HEX ch \<or> ch = byte_of CHR '':'' \<or> ch = byte_of CHR ''.'' then s_http_host_v6
        else if s = s_http_host_v6 \<and> ch = byte_of CHR ''%'' then s_http_host_v6_zone_start else s_http_host_dead
      else if s = s_http_host_v6_zone \<and> ch = byte_of CHR '']'' then s_http_host_v6_end
      else if s = s_http_host_v6_zone \<or> s = s_http_host_v6_zone_start then
        if IS_ALPHANUM ch \<or> ch \<in> set (bytes_of ''%.-_~'') then s_http_host_v6_zone else s_http_host_dead
      else if s = s_http_host_port \<or> s = s_http_host_port_start then
        if IS_NUM ch then s_http_host_port else s_http_host_dead
      else s_http_host_dead)"

section \<open>Splitting a URL\<close>

datatype url_field = UF_SCHEMA | UF_HOST | UF_PORT | UF_PATH | UF_QUERY | UF_FRAGMENT | UF_USERINFO | UF_MAX

text \<open>The bit mask \<open>field_set\<close> is the set of its fields.\<close>

record http_parser_url =
  field_set :: "url_field set"
  port :: u16
  field_off :: "url_field \<Rightarrow> u16"
  field_len :: "url_field \<Rightarrow> u16"

definition begin_field :: "url_field \<Rightarrow> nat \<Rightarrow> http_parser_url \<Rightarrow> http_parser_url" where
  "begin_field f p u = u\<lparr>field_off := (field_off u)(f := of_nat p), field_len := (field_len u)(f := 1),
     field_set := insert f (field_set u)\<rparr>"

definition extend_field :: "url_field \<Rightarrow> http_parser_url \<Rightarrow> http_parser_url" where
  "extend_field f u = u\<lparr>field_len := (field_len u)(f := field_len u f + 1)\<rparr>"

text \<open>The effect of a character that \<open>http_parse_host\<close> reads at position \<open>p\<close>, from state \<open>s\<close> to \<open>new_s\<close>.\<close>

definition host_field :: "http_host_state \<Rightarrow> http_host_state \<Rightarrow> nat \<Rightarrow> http_parser_url \<Rightarrow> http_parser_url" where
  "host_field s new_s p u =
     (case new_s of
        s_http_host \<Rightarrow> extend_field UF_HOST (if s \<noteq> s_http_host then u\<lparr>field_off := (field_off u)(UF_HOST := of_nat p)\<rparr> else u)
      | s_http_host_v6 \<Rightarrow> extend_field UF_HOST (if s \<noteq> s_http_host_v6 then u\<lparr>field_off := (field_off u)(UF_HOST := of_nat p)\<rparr> else u)
      | s_http_host_v6_zone_start \<Rightarrow> extend_field UF_HOST u
      | s_http_host_v6_zone \<Rightarrow> extend_field UF_HOST u
      | s_http_host_port \<Rightarrow> if s \<noteq> s_http_host_port then begin_field UF_PORT p u else extend_field UF_PORT u
      | s_http_userinfo \<Rightarrow> if s \<noteq> s_http_userinfo then begin_field UF_USERINFO p u else extend_field UF_USERINFO u
      | _ \<Rightarrow> u)"

fun host_loop :: "bytes \<Rightarrow> nat \<Rightarrow> http_host_state \<Rightarrow> http_parser_url \<Rightarrow> (http_host_state \<times> http_parser_url) option" where
  "host_loop [] p s u = Some (s, u)"
| "host_loop (ch # cs) p s u =
     (let new_s = http_parse_host_char s ch
      in if new_s = s_http_host_dead then None else host_loop cs (p + 1) new_s (host_field s new_s p u))"

text \<open>\<open>None\<close> is the return value 1.\<close>

definition http_parse_host :: "bytes \<Rightarrow> bool \<Rightarrow> http_parser_url \<Rightarrow> http_parser_url option" where
  "http_parse_host buf found_at u =
     (let off = unat (field_off u UF_HOST); n = unat (field_len u UF_HOST) in
      case host_loop (take n (drop off buf)) off (if found_at then s_http_userinfo_start else s_http_host_start)
             (u\<lparr>field_len := (field_len u)(UF_HOST := 0)\<rparr>) of
        None \<Rightarrow> None
      | Some (s, u') \<Rightarrow>
          if s \<in> {s_http_host_start, s_http_host_v6_start, s_http_host_v6, s_http_host_v6_zone_start, s_http_host_v6_zone,
                  s_http_host_port_start, s_http_userinfo, s_http_userinfo_start} then None else Some u')"

text \<open>The component a state belongs to; \<open>Skip\<close> are the delimiters.\<close>

datatype url_part = BadUrl | Skip | Component url_field

definition url_component :: "state \<Rightarrow> url_part" where
  "url_component s =
     (if s = s_dead then BadUrl
      else if s \<in> {s_req_schema_slash, s_req_schema_slash_slash, s_req_server_start, s_req_query_string_start, s_req_fragment_start} then Skip
      else if s = s_req_schema then Component UF_SCHEMA
      else if s = s_req_server_with_at \<or> s = s_req_server then Component UF_HOST
      else if s = s_req_path then Component UF_PATH
      else if s = s_req_query_string then Component UF_QUERY
      else if s = s_req_fragment then Component UF_FRAGMENT
      else BadUrl)"

fun url_loop :: "bytes \<Rightarrow> nat \<Rightarrow> state \<Rightarrow> url_field \<Rightarrow> bool \<Rightarrow> http_parser_url \<Rightarrow> (bool \<times> http_parser_url) option" where
  "url_loop [] p s old_uf found_at u = Some (found_at, u)"
| "url_loop (ch # cs) p s old_uf found_at u =
     (let s' = parse_url_char s ch; found' = (found_at \<or> s' = s_req_server_with_at) in
      case url_component s' of
        BadUrl \<Rightarrow> None
      | Skip \<Rightarrow> url_loop cs (p + 1) s' old_uf found_at u
      | Component uf \<Rightarrow>
          if uf = old_uf then url_loop cs (p + 1) s' old_uf found' (extend_field uf u)
          else url_loop cs (p + 1) s' uf found' (begin_field uf p u))"

text \<open>
  \<open>strtoul(buf + off, NULL, 10)\<close> on a position that holds a digit: it reads on to the first byte
  that is no digit, wherever that is. \<open>mem\<close> is the memory from the position on; \<open>None\<close> is a read
  behind it.
\<close>

fun digits_value :: "bytes \<Rightarrow> nat \<Rightarrow> nat option" where
  "digits_value [] v = None"
| "digits_value (ch # cs) v = (if IS_NUM ch then digits_value cs (10 * v + unat (ch - byte_of CHR ''0'')) else Some v)"

datatype url_result = UrlFault | UrlError | UrlOk http_parser_url

text \<open>\<open>http_parser_parse_url\<close> on the first \<open>buflen\<close> bytes of \<open>mem\<close>. A number too big for \<open>long\<close> is too big for a port.\<close>

definition http_parser_parse_url :: "bytes \<Rightarrow> nat \<Rightarrow> bool \<Rightarrow> http_parser_url \<Rightarrow> url_result" where
  "http_parser_parse_url mem buflen is_connect u =
     (let buf = take buflen mem in
      case url_loop buf 0 (if is_connect then s_req_server_start else s_req_spaces_before_url) UF_MAX False
             (u\<lparr>port := 0, field_set := {}\<rparr>) of
        None \<Rightarrow> UrlError
      | Some (found_at, u1) \<Rightarrow>
          if UF_SCHEMA \<in> field_set u1 \<and> UF_HOST \<notin> field_set u1 then UrlError
          else case (if UF_HOST \<in> field_set u1 then http_parse_host buf found_at u1 else Some u1) of
            None \<Rightarrow> UrlError
          | Some u2 \<Rightarrow>
              if is_connect \<and> field_set u2 \<noteq> {UF_HOST, UF_PORT} then UrlError
              else if UF_PORT \<in> field_set u2 then
                (case digits_value (drop (unat (field_off u2 UF_PORT)) mem) 0 of
                   None \<Rightarrow> UrlFault
                 | Some v \<Rightarrow> if v > 0xFFFF then UrlError else UrlOk (u2\<lparr>port := of_nat v\<rparr>))
              else UrlOk u2)"

section \<open>The components lie inside the URL\<close>

definition field_end :: "url_field \<Rightarrow> http_parser_url \<Rightarrow> nat" where
  "field_end f u = unat (field_off u f) + unat (field_len u f)"

definition fields_until :: "nat \<Rightarrow> http_parser_url \<Rightarrow> bool" where
  "fields_until p u \<longleftrightarrow> (\<forall>f \<in> field_set u. field_end f u \<le> p)"

lemma small_field: "p < 65536 \<Longrightarrow> unat (of_nat p :: u16) = p"
  by (simp add: unat_of_nat)

lemma longer_field:
  assumes "n + unat (l :: u16) \<le> p" and "p < 65535"
  shows "n + unat (l + 1) \<le> Suc p"
proof -
  have "unat (l + 1) = (unat l + 1) mod 2 ^ 16"
    by (simp add: unat_word_ariths)
  with assms show ?thesis by simp
qed

lemma begin_field_until: "\<lbrakk>fields_until p u; p + 1 < 65536\<rbrakk> \<Longrightarrow> fields_until (p + 1) (begin_field f p u)"
  by (auto simp: fields_until_def field_end_def begin_field_def small_field)

lemma extend_field_until: "\<lbrakk>fields_until p u; p + 1 < 65536; field_end f u \<le> p\<rbrakk> \<Longrightarrow> fields_until (p + 1) (extend_field f u)"
  by (auto simp: fields_until_def field_end_def extend_field_def longer_field)

lemma fields_until_later: "fields_until p u \<Longrightarrow> fields_until (p + 1) u"
  by (auto simp: fields_until_def)

lemma url_loop_until:
  "\<lbrakk>url_loop cs p s old_uf at u = Some (at', u'); fields_until p u; old_uf = UF_MAX \<or> old_uf \<in> field_set u; p + length cs < 65536\<rbrakk>
   \<Longrightarrow> fields_until (p + length cs) u'"
proof (induction cs p s old_uf at u rule: url_loop.induct)
  case (2 ch cs p s old_uf at u)
  let ?s = "parse_url_char s ch"
  show ?case
  proof (cases "url_component ?s")
    case BadUrl
    with 2(4) show ?thesis by (simp add: Let_def)
  next
    case Skip
    with 2(1)[OF refl refl Skip] 2(4-7) fields_until_later[OF 2(5)] show ?thesis
      by (simp add: Let_def)
  next
    case (Component uf)
    then have "uf \<noteq> UF_MAX"
      by (auto simp: url_component_def split: if_splits)
    show ?thesis
    proof (cases "uf = old_uf")
      case True
      then have "field_end uf u \<le> p"
        using 2(5,6) \<open>uf \<noteq> UF_MAX\<close> by (auto simp: fields_until_def)
      with True 2(2)[OF refl refl Component True] 2(4-7) Component extend_field_until[OF 2(5)] show ?thesis
        by (simp add: Let_def extend_field_def)
    next
      case False
      with 2(3)[OF refl refl Component False] 2(4-7) Component begin_field_until[OF 2(5), of uf] show ?thesis
        by (simp add: Let_def begin_field_def)
    qed
  qed
qed simp

lemma url_loop_set:
  "\<lbrakk>url_loop cs p s old_uf at u = Some (at', u'); UF_PORT \<notin> field_set u; UF_USERINFO \<notin> field_set u\<rbrakk>
   \<Longrightarrow> UF_PORT \<notin> field_set u' \<and> UF_USERINFO \<notin> field_set u'"
proof (induction cs p s old_uf at u rule: url_loop.induct)
  case (2 ch cs p s old_uf at u)
  have c: "url_component s \<noteq> Component UF_PORT" "url_component s \<noteq> Component UF_USERINFO" for s
    by (auto simp: url_component_def)
  show ?case
    using 2 c[of "parse_url_char s ch"]
    by (cases "url_component (parse_url_char s ch)") (auto simp: Let_def begin_field_def extend_field_def split: if_splits)
qed simp

text \<open>The host parser moves the component of the host to the address in it.\<close>

definition host_until :: "nat \<Rightarrow> nat \<Rightarrow> http_host_state \<Rightarrow> http_parser_url \<Rightarrow> bool" where
  "host_until m p s u \<longleftrightarrow> field_end UF_HOST u \<le> p \<and>
     (UF_PORT \<in> field_set u \<longrightarrow> field_end UF_PORT u \<le> p) \<and> (UF_USERINFO \<in> field_set u \<longrightarrow> field_end UF_USERINFO u \<le> p) \<and>
     (\<forall>f \<in> field_set u. f \<noteq> UF_HOST \<longrightarrow> f \<noteq> UF_PORT \<longrightarrow> f \<noteq> UF_USERINFO \<longrightarrow> field_end f u \<le> m) \<and>
     (s \<in> {s_http_userinfo_start, s_http_userinfo, s_http_host_start, s_http_host_v6_start} \<longrightarrow> field_len u UF_HOST = 0) \<and>
     (s = s_http_userinfo \<longrightarrow> field_end UF_USERINFO u \<le> p) \<and> (s = s_http_host_port \<longrightarrow> field_end UF_PORT u \<le> p)"

lemmas until_defs = host_until_def fields_until_def field_end_def host_field_def begin_field_def extend_field_def small_field longer_field

lemma host_field_until:
  assumes "host_until m p s u" and "http_parse_host_char s ch = new_s" and "new_s \<noteq> s_http_host_dead" and p: "p < 65535"
  shows "host_until m (p + 1) new_s (host_field s new_s p u)"
  using assms by (cases s) (auto simp: http_parse_host_char_def until_defs le_SucI split: if_splits)

lemma host_loop_until:
  "\<lbrakk>host_loop cs p s u = Some (t, u'); host_until m p s u; p + length cs < 65536\<rbrakk> \<Longrightarrow> host_until m (p + length cs) t u'"
proof (induction cs p s u rule: host_loop.induct)
  case (2 ch cs p s u)
  let ?s = "http_parse_host_char s ch"
  have "?s \<noteq> s_http_host_dead"
    using 2(2) by (auto simp: Let_def)
  with 2 host_field_until[OF 2(3) refl this] show ?case
    by (simp add: Let_def)
qed simp

lemma host_until_fields:
  assumes "host_until m p s u" and "p \<le> m"
  shows "fields_until m u"
  unfolding fields_until_def
proof
  fix f assume "f \<in> field_set u"
  then show "field_end f u \<le> m"
    using assms unfolding host_until_def by (metis order_trans)
qed

lemma http_parse_host_until:
  assumes host: "http_parse_host buf found_at u = Some u'" and u: "fields_until (length buf) u" "UF_HOST \<in> field_set u"
    and new: "UF_PORT \<notin> field_set u" "UF_USERINFO \<notin> field_set u" and small: "length buf < 65536"
  shows "fields_until (length buf) u'"
proof -
  let ?off = "unat (field_off u UF_HOST)" and ?n = "unat (field_len u UF_HOST)"
  let ?s = "if found_at then s_http_userinfo_start else s_http_host_start" and ?u = "u\<lparr>field_len := (field_len u)(UF_HOST := 0)\<rparr>"
  let ?m = "length buf"
  have n: "?off + ?n \<le> ?m"
    using u by (auto simp: fields_until_def field_end_def)
  obtain t where t: "host_loop (take ?n (drop ?off buf)) ?off ?s ?u = Some (t, u')"
    using host by (auto simp: http_parse_host_def Let_def split: option.splits if_splits)
  have "host_until ?m ?off ?s ?u"
    using u(1) new by (auto simp: host_until_def fields_until_def field_end_def)
  from host_loop_until[OF t this] n small have "host_until ?m (?off + ?n) t u'"
    by simp
  then show ?thesis
    by (rule host_until_fields[OF _ n])
qed

text \<open>
  Every component reported for a URL of at most 65535 bytes lies inside it.
\<close>

theorem url_fields_inside:
  assumes "http_parser_parse_url mem buflen is_connect u = UrlOk u'" and "f \<in> field_set u'" and "buflen < 65536"
  shows "unat (field_off u' f) + unat (field_len u' f) \<le> buflen"
proof -
  let ?buf = "take buflen mem"
  obtain found_at u1 u2 where l: "url_loop ?buf 0 (if is_connect then s_req_server_start else s_req_spaces_before_url) UF_MAX False
      (u\<lparr>port := 0, field_set := {}\<rparr>) = Some (found_at, u1)"
    and h: "(if UF_HOST \<in> field_set u1 then http_parse_host ?buf found_at u1 else Some u1) = Some u2"
    and u': "field_set u' = field_set u2" "field_off u' = field_off u2" "field_len u' = field_len u2"
    using assms(1) by (fastforce simp: http_parser_parse_url_def Let_def split: option.splits if_splits)
  have "fields_until (length ?buf) u1 \<and> UF_PORT \<notin> field_set u1 \<and> UF_USERINFO \<notin> field_set u1"
    using url_loop_until[OF l] url_loop_set[OF l] assms(3) by (simp add: fields_until_def)
  with h http_parse_host_until[of ?buf found_at u1 u2] assms(3) have "fields_until (length ?buf) u2"
    by (auto split: if_splits)
  with assms(2) u' have "field_end f u' \<le> length ?buf"
    by (simp add: fields_until_def field_end_def)
  then show ?thesis
    by (simp add: field_end_def)
qed

end
