(* ===== verification/Http_Parser.thy ===== *)
theory Http_Parser
  imports Http_Url
begin

text \<open>
  The message parser of \<open>app/http/HttpParser.cc\<close>, \<open>http_parser_execute\<close>, in strict mode: one
  definition per state of its \<open>switch\<close>, the loops over a header field and a header value, and
  the main loop with its \<open>reexecute\<close> label.

  \<open>p\<close> is the offset \<open>pos\<close> into the input, a mark an optional offset. A failed assertion and a
  read outside the input or a string constant are \<open>Abort\<close>. Callbacks get the parser by value:
  those of the repository do not change it (none pauses the parser).
\<close>

section \<open>The parser\<close>

datatype http_parser_type = HTTP_REQUEST | HTTP_RESPONSE | HTTP_BOTH

datatype (plugins only: code) http_method =
    HTTP_DELETE | HTTP_GET | HTTP_HEAD | HTTP_POST | HTTP_PUT | HTTP_CONNECT | HTTP_OPTIONS | HTTP_TRACE
  | HTTP_COPY | HTTP_LOCK | HTTP_MKCOL | HTTP_MOVE | HTTP_PROPFIND | HTTP_PROPPATCH | HTTP_SEARCH | HTTP_UNLOCK
  | HTTP_BIND | HTTP_REBIND | HTTP_UNBIND | HTTP_ACL
  | HTTP_REPORT | HTTP_MKACTIVITY | HTTP_CHECKOUT | HTTP_MERGE
  | HTTP_MSEARCH | HTTP_NOTIFY | HTTP_SUBSCRIBE | HTTP_UNSUBSCRIBE
  | HTTP_PATCH | HTTP_PURGE | HTTP_MKCALENDAR | HTTP_LINK | HTTP_UNLINK

primrec method_strings :: "http_method \<Rightarrow> string" where
  "method_strings HTTP_DELETE = ''DELETE''"
| "method_strings HTTP_GET = ''GET''"
| "method_strings HTTP_HEAD = ''HEAD''"
| "method_strings HTTP_POST = ''POST''"
| "method_strings HTTP_PUT = ''PUT''"
| "method_strings HTTP_CONNECT = ''CONNECT''"
| "method_strings HTTP_OPTIONS = ''OPTIONS''"
| "method_strings HTTP_TRACE = ''TRACE''"
| "method_strings HTTP_COPY = ''COPY''"
| "method_strings HTTP_LOCK = ''LOCK''"
| "method_strings HTTP_MKCOL = ''MKCOL''"
| "method_strings HTTP_MOVE = ''MOVE''"
| "method_strings HTTP_PROPFIND = ''PROPFIND''"
| "method_strings HTTP_PROPPATCH = ''PROPPATCH''"
| "method_strings HTTP_SEARCH = ''SEARCH''"
| "method_strings HTTP_UNLOCK = ''UNLOCK''"
| "method_strings HTTP_BIND = ''BIND''"
| "method_strings HTTP_REBIND = ''REBIND''"
| "method_strings HTTP_UNBIND = ''UNBIND''"
| "method_strings HTTP_ACL = ''ACL''"
| "method_strings HTTP_REPORT = ''REPORT''"
| "method_strings HTTP_MKACTIVITY = ''MKACTIVITY''"
| "method_strings HTTP_CHECKOUT = ''CHECKOUT''"
| "method_strings HTTP_MERGE = ''MERGE''"
| "method_strings HTTP_MSEARCH = ''M-SEARCH''"
| "method_strings HTTP_NOTIFY = ''NOTIFY''"
| "method_strings HTTP_SUBSCRIBE = ''SUBSCRIBE''"
| "method_strings HTTP_UNSUBSCRIBE = ''UNSUBSCRIBE''"
| "method_strings HTTP_PATCH = ''PATCH''"
| "method_strings HTTP_PURGE = ''PURGE''"
| "method_strings HTTP_MKCALENDAR = ''MKCALENDAR''"
| "method_strings HTTP_LINK = ''LINK''"
| "method_strings HTTP_UNLINK = ''UNLINK''"

definition http_method_str :: "http_method \<Rightarrow> string" where
  "http_method_str m = method_strings m"

datatype (plugins only: code) http_errno =
    HPE_OK
  | HPE_CB_message_begin | HPE_CB_url | HPE_CB_header_field | HPE_CB_header_value | HPE_CB_headers_complete
  | HPE_CB_body | HPE_CB_message_complete | HPE_CB_status | HPE_CB_chunk_header | HPE_CB_chunk_complete
  | HPE_INVALID_EOF_STATE | HPE_HEADER_OVERFLOW | HPE_CLOSED_CONNECTION | HPE_INVALID_VERSION | HPE_INVALID_STATUS
  | HPE_INVALID_METHOD | HPE_INVALID_URL | HPE_INVALID_HOST | HPE_INVALID_PORT | HPE_INVALID_PATH
  | HPE_INVALID_QUERY_STRING | HPE_INVALID_FRAGMENT | HPE_LF_EXPECTED | HPE_INVALID_HEADER_TOKEN
  | HPE_INVALID_CONTENT_LENGTH | HPE_UNEXPECTED_CONTENT_LENGTH | HPE_INVALID_CHUNK_SIZE | HPE_INVALID_CONSTANT
  | HPE_INVALID_INTERNAL_STATE | HPE_STRICT | HPE_PAUSED | HPE_UNKNOWN

datatype (plugins only: code) header_states =
    h_general | h_C | h_CO | h_CON
  | h_matching_connection | h_matching_proxy_connection | h_matching_content_length
  | h_matching_transfer_encoding | h_matching_upgrade
  | h_connection | h_content_length | h_transfer_encoding | h_upgrade
  | h_matching_transfer_encoding_chunked | h_matching_connection_token_start | h_matching_connection_keep_alive
  | h_matching_connection_close | h_matching_connection_upgrade | h_matching_connection_token
  | h_transfer_encoding_chunked | h_connection_keep_alive | h_connection_close | h_connection_upgrade

text \<open>The bit numbers of \<open>flags\<close>.\<close>

definition F_CHUNKED :: nat where "F_CHUNKED = 0"
definition F_CONNECTION_KEEP_ALIVE :: nat where "F_CONNECTION_KEEP_ALIVE = 1"
definition F_CONNECTION_CLOSE :: nat where "F_CONNECTION_CLOSE = 2"
definition F_CONNECTION_UPGRADE :: nat where "F_CONNECTION_UPGRADE = 3"
definition F_TRAILING :: nat where "F_TRAILING = 4"
definition F_UPGRADE :: nat where "F_UPGRADE = 5"
definition F_SKIPBODY :: nat where "F_SKIPBODY = 6"
definition F_CONTENTLENGTH :: nat where "F_CONTENTLENGTH = 7"

definition HTTP_MAX_HEADER_SIZE :: nat where "HTTP_MAX_HEADER_SIZE = 80 * 1024"
definition ULLONG_MAX :: u64 where "ULLONG_MAX = - 1"

record HttpParser =
  p_type :: http_parser_type
  flags :: u8
  state :: state
  header_state :: header_states
  index :: nat
  lenient_http_headers :: bool
  nread :: u32
  content_length :: u64
  http_major :: u16
  http_minor :: u16
  status_code :: u16
  p_method :: http_method
  http_errno :: http_errno
  upgrade :: bool

definition http_parser_init :: "http_parser_type \<Rightarrow> HttpParser" where
  "http_parser_init t = \<lparr>p_type = t, flags = 0,
     state = (if t = HTTP_REQUEST then s_start_req else if t = HTTP_RESPONSE then s_start_res else s_start_req_or_res),
     header_state = h_general, index = 0, lenient_http_headers = False, nread = 0, content_length = 0,
     http_major = 0, http_minor = 0, status_code = 0, p_method = HTTP_DELETE, http_errno = HPE_OK, upgrade = False\<rparr>"

text \<open>The same for a parser that is being executed, which has more fields.\<close>

definition http_message_needs_eof :: "'z HttpParser_scheme \<Rightarrow> bool" where
  "http_message_needs_eof parser \<longleftrightarrow>
     \<not> (p_type parser = HTTP_REQUEST) \<and>
     \<not> (status_code parser div 100 = 1 \<or> status_code parser = 204 \<or> status_code parser = 304 \<or> bit (flags parser) F_SKIPBODY) \<and>
     \<not> (bit (flags parser) F_CHUNKED \<or> content_length parser \<noteq> ULLONG_MAX)"

definition http_should_keep_alive :: "'z HttpParser_scheme \<Rightarrow> bool" where
  "http_should_keep_alive parser \<longleftrightarrow>
     (if http_major parser > 0 \<and> http_minor parser > 0 then \<not> bit (flags parser) F_CONNECTION_CLOSE
      else bit (flags parser) F_CONNECTION_KEEP_ALIVE) \<and> \<not> http_message_needs_eof parser"

definition start_state :: "'z HttpParser_scheme \<Rightarrow> state" where
  "start_state parser = (if p_type parser = HTTP_REQUEST then s_start_req else s_start_res)"

definition NEW_MESSAGE :: "'z HttpParser_scheme \<Rightarrow> state" where
  "NEW_MESSAGE parser = (if http_should_keep_alive parser then start_state parser else s_dead)"

definition PARSING_HEADER :: "state \<Rightarrow> bool" where
  "PARSING_HEADER s \<longleftrightarrow> s \<notin> {s_chunk_data, s_chunk_data_almost_done, s_chunk_data_done, s_body_identity, s_body_identity_eof, s_message_done}"

definition http_body_is_final :: "HttpParser \<Rightarrow> bool" where
  "http_body_is_final parser \<longleftrightarrow> state parser = s_message_done"

text \<open>\<open>None\<close> is the failed assertion.\<close>

definition http_parser_pause :: "bool \<Rightarrow> HttpParser \<Rightarrow> HttpParser option" where
  "http_parser_pause paused parser =
     (if http_errno parser = HPE_OK \<or> http_errno parser = HPE_PAUSED
      then Some (parser\<lparr>http_errno := (if paused then HPE_PAUSED else HPE_OK)\<rparr>) else None)"

section \<open>Execution\<close>

datatype field = Header_field | Header_value | Url | Body | Status

record 'a exec = HttpParser +
  pos :: nat
  marks :: "field \<Rightarrow> nat option"
  app :: 'a

type_synonym 'a http_cb = "HttpParser \<Rightarrow> 'a \<Rightarrow> int \<times> 'a"
type_synonym 'a http_data_cb = "HttpParser \<Rightarrow> bytes \<Rightarrow> 'a \<Rightarrow> int \<times> 'a"

record 'a http_parser_settings =
  on_message_begin :: "'a http_cb option"
  on_url :: "'a http_data_cb option"
  on_status :: "'a http_data_cb option"
  on_header_field :: "'a http_data_cb option"
  on_header_value :: "'a http_data_cb option"
  on_headers_complete :: "'a http_cb option"
  on_body :: "'a http_data_cb option"
  on_message_complete :: "'a http_cb option"
  on_chunk_header :: "'a http_cb option"
  on_chunk_complete :: "'a http_cb option"

primrec data_cb :: "field \<Rightarrow> 'a http_parser_settings \<Rightarrow> 'a http_data_cb option" where
  "data_cb Header_field S = on_header_field S"
| "data_cb Header_value S = on_header_value S"
| "data_cb Url S = on_url S"
| "data_cb Body S = on_body S"
| "data_cb Status S = on_status S"

primrec data_errno :: "field \<Rightarrow> http_errno" where
  "data_errno Header_field = HPE_CB_header_field"
| "data_errno Header_value = HPE_CB_header_value"
| "data_errno Url = HPE_CB_url"
| "data_errno Body = HPE_CB_body"
| "data_errno Status = HPE_CB_status"

text \<open>
  How the code of a state ends: \<open>break\<close> (on to the next byte), \<open>REEXECUTE\<close>, \<open>goto error\<close> with
  the error number, a \<open>return\<close>, or an abort.
\<close>

datatype 'a step = Next "'a exec" | Again "'a exec" | Fail http_errno "'a exec" | Return nat "'a exec" | Abort

text \<open>\<open>CALLBACK_NOTIFY_(FOR, ER)\<close>, \<open>CALLBACK_DATA_(FOR, LEN, ER)\<close> with the end of the data for its length; \<open>k\<close> is what follows.\<close>

definition callback_notify :: "'a http_cb option \<Rightarrow> http_errno \<Rightarrow> nat \<Rightarrow> 'a exec \<Rightarrow> ('a exec \<Rightarrow> 'a step) \<Rightarrow> 'a step" where
  "callback_notify cb err er c k =
     (if http_errno c \<noteq> HPE_OK then Abort
      else case cb of None \<Rightarrow> k c
      | Some f \<Rightarrow> (let (r, a) = f (HttpParser.truncate c) (app c)
                  in if r \<noteq> 0 then Return er (c\<lparr>app := a, http_errno := err\<rparr>) else k (c\<lparr>app := a\<rparr>)))"

definition callback_data ::
  "'a http_parser_settings \<Rightarrow> bytes \<Rightarrow> field \<Rightarrow> nat \<Rightarrow> nat \<Rightarrow> 'a exec \<Rightarrow> ('a exec \<Rightarrow> 'a step) \<Rightarrow> 'a step" where
  "callback_data S data f stop er c k =
     (if http_errno c \<noteq> HPE_OK then Abort
      else case marks c f of None \<Rightarrow> k c
      | Some m \<Rightarrow> (case data_cb f S of
          None \<Rightarrow> k (c\<lparr>marks := (marks c)(f := None)\<rparr>)
        | Some g \<Rightarrow> if stop < m \<or> length data < stop then Abort
                    else (let (r, a) = g (HttpParser.truncate c) (take (stop - m) (drop m data)) (app c)
                    in if r \<noteq> 0 then Return er (c\<lparr>app := a, http_errno := data_errno f\<rparr>)
                       else k (c\<lparr>app := a, marks := (marks c)(f := None)\<rparr>))))"

definition CALLBACK_NOTIFY :: "'a http_cb option \<Rightarrow> http_errno \<Rightarrow> 'a exec \<Rightarrow> ('a exec \<Rightarrow> 'a step) \<Rightarrow> 'a step" where
  "CALLBACK_NOTIFY cb err c k = callback_notify cb err (pos c + 1) c k"

definition CALLBACK_NOTIFY_NOADVANCE :: "'a http_cb option \<Rightarrow> http_errno \<Rightarrow> 'a exec \<Rightarrow> ('a exec \<Rightarrow> 'a step) \<Rightarrow> 'a step" where
  "CALLBACK_NOTIFY_NOADVANCE cb err c k = callback_notify cb err (pos c) c k"

definition CALLBACK_DATA :: "'a http_parser_settings \<Rightarrow> bytes \<Rightarrow> field \<Rightarrow> 'a exec \<Rightarrow> ('a exec \<Rightarrow> 'a step) \<Rightarrow> 'a step" where
  "CALLBACK_DATA S data f c k = callback_data S data f (pos c) (pos c + 1) c k"

definition CALLBACK_DATA_NOADVANCE :: "'a http_parser_settings \<Rightarrow> bytes \<Rightarrow> field \<Rightarrow> 'a exec \<Rightarrow> ('a exec \<Rightarrow> 'a step) \<Rightarrow> 'a step" where
  "CALLBACK_DATA_NOADVANCE S data f c k = callback_data S data f (pos c) (pos c) c k"

definition MARK :: "field \<Rightarrow> 'a exec \<Rightarrow> 'a exec" where
  "MARK f c = (if marks c f = None then c\<lparr>marks := (marks c)(f := Some (pos c))\<rparr> else c)"

definition COUNT_HEADER_SIZE :: "nat \<Rightarrow> 'a exec \<Rightarrow> ('a exec \<Rightarrow> 'a step) \<Rightarrow> 'a step" where
  "COUNT_HEADER_SIZE v c k =
     (let c' = c\<lparr>nread := nread c + of_nat v\<rparr>
      in if nread c' > of_nat HTTP_MAX_HEADER_SIZE then Fail HPE_HEADER_OVERFLOW c' else k c')"

definition STRICT_CHECK :: "bool \<Rightarrow> 'a exec \<Rightarrow> 'a step \<Rightarrow> 'a step" where
  "STRICT_CHECK cond c k = (if cond then Fail HPE_STRICT c else k)"

section \<open>Start lines\<close>

definition at_dead :: "u8 \<Rightarrow> 'a exec \<Rightarrow> 'a step" where
  "at_dead ch c = (if ch = CR \<or> ch = LF then Next c else Fail HPE_CLOSED_CONNECTION c)"

definition at_start_req_or_res :: "'a http_parser_settings \<Rightarrow> u8 \<Rightarrow> 'a exec \<Rightarrow> 'a step" where
  "at_start_req_or_res S ch c =
     (if ch = CR \<or> ch = LF then Next c
      else let c = c\<lparr>flags := 0, content_length := ULLONG_MAX\<rparr> in
        if ch = byte_of CHR ''H''
        then CALLBACK_NOTIFY (on_message_begin S) HPE_CB_message_begin (c\<lparr>state := s_res_or_resp_H\<rparr>) Next
        else Again (c\<lparr>p_type := HTTP_REQUEST, state := s_start_req\<rparr>))"

definition at_res_or_resp_H :: "u8 \<Rightarrow> 'a exec \<Rightarrow> 'a step" where
  "at_res_or_resp_H ch c =
     (if ch = byte_of CHR ''T'' then Next (c\<lparr>p_type := HTTP_RESPONSE, state := s_res_HT\<rparr>)
      else if ch \<noteq> byte_of CHR ''E'' then Fail HPE_INVALID_CONSTANT c
      else Next (c\<lparr>p_type := HTTP_REQUEST, p_method := HTTP_HEAD, index := 2, state := s_req_method\<rparr>))"

definition at_start_res :: "'a http_parser_settings \<Rightarrow> u8 \<Rightarrow> 'a exec \<Rightarrow> 'a step" where
  "at_start_res S ch c =
     (let c = c\<lparr>flags := 0, content_length := ULLONG_MAX\<rparr> in
      if ch = byte_of CHR ''H''
      then CALLBACK_NOTIFY (on_message_begin S) HPE_CB_message_begin (c\<lparr>state := s_res_H\<rparr>) Next
      else if ch = CR \<or> ch = LF then CALLBACK_NOTIFY (on_message_begin S) HPE_CB_message_begin c Next
      else Fail HPE_INVALID_CONSTANT c)"

text \<open>\<open>STRICT_CHECK(ch != e)\<close> and a new state: the letters of \<open>HTTP/\<close> and expected line feeds.\<close>

definition at_literal :: "u8 \<Rightarrow> state \<Rightarrow> u8 \<Rightarrow> 'a exec \<Rightarrow> 'a step" where
  "at_literal e s ch c = STRICT_CHECK (ch \<noteq> e) c (Next (c\<lparr>state := s\<rparr>))"

definition digit :: "u8 \<Rightarrow> u16" where
  "digit ch = ucast (ch - byte_of CHR ''0'')"

definition at_first_http_major :: "char \<Rightarrow> state \<Rightarrow> u8 \<Rightarrow> 'a exec \<Rightarrow> 'a step" where
  "at_first_http_major low s ch c =
     (if ch < byte_of low \<or> ch > byte_of CHR ''9'' then Fail HPE_INVALID_VERSION c
      else Next (c\<lparr>http_major := digit ch, state := s\<rparr>))"

definition at_http_major :: "state \<Rightarrow> u8 \<Rightarrow> 'a exec \<Rightarrow> 'a step" where
  "at_http_major s ch c =
     (if ch = byte_of CHR ''.'' then Next (c\<lparr>state := s\<rparr>)
      else if \<not> IS_NUM ch then Fail HPE_INVALID_VERSION c
      else let c = c\<lparr>http_major := http_major c * 10 + digit ch\<rparr>
           in if http_major c > 999 then Fail HPE_INVALID_VERSION c else Next c)"

definition at_first_http_minor :: "state \<Rightarrow> u8 \<Rightarrow> 'a exec \<Rightarrow> 'a step" where
  "at_first_http_minor s ch c =
     (if \<not> IS_NUM ch then Fail HPE_INVALID_VERSION c else Next (c\<lparr>http_minor := digit ch, state := s\<rparr>))"

definition minor_digit :: "u8 \<Rightarrow> 'a exec \<Rightarrow> 'a step" where
  "minor_digit ch c =
     (if \<not> IS_NUM ch then Fail HPE_INVALID_VERSION c
      else let c = c\<lparr>http_minor := http_minor c * 10 + digit ch\<rparr>
           in if http_minor c > 999 then Fail HPE_INVALID_VERSION c else Next c)"

definition at_res_http_minor :: "u8 \<Rightarrow> 'a exec \<Rightarrow> 'a step" where
  "at_res_http_minor ch c =
     (if ch = byte_of CHR '' '' then Next (c\<lparr>state := s_res_first_status_code\<rparr>) else minor_digit ch c)"

definition at_res_first_status_code :: "u8 \<Rightarrow> 'a exec \<Rightarrow> 'a step" where
  "at_res_first_status_code ch c =
     (if \<not> IS_NUM ch then (if ch = byte_of CHR '' '' then Next c else Fail HPE_INVALID_STATUS c)
      else Next (c\<lparr>status_code := digit ch, state := s_res_status_code\<rparr>))"

definition at_res_status_code :: "u8 \<Rightarrow> 'a exec \<Rightarrow> 'a step" where
  "at_res_status_code ch c =
     (if \<not> IS_NUM ch then
        if ch = byte_of CHR '' '' then Next (c\<lparr>state := s_res_status_start\<rparr>)
        else if ch = CR then Next (c\<lparr>state := s_res_line_almost_done\<rparr>)
        else if ch = LF then Next (c\<lparr>state := s_header_field_start\<rparr>)
        else Fail HPE_INVALID_STATUS c
      else let c = c\<lparr>status_code := status_code c * 10 + digit ch\<rparr>
           in if status_code c > 999 then Fail HPE_INVALID_STATUS c else Next c)"

definition at_res_status_start :: "u8 \<Rightarrow> 'a exec \<Rightarrow> 'a step" where
  "at_res_status_start ch c =
     (if ch = CR then Next (c\<lparr>state := s_res_line_almost_done\<rparr>)
      else if ch = LF then Next (c\<lparr>state := s_header_field_start\<rparr>)
      else Next ((MARK Status c)\<lparr>state := s_res_status, index := 0\<rparr>))"

definition at_res_status :: "'a http_parser_settings \<Rightarrow> bytes \<Rightarrow> u8 \<Rightarrow> 'a exec \<Rightarrow> 'a step" where
  "at_res_status S data ch c =
     (if ch = CR then CALLBACK_DATA S data Status (c\<lparr>state := s_res_line_almost_done\<rparr>) Next
      else if ch = LF then CALLBACK_DATA S data Status (c\<lparr>state := s_header_field_start\<rparr>) Next
      else Next c)"

definition first_method :: "u8 \<Rightarrow> http_method option" where
  "first_method ch = map_of (map (\<lambda>(l, m). (byte_of l, m))
     [(CHR ''A'', HTTP_ACL), (CHR ''B'', HTTP_BIND), (CHR ''C'', HTTP_CONNECT), (CHR ''D'', HTTP_DELETE), (CHR ''G'', HTTP_GET),
      (CHR ''H'', HTTP_HEAD), (CHR ''L'', HTTP_LOCK), (CHR ''M'', HTTP_MKCOL), (CHR ''N'', HTTP_NOTIFY), (CHR ''O'', HTTP_OPTIONS),
      (CHR ''P'', HTTP_POST), (CHR ''R'', HTTP_REPORT), (CHR ''S'', HTTP_SUBSCRIBE), (CHR ''T'', HTTP_TRACE), (CHR ''U'', HTTP_UNLOCK)]) ch"

definition at_start_req :: "'a http_parser_settings \<Rightarrow> u8 \<Rightarrow> 'a exec \<Rightarrow> 'a step" where
  "at_start_req S ch c =
     (if ch = CR \<or> ch = LF then Next c
      else let c = c\<lparr>flags := 0, content_length := ULLONG_MAX\<rparr> in
        if \<not> IS_ALPHA ch then Fail HPE_INVALID_METHOD c
        else let c = c\<lparr>p_method := HTTP_DELETE, index := 1\<rparr> in
          case first_method ch of
            None \<Rightarrow> Fail HPE_INVALID_METHOD c
          | Some m \<Rightarrow> CALLBACK_NOTIFY (on_message_begin S) HPE_CB_message_begin (c\<lparr>p_method := m, state := s_req_method\<rparr>) Next)"

text \<open>The table of the method, the index and the letter that lead to another method.\<close>

definition other_method :: "http_method \<Rightarrow> nat \<Rightarrow> u8 \<Rightarrow> http_method option" where
  "other_method m i ch = map_of (map (\<lambda>(m, i, l, m'). ((m, i, byte_of l), m'))
     [(HTTP_POST, 1, CHR ''U'', HTTP_PUT), (HTTP_POST, 1, CHR ''A'', HTTP_PATCH), (HTTP_CONNECT, 1, CHR ''H'', HTTP_CHECKOUT),
      (HTTP_CONNECT, 2, CHR ''P'', HTTP_COPY), (HTTP_MKCOL, 1, CHR ''O'', HTTP_MOVE), (HTTP_MKCOL, 1, CHR ''E'', HTTP_MERGE),
      (HTTP_MKCOL, 2, CHR ''A'', HTTP_MKACTIVITY), (HTTP_MKCOL, 3, CHR ''A'', HTTP_MKCALENDAR), (HTTP_SUBSCRIBE, 1, CHR ''E'', HTTP_SEARCH),
      (HTTP_REPORT, 2, CHR ''B'', HTTP_REBIND), (HTTP_POST, 1, CHR ''R'', HTTP_PROPFIND), (HTTP_PROPFIND, 4, CHR ''P'', HTTP_PROPPATCH),
      (HTTP_PUT, 2, CHR ''R'', HTTP_PURGE), (HTTP_LOCK, 1, CHR ''I'', HTTP_LINK), (HTTP_UNLOCK, 2, CHR ''S'', HTTP_UNSUBSCRIBE),
      (HTTP_UNLOCK, 2, CHR ''B'', HTTP_UNBIND), (HTTP_UNLOCK, 3, CHR ''I'', HTTP_UNLINK)]) (m, i, ch)"

text \<open>A character of a NUL-terminated constant; \<open>None\<close> is a read behind its NUL.\<close>

definition const_at :: "string \<Rightarrow> nat \<Rightarrow> u8 option" where
  "const_at s i = (if i < length s then Some (byte_of (s ! i)) else if i = length s then Some 0 else None)"

definition at_req_method :: "u8 \<Rightarrow> 'a exec \<Rightarrow> 'a step" where
  "at_req_method ch c =
     (if ch = 0 then Fail HPE_INVALID_METHOD c
      else case const_at (method_strings (p_method c)) (index c) of None \<Rightarrow> Abort | Some m \<Rightarrow>
        if ch = byte_of CHR '' '' \<and> m = 0 then Next (c\<lparr>state := s_req_spaces_before_url, index := index c + 1\<rparr>)
        else if ch = m then Next (c\<lparr>index := index c + 1\<rparr>)
        else if IS_ALPHA ch then
          (case other_method (p_method c) (index c) ch of
             None \<Rightarrow> Fail HPE_INVALID_METHOD c
           | Some m' \<Rightarrow> Next (c\<lparr>p_method := m', index := index c + 1\<rparr>))
        else if ch = byte_of CHR ''-'' \<and> index c = 1 \<and> p_method c = HTTP_MKCOL
        then Next (c\<lparr>p_method := HTTP_MSEARCH, index := index c + 1\<rparr>)
        else Fail HPE_INVALID_METHOD c)"

definition url_step :: "u8 \<Rightarrow> 'a exec \<Rightarrow> 'a step" where
  "url_step ch c =
     (let c = c\<lparr>state := parse_url_char (state c) ch\<rparr>
      in if state c = s_dead then Fail HPE_INVALID_URL c else Next c)"

definition at_req_spaces_before_url :: "u8 \<Rightarrow> 'a exec \<Rightarrow> 'a step" where
  "at_req_spaces_before_url ch c =
     (if ch = byte_of CHR '' '' then Next c
      else let c = MARK Url c
           in url_step ch (if p_method c = HTTP_CONNECT then c\<lparr>state := s_req_server_start\<rparr> else c))"

definition at_req_schema :: "u8 \<Rightarrow> 'a exec \<Rightarrow> 'a step" where
  "at_req_schema ch c =
     (if ch = byte_of CHR '' '' \<or> ch = CR \<or> ch = LF then Fail HPE_INVALID_URL c else url_step ch c)"

definition at_req_url :: "'a http_parser_settings \<Rightarrow> bytes \<Rightarrow> u8 \<Rightarrow> 'a exec \<Rightarrow> 'a step" where
  "at_req_url S data ch c =
     (if ch = byte_of CHR '' '' then CALLBACK_DATA S data Url (c\<lparr>state := s_req_http_start\<rparr>) Next
      else if ch = CR \<or> ch = LF then
        CALLBACK_DATA S data Url (c\<lparr>http_major := 0, http_minor := 9,
          state := if ch = CR then s_req_line_almost_done else s_header_field_start\<rparr>) Next
      else url_step ch c)"

definition at_req_http_start :: "u8 \<Rightarrow> 'a exec \<Rightarrow> 'a step" where
  "at_req_http_start ch c =
     (if ch = byte_of CHR ''H'' then Next (c\<lparr>state := s_req_http_H\<rparr>)
      else if ch = byte_of CHR '' '' then Next c else Fail HPE_INVALID_CONSTANT c)"

definition at_req_http_minor :: "u8 \<Rightarrow> 'a exec \<Rightarrow> 'a step" where
  "at_req_http_minor ch c =
     (if ch = CR then Next (c\<lparr>state := s_req_line_almost_done\<rparr>)
      else if ch = LF then Next (c\<lparr>state := s_header_field_start\<rparr>)
      else minor_digit ch c)"

text \<open>\<open>s_req_line_almost_done\<close>, and \<open>s_header_almost_done\<close> below.\<close>

definition expect_LF :: "state \<Rightarrow> u8 \<Rightarrow> 'a exec \<Rightarrow> 'a step" where
  "expect_LF s ch c = (if ch \<noteq> LF then Fail HPE_LF_EXPECTED c else Next (c\<lparr>state := s\<rparr>))"

section \<open>Headers\<close>

text \<open>The state in which the first token character of a header field leaves the matcher.\<close>

definition first_header_state :: "u8 \<Rightarrow> header_states" where
  "first_header_state t =
     (if t = byte_of CHR ''c'' then h_C else if t = byte_of CHR ''p'' then h_matching_proxy_connection
      else if t = byte_of CHR ''t'' then h_matching_transfer_encoding
      else if t = byte_of CHR ''u'' then h_matching_upgrade else h_general)"

definition at_header_field_start :: "u8 \<Rightarrow> 'a exec \<Rightarrow> 'a step" where
  "at_header_field_start ch c =
     (if ch = CR then Next (c\<lparr>state := s_headers_almost_done\<rparr>)
      else if ch = LF then Again (c\<lparr>state := s_headers_almost_done\<rparr>)
      else let t = TOKEN ch in
        if t = 0 then Fail HPE_INVALID_HEADER_TOKEN c
        else Next ((MARK Header_field c)\<lparr>index := 0, state := s_header_field, header_state := first_header_state t\<rparr>))"

text \<open>
  A constant is matched by \<open>++index > sizeof(s) - 1 || t != s[index]\<close>, complete at
  \<open>sizeof(s) - 2\<close>; \<open>h\<close> goes on, \<open>full\<close> is the state of a match and \<open>other\<close> that of a mismatch.
\<close>

definition match_const :: "string \<Rightarrow> header_states \<Rightarrow> header_states \<Rightarrow> header_states \<Rightarrow> u8 \<Rightarrow> nat \<Rightarrow> (header_states \<times> nat) option" where
  "match_const s h full other t i =
     (let i = i + 1 in
      if i > length s then Some (other, i)
      else case const_at s i of None \<Rightarrow> None
      | Some e \<Rightarrow> Some (if t \<noteq> e then other else if i = length s - 1 then full else h, i))"

text \<open>One turn of the loop over a header field; \<open>t\<close> is the token of \<open>ch\<close>.\<close>

definition match_field :: "u8 \<Rightarrow> u8 \<Rightarrow> header_states \<Rightarrow> nat \<Rightarrow> (header_states \<times> nat) option" where
  "match_field t ch h i =
     (case h of
        h_general \<Rightarrow> Some (h_general, i)
      | h_C \<Rightarrow> Some (if t = byte_of CHR ''o'' then h_CO else h_general, i + 1)
      | h_CO \<Rightarrow> Some (if t = byte_of CHR ''n'' then h_CON else h_general, i + 1)
      | h_CON \<Rightarrow> Some (if t = byte_of CHR ''n'' then h_matching_connection
                     else if t = byte_of CHR ''t'' then h_matching_content_length else h_general, i + 1)
      | h_matching_connection \<Rightarrow> match_const ''connection'' h h_connection h_general t i
      | h_matching_proxy_connection \<Rightarrow> match_const ''proxy-connection'' h h_connection h_general t i
      | h_matching_content_length \<Rightarrow> match_const ''content-length'' h h_content_length h_general t i
      | h_matching_transfer_encoding \<Rightarrow> match_const ''transfer-encoding'' h h_transfer_encoding h_general t i
      | h_matching_upgrade \<Rightarrow> match_const ''upgrade'' h h_upgrade h_general t i
      | h_connection \<Rightarrow> Some (if ch \<noteq> byte_of CHR '' '' then h_general else h, i)
      | h_content_length \<Rightarrow> Some (if ch \<noteq> byte_of CHR '' '' then h_general else h, i)
      | h_transfer_encoding \<Rightarrow> Some (if ch \<noteq> byte_of CHR '' '' then h_general else h, i)
      | h_upgrade \<Rightarrow> Some (if ch \<noteq> byte_of CHR '' '' then h_general else h, i)
      | _ \<Rightarrow> None)"

fun field_loop :: "bytes \<Rightarrow> nat \<Rightarrow> header_states \<Rightarrow> nat \<Rightarrow> (nat \<times> header_states \<times> nat) option" where
  "field_loop [] p h i = Some (p, h, i)"
| "field_loop (ch # cs) p h i =
     (if TOKEN ch = 0 then Some (p, h, i)
      else case match_field (TOKEN ch) ch h i of None \<Rightarrow> None | Some (h', i') \<Rightarrow> field_loop cs (p + 1) h' i')"

definition at_header_field :: "'a http_parser_settings \<Rightarrow> bytes \<Rightarrow> 'a exec \<Rightarrow> 'a step" where
  "at_header_field S data c =
     (case field_loop (drop (pos c) data) (pos c) (header_state c) (index c) of
        None \<Rightarrow> Abort
      | Some (p, h, i) \<Rightarrow>
          COUNT_HEADER_SIZE (p - pos c) (c\<lparr>pos := p, header_state := h, index := i\<rparr>) (\<lambda>c.
            if p = length data then Next (c\<lparr>pos := p - 1\<rparr>)
            else if data ! p = byte_of CHR '':''
            then CALLBACK_DATA S data Header_field (c\<lparr>state := s_header_value_discard_ws\<rparr>) Next
            else Fail HPE_INVALID_HEADER_TOKEN c))"

definition at_header_value_start :: "u8 \<Rightarrow> 'a exec \<Rightarrow> 'a step" where
  "at_header_value_start ch c =
     (let c = (MARK Header_value c)\<lparr>state := s_header_value, index := 0\<rparr>; t = LOWER ch in
      case header_state c of
        h_upgrade \<Rightarrow> Next (c\<lparr>flags := set_bit F_UPGRADE (flags c), header_state := h_general\<rparr>)
      | h_transfer_encoding \<Rightarrow>
          Next (c\<lparr>header_state := if t = byte_of CHR ''c'' then h_matching_transfer_encoding_chunked else h_general\<rparr>)
      | h_content_length \<Rightarrow>
          if \<not> IS_NUM ch then Fail HPE_INVALID_CONTENT_LENGTH c
          else if bit (flags c) F_CONTENTLENGTH then Fail HPE_UNEXPECTED_CONTENT_LENGTH c
          else Next (c\<lparr>flags := set_bit F_CONTENTLENGTH (flags c), content_length := ucast (ch - byte_of CHR ''0'')\<rparr>)
      | h_connection \<Rightarrow>
          Next (c\<lparr>header_state :=
            (if t = byte_of CHR ''k'' then h_matching_connection_keep_alive
             else if t = byte_of CHR ''c'' then h_matching_connection_close
             else if t = byte_of CHR ''u'' then h_matching_connection_upgrade
             else h_matching_connection_token)\<rparr>)
      | h_matching_connection_token_start \<Rightarrow> Next c
      | _ \<Rightarrow> Next (c\<lparr>header_state := h_general\<rparr>))"

definition at_header_value_discard_ws :: "u8 \<Rightarrow> 'a exec \<Rightarrow> 'a step" where
  "at_header_value_discard_ws ch c =
     (if ch = byte_of CHR '' '' \<or> ch = 9 then Next c
      else if ch = CR then Next (c\<lparr>state := s_header_value_discard_ws_almost_done\<rparr>)
      else if ch = LF then Next (c\<lparr>state := s_header_value_discard_lws\<rparr>)
      else at_header_value_start ch c)"

text \<open>The flag a finished token of \<open>Connection\<close> or \<open>Transfer-Encoding\<close> sets.\<close>

definition token_flag :: "header_states \<Rightarrow> u8 \<Rightarrow> u8" where
  "token_flag h f =
     (if h = h_connection_keep_alive then set_bit F_CONNECTION_KEEP_ALIVE f
      else if h = h_connection_close then set_bit F_CONNECTION_CLOSE f
      else if h = h_connection_upgrade then set_bit F_CONNECTION_UPGRADE f else f)"

definition finish_header :: "'a exec \<Rightarrow> 'a exec" where
  "finish_header c = c\<lparr>flags :=
     (if header_state c = h_transfer_encoding_chunked then set_bit F_CHUNKED (flags c)
      else token_flag (header_state c) (flags c))\<rparr>"

text \<open>Where \<open>memchr\<close> finds the end of the line within \<open>limit\<close> bytes, or the end of the input.\<close>

definition line_end :: "bytes \<Rightarrow> nat \<Rightarrow> nat" where
  "line_end data p =
     (let rest = take (min (length data - p) HTTP_MAX_HEADER_SIZE) (drop p data);
          n = length (takeWhile (\<lambda>ch. ch \<noteq> CR \<and> ch \<noteq> LF) rest)
      in if n < length rest then p + n else length data)"

text \<open>
  One turn of the loop over a header value: \<open>h\<close> is the local \<open>h_state\<close>; the result is the new
  \<open>h_state\<close> with the parser, or how the code leaves the loop.
\<close>

definition match_value :: "bytes \<Rightarrow> u8 \<Rightarrow> header_states \<Rightarrow> 'a exec \<Rightarrow> 'a step + header_states \<times> 'a exec" where
  "match_value data ch h c =
     (let t = LOWER ch;
          const = (\<lambda>s full other. case match_const s h full other t (index c) of
                     None \<Rightarrow> Inl Abort | Some (h', i) \<Rightarrow> Inr (h', c\<lparr>index := i\<rparr>))
      in case h of
        h_general \<Rightarrow> Inr (h, c\<lparr>pos := line_end data (pos c) - 1\<rparr>)
      | h_connection \<Rightarrow> Inl Abort
      | h_transfer_encoding \<Rightarrow> Inl Abort
      | h_content_length \<Rightarrow>
          if ch = byte_of CHR '' '' then Inr (h, c)
          else if \<not> IS_NUM ch then Inl (Fail HPE_INVALID_CONTENT_LENGTH (c\<lparr>header_state := h\<rparr>))
          else if (ULLONG_MAX - 10) div 10 < content_length c
          then Inl (Fail HPE_INVALID_CONTENT_LENGTH (c\<lparr>header_state := h\<rparr>))
          else Inr (h, c\<lparr>content_length := content_length c * 10 + ucast (ch - byte_of CHR ''0'')\<rparr>)
      | h_matching_transfer_encoding_chunked \<Rightarrow> const ''chunked'' h_transfer_encoding_chunked h_general
      | h_matching_connection_token_start \<Rightarrow>
          Inr (if t = byte_of CHR ''k'' then h_matching_connection_keep_alive
               else if t = byte_of CHR ''c'' then h_matching_connection_close
               else if t = byte_of CHR ''u'' then h_matching_connection_upgrade
               else if TOKEN t \<noteq> 0 then h_matching_connection_token
               else if t = byte_of CHR '' '' \<or> t = 9 then h else h_general, c)
      | h_matching_connection_keep_alive \<Rightarrow> const ''keep-alive'' h_connection_keep_alive h_matching_connection_token
      | h_matching_connection_close \<Rightarrow> const ''close'' h_connection_close h_matching_connection_token
      | h_matching_connection_upgrade \<Rightarrow> const ''upgrade'' h_connection_upgrade h_matching_connection_token
      | h_matching_connection_token \<Rightarrow>
          if ch = byte_of CHR '','' then Inr (h_matching_connection_token_start, c\<lparr>index := 0\<rparr>) else Inr (h, c)
      | h_transfer_encoding_chunked \<Rightarrow> Inr (if ch \<noteq> byte_of CHR '' '' then h_general else h, c)
      | h_connection_keep_alive \<Rightarrow> Inr (if ch = byte_of CHR '','' then (h_matching_connection_token_start, c\<lparr>flags := token_flag h (flags c), index := 0\<rparr>)
                                      else (if ch \<noteq> byte_of CHR '' '' then h_matching_connection_token else h, c))
      | h_connection_close \<Rightarrow> Inr (if ch = byte_of CHR '','' then (h_matching_connection_token_start, c\<lparr>flags := token_flag h (flags c), index := 0\<rparr>)
                                 else (if ch \<noteq> byte_of CHR '' '' then h_matching_connection_token else h, c))
      | h_connection_upgrade \<Rightarrow> Inr (if ch = byte_of CHR '','' then (h_matching_connection_token_start, c\<lparr>flags := token_flag h (flags c), index := 0\<rparr>)
                                   else (if ch \<noteq> byte_of CHR '' '' then h_matching_connection_token else h, c))
      | _ \<Rightarrow> Inr (h_general, c\<lparr>state := s_header_value\<rparr>))"

text \<open>Behind the loop.\<close>

definition value_end :: "bytes \<Rightarrow> nat \<Rightarrow> header_states \<Rightarrow> 'a exec \<Rightarrow> 'a step" where
  "value_end data start h c =
     COUNT_HEADER_SIZE (pos c - start) (c\<lparr>header_state := h\<rparr>)
       (\<lambda>c. if pos c = length data then Next (c\<lparr>pos := pos c - 1\<rparr>) else Next c)"

lemma line_end_ge: "p < length data \<Longrightarrow> data ! p \<noteq> CR \<Longrightarrow> data ! p \<noteq> LF \<Longrightarrow> p < line_end data p"
  by (auto simp: line_end_def Let_def HTTP_MAX_HEADER_SIZE_def Cons_nth_drop_Suc[symmetric] min_def take_Cons')

lemma match_value_pos:
  "\<lbrakk>match_value data ch h c = Inr (h', c'); pos c < length data; ch = data ! pos c; ch \<noteq> CR; ch \<noteq> LF\<rbrakk> \<Longrightarrow> pos c \<le> pos c'"
  using line_end_ge[of "pos c" data]
  by (auto simp: match_value_def Let_def split: header_states.splits if_splits option.splits)

function value_loop :: "'a http_parser_settings \<Rightarrow> bytes \<Rightarrow> nat \<Rightarrow> header_states \<Rightarrow> 'a exec \<Rightarrow> 'a step" where
  "value_loop S data start h c =
     (if \<not> pos c < length data then value_end data start h c
      else let ch = data ! pos c in
        if ch = CR then CALLBACK_DATA S data Header_value (c\<lparr>state := s_header_almost_done, header_state := h\<rparr>) (value_end data start h)
        else if ch = LF then
          COUNT_HEADER_SIZE (pos c - start) (c\<lparr>state := s_header_almost_done\<rparr>) (\<lambda>c.
            CALLBACK_DATA_NOADVANCE S data Header_value (c\<lparr>header_state := h\<rparr>) Again)
        else if \<not> lenient_http_headers c \<and> \<not> IS_HEADER_CHAR ch then Fail HPE_INVALID_HEADER_TOKEN c
        else case match_value data ch h c of
          Inl r \<Rightarrow> r
        | Inr (h', c') \<Rightarrow> value_loop S data start h' (c'\<lparr>pos := pos c' + 1\<rparr>))"
  by auto
termination
  by (relation "measure (\<lambda>(S, data, start, h, c). length data - pos c)") (auto dest!: match_value_pos)

declare value_loop.simps [simp del]

definition at_header_value :: "'a http_parser_settings \<Rightarrow> bytes \<Rightarrow> 'a exec \<Rightarrow> 'a step" where
  "at_header_value S data c = value_loop S data (pos c) (header_state c) c"

definition at_header_value_lws :: "u8 \<Rightarrow> 'a exec \<Rightarrow> 'a step" where
  "at_header_value_lws ch c =
     (if ch = byte_of CHR '' '' \<or> ch = 9 then Again (c\<lparr>state := s_header_value_start\<rparr>)
      else Again ((finish_header c)\<lparr>state := s_header_field_start\<rparr>))"

definition at_header_value_discard_lws :: "'a http_parser_settings \<Rightarrow> bytes \<Rightarrow> u8 \<Rightarrow> 'a exec \<Rightarrow> 'a step" where
  "at_header_value_discard_lws S data ch c =
     (if ch = byte_of CHR '' '' \<or> ch = 9 then Next (c\<lparr>state := s_header_value_discard_ws\<rparr>)
      else CALLBACK_DATA_NOADVANCE S data Header_value ((MARK Header_value (finish_header c))\<lparr>state := s_header_field_start\<rparr>) Again)"

text \<open>The return value 0, 1, 2 or another one of \<open>on_headers_complete\<close>.\<close>

definition headers_complete :: "'a http_parser_settings \<Rightarrow> 'a exec \<Rightarrow> 'a step" where
  "headers_complete S c =
     (case on_headers_complete S of
        None \<Rightarrow> if http_errno c \<noteq> HPE_OK then Return (pos c) c else Again c
      | Some f \<Rightarrow>
          (let (r, a) = f (HttpParser.truncate c) (app c); c = c\<lparr>app := a\<rparr>;
               c = (if r = 2 then c\<lparr>upgrade := True\<rparr> else c);
               c = (if r = 1 \<or> r = 2 then c\<lparr>flags := set_bit F_SKIPBODY (flags c)\<rparr> else c)
           in if r \<noteq> 0 \<and> r \<noteq> 1 \<and> r \<noteq> 2 then Return (pos c) (c\<lparr>http_errno := HPE_CB_headers_complete\<rparr>)
              else if http_errno c \<noteq> HPE_OK then Return (pos c) c else Again c))"

definition at_headers_almost_done :: "'a http_parser_settings \<Rightarrow> u8 \<Rightarrow> 'a exec \<Rightarrow> 'a step" where
  "at_headers_almost_done S ch c = STRICT_CHECK (ch \<noteq> LF) c
     (if bit (flags c) F_TRAILING
      then CALLBACK_NOTIFY_NOADVANCE (on_chunk_complete S) HPE_CB_chunk_complete (c\<lparr>state := s_message_done\<rparr>) Again
      else if bit (flags c) F_CHUNKED \<and> bit (flags c) F_CONTENTLENGTH then Fail HPE_UNEXPECTED_CONTENT_LENGTH c
      else headers_complete S (c\<lparr>state := s_headers_done,
        upgrade := (bit (flags c) F_UPGRADE \<and> bit (flags c) F_CONNECTION_UPGRADE) \<or> p_method c = HTTP_CONNECT\<rparr>))"

section \<open>Bodies\<close>

text \<open>\<open>UPDATE_STATE(NEW_MESSAGE()); CALLBACK_NOTIFY(message_complete)\<close>\<close>

definition message_complete :: "'a http_parser_settings \<Rightarrow> 'a exec \<Rightarrow> ('a exec \<Rightarrow> 'a step) \<Rightarrow> 'a step" where
  "message_complete S c k = CALLBACK_NOTIFY (on_message_complete S) HPE_CB_message_complete (c\<lparr>state := NEW_MESSAGE c\<rparr>) k"

definition at_headers_done :: "'a http_parser_settings \<Rightarrow> u8 \<Rightarrow> 'a exec \<Rightarrow> 'a step" where
  "at_headers_done S ch c = STRICT_CHECK (ch \<noteq> LF) c
     (let c = c\<lparr>nread := 0\<rparr>;
          hasBody = (bit (flags c) F_CHUNKED \<or> (content_length c > 0 \<and> content_length c \<noteq> ULLONG_MAX))
      in if upgrade c \<and> (p_method c = HTTP_CONNECT \<or> bit (flags c) F_SKIPBODY \<or> \<not> hasBody)
         then message_complete S c (\<lambda>c. Return (pos c + 1) c)
         else if bit (flags c) F_SKIPBODY then message_complete S c Next
         else if bit (flags c) F_CHUNKED then Next (c\<lparr>state := s_chunk_size_start\<rparr>)
         else if content_length c = 0 then message_complete S c Next
         else if content_length c \<noteq> ULLONG_MAX then Next (c\<lparr>state := s_body_identity\<rparr>)
         else if \<not> http_message_needs_eof c then message_complete S c Next
         else Next (c\<lparr>state := s_body_identity_eof\<rparr>))"

text \<open>\<open>to_read\<close> bytes of the body: the mark, the length that is left, and the position on the last of them.\<close>

definition read_body :: "bytes \<Rightarrow> 'a exec \<Rightarrow> 'a exec" where
  "read_body data c =
     (let to_read = min (unat (content_length c)) (length data - pos c)
      in (MARK Body c)\<lparr>content_length := content_length c - of_nat to_read, pos := pos c + to_read - 1\<rparr>)"

definition at_body_identity :: "'a http_parser_settings \<Rightarrow> bytes \<Rightarrow> 'a exec \<Rightarrow> 'a step" where
  "at_body_identity S data c =
     (if content_length c = 0 \<or> content_length c = ULLONG_MAX then Abort
      else let c = read_body data c in
        if content_length c = 0
        then callback_data S data Body (pos c + 1) (pos c) (c\<lparr>state := s_message_done\<rparr>) Again
        else Next c)"

definition at_body_identity_eof :: "bytes \<Rightarrow> 'a exec \<Rightarrow> 'a step" where
  "at_body_identity_eof data c = Next ((MARK Body c)\<lparr>pos := length data - 1\<rparr>)"

definition at_message_done :: "'a http_parser_settings \<Rightarrow> 'a exec \<Rightarrow> 'a step" where
  "at_message_done S c = message_complete S c (\<lambda>c. if upgrade c then Return (pos c + 1) c else Next c)"

definition at_chunk_size_start :: "u8 \<Rightarrow> 'a exec \<Rightarrow> 'a step" where
  "at_chunk_size_start ch c =
     (if nread c \<noteq> 1 \<or> \<not> bit (flags c) F_CHUNKED then Abort
      else case unhex ch of
        None \<Rightarrow> Fail HPE_INVALID_CHUNK_SIZE c
      | Some v \<Rightarrow> Next (c\<lparr>content_length := v, state := s_chunk_size\<rparr>))"

definition at_chunk_size :: "u8 \<Rightarrow> 'a exec \<Rightarrow> 'a step" where
  "at_chunk_size ch c =
     (if \<not> bit (flags c) F_CHUNKED then Abort
      else if ch = CR then Next (c\<lparr>state := s_chunk_size_almost_done\<rparr>)
      else case unhex ch of
        None \<Rightarrow> if ch = byte_of CHR '';'' \<or> ch = byte_of CHR '' '' then Next (c\<lparr>state := s_chunk_parameters\<rparr>)
               else Fail HPE_INVALID_CHUNK_SIZE c
      | Some v \<Rightarrow>
          if (ULLONG_MAX - 16) div 16 < content_length c then Fail HPE_INVALID_CONTENT_LENGTH c
          else Next (c\<lparr>content_length := content_length c * 16 + v\<rparr>))"

definition at_chunk_parameters :: "u8 \<Rightarrow> 'a exec \<Rightarrow> 'a step" where
  "at_chunk_parameters ch c =
     (if \<not> bit (flags c) F_CHUNKED then Abort
      else if ch = CR then Next (c\<lparr>state := s_chunk_size_almost_done\<rparr>) else Next c)"

definition at_chunk_size_almost_done :: "'a http_parser_settings \<Rightarrow> u8 \<Rightarrow> 'a exec \<Rightarrow> 'a step" where
  "at_chunk_size_almost_done S ch c =
     (if \<not> bit (flags c) F_CHUNKED then Abort
      else STRICT_CHECK (ch \<noteq> LF) c
        (let c = c\<lparr>nread := 0\<rparr>
         in CALLBACK_NOTIFY (on_chunk_header S) HPE_CB_chunk_header
              (if content_length c = 0 then c\<lparr>flags := set_bit F_TRAILING (flags c), state := s_header_field_start\<rparr>
               else c\<lparr>state := s_chunk_data\<rparr>) Next))"

definition at_chunk_data :: "bytes \<Rightarrow> 'a exec \<Rightarrow> 'a step" where
  "at_chunk_data data c =
     (if \<not> bit (flags c) F_CHUNKED \<or> content_length c = 0 \<or> content_length c = ULLONG_MAX then Abort
      else let c = read_body data c
           in Next (if content_length c = 0 then c\<lparr>state := s_chunk_data_almost_done\<rparr> else c))"

definition at_chunk_data_almost_done :: "'a http_parser_settings \<Rightarrow> bytes \<Rightarrow> u8 \<Rightarrow> 'a exec \<Rightarrow> 'a step" where
  "at_chunk_data_almost_done S data ch c =
     (if \<not> bit (flags c) F_CHUNKED \<or> content_length c \<noteq> 0 then Abort
      else STRICT_CHECK (ch \<noteq> CR) c (CALLBACK_DATA S data Body (c\<lparr>state := s_chunk_data_done\<rparr>) Next))"

definition at_chunk_data_done :: "'a http_parser_settings \<Rightarrow> u8 \<Rightarrow> 'a exec \<Rightarrow> 'a step" where
  "at_chunk_data_done S ch c =
     (if \<not> bit (flags c) F_CHUNKED then Abort
      else STRICT_CHECK (ch \<noteq> LF) c
        (CALLBACK_NOTIFY (on_chunk_complete S) HPE_CB_chunk_complete (c\<lparr>nread := 0, state := s_chunk_size_start\<rparr>) Next))"

section \<open>The main loop\<close>

definition exec_state :: "'a http_parser_settings \<Rightarrow> bytes \<Rightarrow> u8 \<Rightarrow> 'a exec \<Rightarrow> 'a step" where
  "exec_state S data ch c = (case state c of
     s_dead \<Rightarrow> at_dead ch c
   | s_start_req_or_res \<Rightarrow> at_start_req_or_res S ch c
   | s_res_or_resp_H \<Rightarrow> at_res_or_resp_H ch c
   | s_start_res \<Rightarrow> at_start_res S ch c
   | s_res_H \<Rightarrow> at_literal (byte_of CHR ''T'') s_res_HT ch c
   | s_res_HT \<Rightarrow> at_literal (byte_of CHR ''T'') s_res_HTT ch c
   | s_res_HTT \<Rightarrow> at_literal (byte_of CHR ''P'') s_res_HTTP ch c
   | s_res_HTTP \<Rightarrow> at_literal (byte_of CHR ''/'') s_res_first_http_major ch c
   | s_res_first_http_major \<Rightarrow> at_first_http_major (CHR ''0'') s_res_http_major ch c
   | s_res_http_major \<Rightarrow> at_http_major s_res_first_http_minor ch c
   | s_res_first_http_minor \<Rightarrow> at_first_http_minor s_res_http_minor ch c
   | s_res_http_minor \<Rightarrow> at_res_http_minor ch c
   | s_res_first_status_code \<Rightarrow> at_res_first_status_code ch c
   | s_res_status_code \<Rightarrow> at_res_status_code ch c
   | s_res_status_start \<Rightarrow> at_res_status_start ch c
   | s_res_status \<Rightarrow> at_res_status S data ch c
   | s_res_line_almost_done \<Rightarrow> at_literal LF s_header_field_start ch c
   | s_start_req \<Rightarrow> at_start_req S ch c
   | s_req_method \<Rightarrow> at_req_method ch c
   | s_req_spaces_before_url \<Rightarrow> at_req_spaces_before_url ch c
   | s_req_schema \<Rightarrow> at_req_schema ch c
   | s_req_schema_slash \<Rightarrow> at_req_schema ch c
   | s_req_schema_slash_slash \<Rightarrow> at_req_schema ch c
   | s_req_server_start \<Rightarrow> at_req_schema ch c
   | s_req_server \<Rightarrow> at_req_url S data ch c
   | s_req_server_with_at \<Rightarrow> at_req_url S data ch c
   | s_req_path \<Rightarrow> at_req_url S data ch c
   | s_req_query_string_start \<Rightarrow> at_req_url S data ch c
   | s_req_query_string \<Rightarrow> at_req_url S data ch c
   | s_req_fragment_start \<Rightarrow> at_req_url S data ch c
   | s_req_fragment \<Rightarrow> at_req_url S data ch c
   | s_req_http_start \<Rightarrow> at_req_http_start ch c
   | s_req_http_H \<Rightarrow> at_literal (byte_of CHR ''T'') s_req_http_HT ch c
   | s_req_http_HT \<Rightarrow> at_literal (byte_of CHR ''T'') s_req_http_HTT ch c
   | s_req_http_HTT \<Rightarrow> at_literal (byte_of CHR ''P'') s_req_http_HTTP ch c
   | s_req_http_HTTP \<Rightarrow> at_literal (byte_of CHR ''/'') s_req_first_http_major ch c
   | s_req_first_http_major \<Rightarrow> at_first_http_major (CHR ''1'') s_req_http_major ch c
   | s_req_http_major \<Rightarrow> at_http_major s_req_first_http_minor ch c
   | s_req_first_http_minor \<Rightarrow> at_first_http_minor s_req_http_minor ch c
   | s_req_http_minor \<Rightarrow> at_req_http_minor ch c
   | s_req_line_almost_done \<Rightarrow> expect_LF s_header_field_start ch c
   | s_header_field_start \<Rightarrow> at_header_field_start ch c
   | s_header_field \<Rightarrow> at_header_field S data c
   | s_header_value_discard_ws \<Rightarrow> at_header_value_discard_ws ch c
   | s_header_value_start \<Rightarrow> at_header_value_start ch c
   | s_header_value \<Rightarrow> at_header_value S data c
   | s_header_almost_done \<Rightarrow> expect_LF s_header_value_lws ch c
   | s_header_value_lws \<Rightarrow> at_header_value_lws ch c
   | s_header_value_discard_ws_almost_done \<Rightarrow> at_literal LF s_header_value_discard_lws ch c
   | s_header_value_discard_lws \<Rightarrow> at_header_value_discard_lws S data ch c
   | s_headers_almost_done \<Rightarrow> at_headers_almost_done S ch c
   | s_headers_done \<Rightarrow> at_headers_done S ch c
   | s_body_identity \<Rightarrow> at_body_identity S data c
   | s_body_identity_eof \<Rightarrow> at_body_identity_eof data c
   | s_message_done \<Rightarrow> at_message_done S c
   | s_chunk_size_start \<Rightarrow> at_chunk_size_start ch c
   | s_chunk_size \<Rightarrow> at_chunk_size ch c
   | s_chunk_parameters \<Rightarrow> at_chunk_parameters ch c
   | s_chunk_size_almost_done \<Rightarrow> at_chunk_size_almost_done S ch c
   | s_chunk_data \<Rightarrow> at_chunk_data data c
   | s_chunk_data_almost_done \<Rightarrow> at_chunk_data_almost_done S data ch c
   | s_chunk_data_done \<Rightarrow> at_chunk_data_done S ch c)"

text \<open>A turn of the loop, from the head (with the header byte counted) or from \<open>reexecute\<close>.\<close>

definition exec_turn :: "'a http_parser_settings \<Rightarrow> bytes \<Rightarrow> bool \<Rightarrow> 'a exec \<Rightarrow> 'a step" where
  "exec_turn S data again c =
     (if \<not> pos c < length data then Abort
      else if \<not> again \<and> PARSING_HEADER (state c)
      then COUNT_HEADER_SIZE 1 c (\<lambda>c. exec_state S data (data ! pos c) c)
      else exec_state S data (data ! pos c) c)"

text \<open>The callbacks for the marks that are left, and \<open>RETURN(len)\<close>.\<close>

definition exec_finish :: "'a http_parser_settings \<Rightarrow> bytes \<Rightarrow> 'a exec \<Rightarrow> 'a step" where
  "exec_finish S data c =
     (if 1 < length (filter (\<lambda>f. marks c f \<noteq> None) [Header_field, Header_value, Url, Body, Status]) then Abort
      else CALLBACK_DATA_NOADVANCE S data Header_field c (\<lambda>c.
        CALLBACK_DATA_NOADVANCE S data Header_value c (\<lambda>c.
        CALLBACK_DATA_NOADVANCE S data Url c (\<lambda>c.
        CALLBACK_DATA_NOADVANCE S data Body c (\<lambda>c.
        CALLBACK_DATA_NOADVANCE S data Status c (Return (length data)))))))"

subsection \<open>Progress\<close>

text \<open>
  Where a step leads: \<open>N\<close> holds at the next byte, \<open>A\<close> at \<open>reexecute\<close>, \<open>R\<close> where the function
  returns; \<open>ab\<close> says whether it may abort.
\<close>

primrec leads :: "bool \<Rightarrow> ('a exec \<Rightarrow> bool) \<Rightarrow> ('a exec \<Rightarrow> bool) \<Rightarrow> (nat \<Rightarrow> 'a exec \<Rightarrow> bool) \<Rightarrow> 'a step \<Rightarrow> bool" where
  "leads ab N A R (Next c) = N c"
| "leads ab N A R (Again c) = A c"
| "leads ab N A R (Fail e c) = (e \<noteq> HPE_OK \<and> R (pos c) (c\<lparr>http_errno := e\<rparr>))"
| "leads ab N A R (Return n c) = R n c"
| "leads ab N A R Abort = ab"

lemma leads_mono:
  assumes "leads ab N A R r" and "ab \<Longrightarrow> ab'" and "\<And>c. N c \<Longrightarrow> N' c" and "\<And>c. A c \<Longrightarrow> A' c" and "\<And>n c. R n c \<Longrightarrow> R' n c"
  shows "leads ab' N' A' R' r"
  using assms by (cases r) auto

lemma leads_if [simp]: "leads ab N A R (if b then r else r') = ((b \<longrightarrow> leads ab N A R r) \<and> (\<not> b \<longrightarrow> leads ab N A R r'))"
  by simp

lemma leads_notify:
  assumes "\<And>a. leads True N A R (k (c\<lparr>app := a\<rparr>))" and "\<And>a e. R er (c\<lparr>app := a, http_errno := e\<rparr>)"
  shows "leads True N A R (callback_notify cb err er c k)"
  using assms(1)[of "app c"] assms by (auto simp: callback_notify_def split: option.splits prod.splits)

lemma leads_data:
  assumes "\<And>a m. leads True N A R (k (c\<lparr>app := a, marks := m\<rparr>))" and "\<And>a e. R er (c\<lparr>app := a, http_errno := e\<rparr>)"
  shows "leads True N A R (callback_data S data f stop er c k)"
proof -
  have "leads True N A R (k (c\<lparr>marks := m\<rparr>))" for m
    using assms(1)[of m "app c"] by simp
  from this this[of "marks c"] show ?thesis
    using assms by (auto simp: callback_data_def split: option.splits prod.splits)
qed

lemma leads_count:
  "leads ab N A R (COUNT_HEADER_SIZE v c k) \<longleftrightarrow>
    (if nread c + of_nat v > of_nat HTTP_MAX_HEADER_SIZE
     then R (pos c) (c\<lparr>nread := nread c + of_nat v, http_errno := HPE_HEADER_OVERFLOW\<rparr>)
     else leads ab N A R (k (c\<lparr>nread := nread c + of_nat v\<rparr>)))"
  by (simp add: COUNT_HEADER_SIZE_def Let_def)

definition rank :: "state \<Rightarrow> nat" where
  "rank s = (if s \<in> {s_header_value_lws, s_header_value_discard_lws} then 3
     else if s = s_header_field_start then 2
     else if s \<in> {s_headers_almost_done, s_header_value, s_start_req_or_res, s_body_identity} then 1 else 0)"

lemmas callback_defs = CALLBACK_NOTIFY_def CALLBACK_NOTIFY_NOADVANCE_def CALLBACK_DATA_def CALLBACK_DATA_NOADVANCE_def

lemma value_loop_progress:
  "leads True (\<lambda>c'. p \<le> pos c') (\<lambda>c'. p \<le> pos c' \<and> state c' = s_header_almost_done) (\<lambda>_ _. True) (value_loop S data start h c)"
  if "p \<le> pos c" "p < length data"
  using that
proof (induction S data start h c rule: value_loop.induct)
  case (1 S data start h c)
  have ve: "leads True (\<lambda>c'. p \<le> pos c') (\<lambda>c'. p \<le> pos c' \<and> state c' = s_header_almost_done) (\<lambda>_ _. True) (value_end data start h c')"
    if "p \<le> pos c'" for c' :: "'a exec"
    using that 1 by (auto simp: value_end_def leads_count)
  show ?case
  proof (cases "pos c < length data \<and> data ! pos c \<noteq> CR \<and> data ! pos c \<noteq> LF \<and> (lenient_http_headers c \<or> IS_HEADER_CHAR (data ! pos c))")
    case True
    show ?thesis
    proof (cases "match_value data (data ! pos c) h c")
      case (Inl r)
      then have "leads True (\<lambda>c'. p \<le> pos c') (\<lambda>c'. p \<le> pos c' \<and> state c' = s_header_almost_done) (\<lambda>_ _. True) r"
        by (auto simp: match_value_def Let_def split: header_states.splits if_splits option.splits)
      with True Inl show ?thesis by (subst value_loop.simps) (simp add: Let_def)
    next
      case (Inr r)
      then obtain h' c' where r: "match_value data (data ! pos c) h c = Inr (h', c')" by (cases r) auto
      then have "pos c \<le> pos c'"
        using True match_value_pos by blast
      with 1 True r show ?thesis by (subst value_loop.simps) (simp add: Let_def)
    qed
  next
    case False
    with 1(2,3) ve show ?thesis
      by (subst value_loop.simps) (auto simp: Let_def callback_defs leads_count intro!: leads_data)
  qed
qed

lemma field_loop_pos: "field_loop cs p h i = Some (q, h', i') \<Longrightarrow> p \<le> q \<and> q \<le> p + length cs"
  by (induction cs p h i rule: field_loop.induct) (fastforce split: if_splits option.splits)+

abbreviation progress :: "'a exec \<Rightarrow> 'a step \<Rightarrow> bool" where
  "progress c \<equiv> leads True (\<lambda>c'. pos c \<le> pos c') (\<lambda>c'. pos c \<le> pos c' \<and> rank (state c') < rank (state c)) (\<lambda>_ _. True)"

lemma at_header_field_progress: "pos c < length data \<Longrightarrow> progress c (at_header_field S data c)"
  by (auto simp: at_header_field_def leads_count callback_defs intro!: leads_data split: option.splits dest!: field_loop_pos)

lemma at_header_value_progress: "\<lbrakk>pos c < length data; state c = s_header_value\<rbrakk> \<Longrightarrow> progress c (at_header_value S data c)"
  unfolding at_header_value_def
  by (rule leads_mono[OF value_loop_progress[of "pos c"]]) (auto simp: rank_def)

lemma headers_complete_progress:
  "state c' = s_headers_done \<Longrightarrow> pos c' = pos c \<Longrightarrow> 0 < rank (state c) \<Longrightarrow> progress c (headers_complete S c')"
  by (auto simp: headers_complete_def Let_def rank_def split: option.splits prod.splits)

lemma rank_simps: "rank s_headers_almost_done = 1" "rank s_headers_done = 0" "rank s_message_done = 0"
  by (simp_all add: rank_def)

lemmas simple_state_defs =
  at_dead_def at_start_req_or_res_def at_res_or_resp_H_def at_start_res_def at_literal_def at_first_http_major_def at_http_major_def
  at_first_http_minor_def minor_digit_def at_res_http_minor_def at_res_first_status_code_def at_res_status_code_def
  at_res_status_start_def at_res_status_def at_start_req_def at_req_method_def url_step_def at_req_spaces_before_url_def
  at_req_schema_def at_req_url_def at_req_http_start_def at_req_http_minor_def expect_LF_def at_header_field_start_def
  at_header_value_start_def at_header_value_discard_ws_def finish_header_def at_header_value_lws_def at_header_value_discard_lws_def
  at_headers_almost_done_def message_complete_def at_headers_done_def at_body_identity_def
  at_body_identity_eof_def at_message_done_def at_chunk_size_start_def at_chunk_size_def at_chunk_parameters_def
  at_chunk_size_almost_done_def at_chunk_data_def at_chunk_data_almost_done_def at_chunk_data_done_def STRICT_CHECK_def MARK_def


lemma read_body_pos:
  assumes "pos c < length data" and "content_length c \<noteq> 0"
  shows "pos c \<le> pos (read_body data c)" and "pos (read_body data c) < length data"
proof -
  have "0 < unat (content_length c)"
    using assms(2) by (simp add: unat_gt_0)
  with assms(1) show "pos c \<le> pos (read_body data c)" "pos (read_body data c) < length data"
    by (auto simp: read_body_def Let_def)
qed

lemma exec_state_progress:
  assumes "pos c < length data"
  shows "progress c (exec_state S data ch c)"
proof (cases "state c = s_header_field \<or> state c = s_header_value \<or> state c = s_headers_almost_done")
  case True
  then consider "state c = s_header_field" | "state c = s_header_value" | "state c = s_headers_almost_done"
    by blast
  then show ?thesis
  proof cases
    case 1
    then show ?thesis
      using at_header_field_progress[OF assms, of S] by (simp only: exec_state_def state.case)
  next
    case 2
    then show ?thesis
      using at_header_value_progress[OF assms, of S] by (simp only: exec_state_def state.case)
  next
    case 3
    have "progress c (at_headers_almost_done S ch c)"
      using 3 headers_complete_progress[of "c\<lparr>state := s_headers_done, upgrade :=
          (bit (flags c) F_UPGRADE \<and> bit (flags c) F_CONNECTION_UPGRADE) \<or> p_method c = HTTP_CONNECT\<rparr>" c S]
      by (auto simp: at_headers_almost_done_def STRICT_CHECK_def callback_defs rank_simps intro!: leads_notify)
    with 3 show ?thesis
      by (simp only: exec_state_def state.case)
  qed
next
  case False
  note read_body_pos[OF assms, simp]
  from False show ?thesis using assms
    by (cases "state c", simp_all only: exec_state_def state.case)
      (auto simp: simple_state_defs Let_def callback_defs rank_def intro!: leads_notify leads_data
        split: option.splits header_states.splits)
qed

lemma exec_turn_progress: "progress c (exec_turn S data again c)"
proof -
  have "progress c (exec_state S data ch (c\<lparr>nread := n\<rparr>))" if "pos c < length data" for ch n
    using exec_state_progress[of "c\<lparr>nread := n\<rparr>" data S ch] that by simp
  then show ?thesis
    using exec_state_progress[of c data S] by (simp add: exec_turn_def leads_count)
qed

subsection \<open>The loop\<close>

function exec_loop :: "'a http_parser_settings \<Rightarrow> bytes \<Rightarrow> bool \<Rightarrow> 'a exec \<Rightarrow> (nat \<times> 'a exec) option" where
  "exec_loop S data again c =
     (case (if \<not> again \<and> pos c = length data then exec_finish S data c else exec_turn S data again c) of
        Next c' \<Rightarrow> if pos c < length data then exec_loop S data False (c'\<lparr>pos := pos c' + 1\<rparr>) else None
      | Again c' \<Rightarrow> if pos c < length data then exec_loop S data True c' else None
      | Fail e c' \<Rightarrow> Some (pos c', c'\<lparr>http_errno := e\<rparr>)
      | Return n c' \<Rightarrow> Some (n, c')
      | Abort \<Rightarrow> None)"
  by auto

termination
proof (relation "measures [\<lambda>(S, data, again, c). length data - pos c, \<lambda>(S, data, again, c). rank (state c)]", goal_cases)
  case (2 S data again c c')
  with exec_turn_progress[of c S data again] show ?case by auto
next
  case (3 S data again c c')
  with exec_turn_progress[of c S data again] show ?case by (auto simp: less_le)
qed simp

declare exec_loop.simps [simp del]

section \<open>Executing a parser\<close>

definition begin_exec :: "HttpParser \<Rightarrow> 'a \<Rightarrow> 'a exec" where
  "begin_exec parser a = HttpParser.extend parser \<lparr>pos = 0, marks = (\<lambda>_. None), app = a\<rparr>"

text \<open>The marks at the start of the input.\<close>

definition first_marks :: "state \<Rightarrow> field \<Rightarrow> nat option" where
  "first_marks s f =
     (if (f = Header_field \<and> s = s_header_field) \<or> (f = Header_value \<and> s = s_header_value) \<or>
         (f = Url \<and> s \<in> {s_req_path, s_req_schema, s_req_schema_slash, s_req_schema_slash_slash, s_req_server_start, s_req_server,
                        s_req_server_with_at, s_req_query_string_start, s_req_query_string, s_req_fragment_start, s_req_fragment}) \<or>
         (f = Status \<and> s = s_res_status)
      then Some 0 else None)"

text \<open>The branch for \<open>len == 0\<close>; an error of the callback and its absence both return 0.\<close>

definition exec_eof :: "'a http_parser_settings \<Rightarrow> 'a exec \<Rightarrow> 'a step" where
  "exec_eof S c =
     (if state c = s_body_identity_eof
      then CALLBACK_NOTIFY_NOADVANCE (on_message_complete S) HPE_CB_message_complete c (Return 0)
      else if state c \<in> {s_dead, s_start_req_or_res, s_start_res, s_start_req} then Return 0 c
      else Return 1 (c\<lparr>http_errno := HPE_INVALID_EOF_STATE\<rparr>))"

definition http_parser_execute ::
  "'a http_parser_settings \<Rightarrow> bytes \<Rightarrow> HttpParser \<Rightarrow> 'a \<Rightarrow> (nat \<times> HttpParser \<times> 'a) option" where
  "http_parser_execute S data parser a =
     (if http_errno parser \<noteq> HPE_OK then Some (0, parser, a)
      else map_option (\<lambda>(n, c). (n, HttpParser.truncate c, app c))
        (if data = [] then (case exec_eof S (begin_exec parser a) of Return n c \<Rightarrow> Some (n, c) | _ \<Rightarrow> None)
         else exec_loop S data False ((begin_exec parser a)\<lparr>marks := first_marks (state parser)\<rparr>)))"

end
