(* ===== verification/Http_Safety.thy ===== *)
theory Http_Safety
  imports Http_Parser
begin

text \<open>
  Memory safety of \<open>http_parser_execute\<close>: on any input, in any division into chunks and with any
  callbacks, no assertion of the parser fails, and it reads neither outside its input nor behind
  a string constant. The invariant says for every state which of the fields the code relies on.
\<close>


section \<open>Invariant\<close>

primrec index_bound :: "header_states \<Rightarrow> nat" where
  "index_bound h_general = 18"
| "index_bound h_C = 0"
| "index_bound h_CO = 1"
| "index_bound h_CON = 2"
| "index_bound h_matching_connection = 8"
| "index_bound h_matching_proxy_connection = 14"
| "index_bound h_matching_content_length = 12"
| "index_bound h_matching_transfer_encoding = 15"
| "index_bound h_matching_upgrade = 5"
| "index_bound h_connection = 18"
| "index_bound h_content_length = 18"
| "index_bound h_transfer_encoding = 18"
| "index_bound h_upgrade = 18"
| "index_bound h_matching_transfer_encoding_chunked = 5"
| "index_bound h_matching_connection_token_start = 0"
| "index_bound h_matching_connection_keep_alive = 8"
| "index_bound h_matching_connection_close = 3"
| "index_bound h_matching_connection_upgrade = 5"
| "index_bound h_matching_connection_token = 18"
| "index_bound h_transfer_encoding_chunked = 18"
| "index_bound h_connection_keep_alive = 18"
| "index_bound h_connection_close = 18"
| "index_bound h_connection_upgrade = 18"

definition field_state :: "header_states \<Rightarrow> bool" where
  "field_state h \<longleftrightarrow> h \<in> {h_general, h_C, h_CO, h_CON, h_matching_connection, h_matching_proxy_connection, h_matching_content_length,
     h_matching_transfer_encoding, h_matching_upgrade, h_connection, h_content_length, h_transfer_encoding, h_upgrade}"

definition value_state :: "header_states \<Rightarrow> bool" where
  "value_state h \<longleftrightarrow> h \<noteq> h_connection \<and> h \<noteq> h_transfer_encoding"

definition chunked :: "'z HttpParser_scheme \<Rightarrow> bool" where
  "chunked p \<longleftrightarrow> bit (flags p) F_CHUNKED"

definition counted_length :: "'z HttpParser_scheme \<Rightarrow> bool" where
  "counted_length p \<longleftrightarrow> content_length p \<noteq> ULLONG_MAX"

definition state_ok :: "u32 \<Rightarrow> 'z HttpParser_scheme \<Rightarrow> bool" where
  "state_ok n p \<longleftrightarrow> (case state p of
     s_req_method \<Rightarrow> index p \<le> length (method_strings (p_method p))
   | s_header_field \<Rightarrow> field_state (header_state p) \<and> index p \<le> index_bound (header_state p)
   | s_header_value \<Rightarrow> value_state (header_state p) \<and> index p \<le> index_bound (header_state p)
   | s_chunk_size_start \<Rightarrow> nread p = n \<and> chunked p
   | s_chunk_size \<Rightarrow> counted_length p \<and> chunked p
   | s_chunk_parameters \<Rightarrow> counted_length p \<and> chunked p
   | s_chunk_size_almost_done \<Rightarrow> counted_length p \<and> chunked p
   | s_chunk_data \<Rightarrow> content_length p \<noteq> 0 \<and> counted_length p \<and> chunked p
   | s_chunk_data_almost_done \<Rightarrow> content_length p = 0 \<and> chunked p
   | s_chunk_data_done \<Rightarrow> chunked p
   | s_body_identity \<Rightarrow> content_length p \<noteq> 0 \<and> counted_length p
   | _ \<Rightarrow> True)"

definition wf :: "u32 \<Rightarrow> 'z HttpParser_scheme \<Rightarrow> bool" where
  "wf n p \<longleftrightarrow> index p \<le> 18 \<and> state_ok n p"

text \<open>The one mark that can be set in a state.\<close>

definition mark_of :: "state \<Rightarrow> field option" where
  "mark_of s = (case s of
     s_header_field \<Rightarrow> Some Header_field | s_header_value \<Rightarrow> Some Header_value | s_res_status \<Rightarrow> Some Status
   | s_req_schema \<Rightarrow> Some Url | s_req_schema_slash \<Rightarrow> Some Url | s_req_schema_slash_slash \<Rightarrow> Some Url
   | s_req_server_start \<Rightarrow> Some Url | s_req_server \<Rightarrow> Some Url | s_req_server_with_at \<Rightarrow> Some Url | s_req_path \<Rightarrow> Some Url
   | s_req_query_string_start \<Rightarrow> Some Url | s_req_query_string \<Rightarrow> Some Url | s_req_fragment_start \<Rightarrow> Some Url
   | s_req_fragment \<Rightarrow> Some Url
   | s_body_identity \<Rightarrow> Some Body | s_body_identity_eof \<Rightarrow> Some Body | s_chunk_data \<Rightarrow> Some Body
   | s_chunk_data_almost_done \<Rightarrow> Some Body
   | _ \<Rightarrow> None)"

definition marks_ok :: "'a exec \<Rightarrow> bool" where
  "marks_ok c \<longleftrightarrow> (\<forall>f. mark_of (state c) \<noteq> Some f \<longrightarrow> marks c f = None) \<and> (\<forall>f m. marks c f = Some m \<longrightarrow> m \<le> pos c)"

definition inv :: "bytes \<Rightarrow> u32 \<Rightarrow> 'a exec \<Rightarrow> bool" where
  "inv data n c \<longleftrightarrow> http_errno c = HPE_OK \<and> wf n c \<and> marks_ok c \<and> pos c < length data"

definition safe :: "bytes \<Rightarrow> 'a step \<Rightarrow> bool" where
  "safe data = leads False (inv data 0) (inv data 1) (\<lambda>n c. n \<le> length data \<and> (http_errno c = HPE_OK \<longrightarrow> wf 0 c))"

lemma safe_simps [simp]:
  "safe data (Next c) \<longleftrightarrow> inv data 0 c" "safe data (Again c) \<longleftrightarrow> inv data 1 c"
  "safe data (Fail e c) \<longleftrightarrow> e \<noteq> HPE_OK \<and> pos c \<le> length data"
  "safe data (Return n c) \<longleftrightarrow> n \<le> length data \<and> (http_errno c = HPE_OK \<longrightarrow> wf 0 c)" "\<not> safe data Abort"
  "safe data (if b then r else r') \<longleftrightarrow> (if b then safe data r else safe data r')"
  by (auto simp: safe_def)

lemma notify_safe:
  assumes "http_errno c = HPE_OK" and "er \<le> length data" and "err \<noteq> HPE_OK" and "\<And>a. safe data (k (c\<lparr>app := a\<rparr>))"
  shows "safe data (callback_notify cb err er c k)"
  using assms(4)[of "app c"] assms by (auto simp: callback_notify_def split: option.splits prod.splits)

lemma data_errno_not_OK [simp]: "data_errno f \<noteq> HPE_OK" by (cases f) auto

lemma leads_data_in_bounds:
  assumes "http_errno c = HPE_OK" and "stop \<le> length data" and "\<And>m. marks c f = Some m \<Longrightarrow> m \<le> stop"
    and "\<And>a. R er (c\<lparr>app := a, http_errno := data_errno f\<rparr>)"
    and "\<And>a. leads ab N A R (k (c\<lparr>app := a, marks := (marks c)(f := None)\<rparr>))"
  shows "leads ab N A R (callback_data S data f stop er c k)"
proof -
  have k: "leads ab N A R (k (c\<lparr>marks := (marks c)(f := None)\<rparr>))"
    using assms(5)[of "app c"] by simp
  show ?thesis
  proof (cases "marks c f")
    case None
    then have "c\<lparr>marks := (marks c)(f := None)\<rparr> = c"
      by (simp add: fun_upd_idem)
    with k have "leads ab N A R (k c)" by (simp only:)
    with None show ?thesis
      by (simp add: callback_data_def assms(1))
  next
    case (Some m)
    show ?thesis
    proof (cases "data_cb f S")
      case None
      with Some assms(1) k show ?thesis
        by (simp add: callback_data_def)
    next
      fix g assume g: "data_cb f S = Some g"
      obtain r a where "g (HttpParser.truncate c) (take (stop - m) (drop m data)) (app c) = (r, a)"
        by (cases "g (HttpParser.truncate c) (take (stop - m) (drop m data)) (app c)")
      with Some g assms show ?thesis
        by (simp add: callback_data_def)
    qed
  qed
qed

lemma data_safe:
  assumes "http_errno c = HPE_OK" and "er \<le> length data" and "stop \<le> length data" and "\<And>m. marks c f = Some m \<Longrightarrow> m \<le> stop"
    and "\<And>a. safe data (k (c\<lparr>app := a, marks := (marks c)(f := None)\<rparr>))"
  shows "safe data (callback_data S data f stop er c k)"
  using assms unfolding safe_def by (intro leads_data_in_bounds) auto

definition url_states :: "state set" where
  "url_states = {s_req_path, s_req_schema, s_req_schema_slash, s_req_schema_slash_slash, s_req_server_start, s_req_server,
     s_req_server_with_at, s_req_query_string_start, s_req_query_string, s_req_fragment_start, s_req_fragment}"


lemma url_states_ok:
  assumes "s \<in> url_states"
  shows "mark_of s = Some Url" and "state p = s \<Longrightarrow> state_ok n p"
  using assms by (auto simp: url_states_def mark_of_def state_ok_def)

lemmas inv_defs = inv_def wf_def marks_ok_def mark_of_def state_ok_def

lemma method_nonempty: "Suc 0 \<le> length (method_strings m)"
  by (cases m) simp_all

lemma other_method_length: "other_method m i ch = Some m' \<Longrightarrow> Suc i \<le> length (method_strings m')"
  unfolding other_method_def by (drule map_of_SomeD) auto

lemma parse_url_char_states: "parse_url_char s ch \<in> insert s_dead url_states"
  unfolding parse_url_char_def server_char_def by (cases s) (simp_all add: url_states_def)

lemma start_line_safe:
  assumes "inv data 1 c"
    and "state c \<in> {s_dead, s_start_req_or_res, s_res_or_resp_H, s_start_res, s_start_req, s_res_H, s_res_HT, s_res_HTT, s_res_HTTP,
      s_res_first_http_major, s_res_http_major, s_res_first_http_minor, s_res_http_minor, s_res_first_status_code,
      s_res_status_code, s_res_status_start, s_res_status, s_res_line_almost_done}"
  shows "safe data (exec_state S data ch c)"
  using assms(2,1)
  by (elim insertE emptyE, simp_all only: exec_state_def state.case)
    (auto simp: simple_state_defs Let_def inv_defs callback_defs method_nonempty intro!: notify_safe data_safe split: option.splits)

lemma url_step_safe:
  assumes "http_errno c = HPE_OK" and "index c \<le> 18" and "pos c < length data"
    and "\<And>f. f \<noteq> Url \<Longrightarrow> marks c f = None" and "\<And>m f. marks c f = Some m \<Longrightarrow> m \<le> pos c"
  shows "safe data (url_step ch c)"
  using assms parse_url_char_states[of "state c" ch] url_states_ok(1)[of "parse_url_char (state c) ch"]
    url_states_ok(2)[of "parse_url_char (state c) ch" "c\<lparr>state := parse_url_char (state c) ch\<rparr>"]
  by (auto simp: url_step_def inv_def wf_def marks_ok_def Let_def)

lemma const_at_nonzero: "\<lbrakk>const_at (method_strings m) i = Some ch; ch \<noteq> 0\<rbrakk> \<Longrightarrow> i < length (method_strings m)"
  by (auto simp: const_at_def split: if_splits)

lemma method_safe:
  assumes "inv data 1 c" and "state c = s_req_method"
  shows "safe data (exec_state S data ch c)"
proof -
  have i: "index c \<le> length (method_strings (p_method c))"
    using assms by (simp add: inv_defs)
  have "length (method_strings m) \<le> 11" for m
    by (cases m) simp_all
  then have "index c \<le> 11"
    using i order_trans by blast
  moreover obtain e where e: "const_at (method_strings (p_method c)) (index c) = Some e"
    using i by (cases "index c = length (method_strings (p_method c))") (auto simp: const_at_def)
  ultimately show ?thesis
    using assms const_at_nonzero[of "p_method c" "index c" ch] other_method_length[of "p_method c" "index c" ch]
    by (auto simp: exec_state_def at_req_method_def inv_defs split: option.splits)
qed

lemma url_safe:
  assumes "inv data 1 c" and "state c = s_req_spaces_before_url \<or> state c \<in> url_states"
  shows "safe data (exec_state S data ch c)"
  using assms
  by (elim disjE) (auto simp: url_states_def exec_state_def at_req_spaces_before_url_def at_req_schema_def at_req_url_def
     MARK_def Let_def inv_defs callback_defs intro!: url_step_safe data_safe split: if_splits)

lemma request_line_safe:
  assumes "inv data 1 c"
    and "state c \<in> {s_req_http_start, s_req_http_H, s_req_http_HT, s_req_http_HTT, s_req_http_HTTP, s_req_first_http_major,
       s_req_http_major, s_req_first_http_minor, s_req_http_minor, s_req_line_almost_done}"
  shows "safe data (exec_state S data ch c)"
  using assms(2,1)
  by (elim insertE emptyE, simp_all only: exec_state_def state.case)
    (auto simp: simple_state_defs Let_def inv_defs callback_defs)

lemma value_start_safe:
  assumes "http_errno c = HPE_OK" and "index c \<le> 18" and "pos c < length data"
    and "\<And>f. f \<noteq> Header_value \<Longrightarrow> marks c f = None" and "\<And>m f. marks c f = Some m \<Longrightarrow> m \<le> pos c"
  shows "safe data (at_header_value_start ch c)"
  using assms
  by (cases "header_state c") (simp_all add: at_header_value_start_def MARK_def Let_def inv_defs value_state_def)

lemma header_safe:
  assumes "inv data 1 c"
    and "state c \<in> {s_header_value_discard_ws, s_header_value_discard_ws_almost_done, s_header_value_discard_lws,
       s_header_value_start, s_header_value_lws, s_header_almost_done}"
  shows "safe data (exec_state S data ch c)"
  using assms(2,1)
  by (elim insertE emptyE, simp_all only: exec_state_def state.case)
    (auto simp: at_header_value_discard_ws_def at_header_value_discard_lws_def at_header_value_lws_def expect_LF_def
       at_literal_def STRICT_CHECK_def finish_header_def MARK_def Let_def inv_defs callback_defs intro!: data_safe value_start_safe)

lemma field_start_safe:
  assumes "inv data 1 c" and "state c = s_header_field_start"
  shows "safe data (exec_state S data ch c)"
  using assms by (simp add: exec_state_def at_header_field_start_def first_header_state_def MARK_def Let_def inv_defs field_state_def)

lemma unhex_table: "list_all (\<lambda>n. case unhex (of_nat n) of None \<Rightarrow> True | Some v \<Rightarrow> unat v < 16) [0..<256]"
  by code_simp

lemma unhex_less: "unhex ch = Some v \<Longrightarrow> unat v < 16"
proof -
  have "unat ch \<in> set [0..<256]"
    using unsigned_less[of ch] by simp
  with unhex_table have "case unhex (of_nat (unat ch)) of None \<Rightarrow> True | Some v \<Rightarrow> unat v < 16"
    unfolding list_all_iff by (rule bspec)
  then show "unhex ch = Some v \<Longrightarrow> unat v < 16"
    by simp
qed

lemma unat_ULLONG_MAX: "unat ULLONG_MAX = 2 ^ 64 - 1"
  by (simp add: ULLONG_MAX_def unsigned_minus_1_eq_mask mask_eq_exp_minus_1)

lemma chunk_size_limit: "unat ((ULLONG_MAX - 16) div 16) = 2 ^ 60 - 2"
proof -
  have "unat (ULLONG_MAX - 16) = 2 ^ 64 - 17"
    by (subst unat_sub) (simp_all add: word_le_nat_alt unat_ULLONG_MAX)
  then show ?thesis
    by (simp add: unat_div)
qed

lemma chunk_size_step:
  assumes "\<not> (ULLONG_MAX - 16) div 16 < n" and "unat v < 16"
  shows "n * 16 + v \<noteq> ULLONG_MAX"
proof
  assume eq: "n * 16 + v = ULLONG_MAX"
  have n: "unat n \<le> 2 ^ 60 - 2"
    using assms(1) by (simp add: word_less_nat_alt chunk_size_limit)
  then have "unat (n * 16) = unat n * 16"
    by (subst unat_mult_lem[THEN iffD1]) auto
  with n assms(2) have "unat (n * 16 + v) = unat n * 16 + unat v"
    by (subst unat_add_lem[THEN iffD1]) auto
  with n assms(2) eq show False
    by (simp add: unat_ULLONG_MAX)
qed

lemma NEW_MESSAGE_states: "NEW_MESSAGE c \<in> {s_dead, s_start_req, s_start_res}"
  by (simp add: NEW_MESSAGE_def start_state_def)

lemma message_complete_safe:
  assumes "http_errno c = HPE_OK" and "index c \<le> 18" and "pos c < length data" and "marks c = (\<lambda>_. None)"
    and "\<And>c'. inv data 0 c' \<Longrightarrow> safe data (k c')"
  shows "safe data (message_complete S c k)"
  using assms NEW_MESSAGE_states[of c]
  by (auto simp: message_complete_def callback_defs inv_defs intro!: notify_safe)

lemma done_safe:
  assumes "inv data 1 c" and "state c \<in> {s_headers_done, s_message_done}"
  shows "safe data (exec_state S data ch c)"
proof -
  have m: "marks c = (\<lambda>_. None)"
    using assms by (auto simp: inv_defs)
  have inv: "inv data 0 c' \<Longrightarrow> safe data (Return (pos c' + 1) c')" for c'
    by (simp add: inv_def)
  show ?thesis
    using assms(2,1) m
    by (elim insertE emptyE, simp_all only: exec_state_def state.case)
      (auto simp: at_headers_done_def at_message_done_def STRICT_CHECK_def Let_def inv_defs chunked_def counted_length_def inv[unfolded inv_defs]
         intro!: message_complete_safe)
qed

lemma headers_complete_safe:
  assumes "inv data 1 c" and "state c = s_headers_done"
  shows "safe data (headers_complete S c)"
  using assms by (auto simp: headers_complete_def Let_def inv_defs split: option.splits prod.splits)

lemma headers_almost_done_safe:
  assumes "inv data 1 c" and "state c = s_headers_almost_done"
  shows "safe data (exec_state S data ch c)"
  using assms
  by (auto simp: exec_state_def at_headers_almost_done_def STRICT_CHECK_def callback_defs inv_defs intro!: notify_safe headers_complete_safe)

lemma identity_eof_safe:
  assumes "inv data 1 c" and "state c = s_body_identity_eof"
  shows "safe data (exec_state S data ch c)"
proof -
  have "m \<le> length data - 1" if "m \<le> pos c" for m
    using assms(1) that unfolding inv_def by linarith
  then show ?thesis
    using assms by (auto simp: exec_state_def at_body_identity_eof_def MARK_def Let_def inv_defs)
qed

lemma chunk_safe:
  assumes "inv data 1 c"
    and "state c \<in> {s_chunk_size_start, s_chunk_size, s_chunk_parameters, s_chunk_size_almost_done,
      s_chunk_data_almost_done, s_chunk_data_done}"
  shows "safe data (exec_state S data ch c)"
proof -
  have "v \<noteq> ULLONG_MAX" if "unhex ch = Some v" for v
    using unhex_less[OF that] by (auto simp: unat_ULLONG_MAX)
  then show ?thesis
    using assms(2,1) chunk_size_step unhex_less
  by (elim insertE emptyE, simp_all only: exec_state_def state.case)
    (auto simp: at_chunk_size_start_def at_chunk_size_def at_chunk_parameters_def at_chunk_size_almost_done_def
       at_chunk_data_almost_done_def at_chunk_data_done_def STRICT_CHECK_def Let_def inv_defs callback_defs chunked_def counted_length_def
       F_TRAILING_def F_CHUNKED_def bit_set_bit_iff intro!: notify_safe data_safe split: option.splits)
qed

lemma read_body_sel:
  "http_errno (read_body data c) = http_errno c" "flags (read_body data c) = flags c" "state (read_body data c) = state c"
  "index (read_body data c) = index c" "app (read_body data c) = app c"
  "marks (read_body data c) = (if marks c Body = None then (marks c)(Body := Some (pos c)) else marks c)"
  by (simp_all add: read_body_def MARK_def Let_def)

lemma read_body_left:
  assumes "content_length c \<noteq> ULLONG_MAX"
  shows "content_length (read_body data c) \<noteq> ULLONG_MAX"
proof -
  define n where "n = min (unat (content_length c)) (length data - pos c)"
  have "unat (content_length c) < 2 ^ 64"
    using unsigned_less[of "content_length c"] by simp
  then have "unat (of_nat n :: u64) = n"
    by (simp add: unsigned_of_nat take_bit_nat_eq_self n_def)
  then have "unat (content_length c - of_nat n) = unat (content_length c) - n"
    by (subst unat_sub) (simp_all add: word_le_nat_alt n_def)
  moreover have "unat (content_length c) < 2 ^ 64 - 1"
    using assms \<open>unat (content_length c) < 2 ^ 64\<close> unat_ULLONG_MAX word_unat_eq_iff[of "content_length c" ULLONG_MAX] by linarith
  ultimately have "unat (content_length c - of_nat n) < unat ULLONG_MAX"
    by (simp add: unat_ULLONG_MAX)
  then show ?thesis
    by (auto simp: read_body_def Let_def n_def)
qed

lemma body_safe:
  assumes "inv data 1 c" and "state c = s_body_identity \<or> state c = s_chunk_data"
  shows "safe data (exec_state S data ch c)"
proof -
  have "pos c < length data" "content_length c \<noteq> 0" "content_length c \<noteq> ULLONG_MAX"
    using assms by (auto simp: inv_defs counted_length_def)
  note p = read_body_pos[OF this(1,2)] read_body_left[OF this(3), of data] read_body_sel[of data c]
  have "\<forall>f m. marks c f = Some m \<longrightarrow> m \<le> pos c"
    using assms(1) by (simp add: inv_def marks_ok_def)
  then have m: "\<forall>f m. marks c f = Some m \<longrightarrow> m \<le> pos (read_body data c) \<and> m \<le> Suc (pos (read_body data c))"
    using p(1) le_trans le_SucI by metis
  from assms p m show ?thesis
    by (auto simp: exec_state_def at_body_identity_def at_chunk_data_def Let_def inv_defs chunked_def counted_length_def
          intro!: data_safe)
qed

lemma match_field_ok:
  assumes "field_state h" and "i \<le> index_bound h"
  obtains h' i' where "match_field t ch h i = Some (h', i')" and "field_state h'" and "i' \<le> index_bound h'"
proof -
  have "\<exists>h' i'. match_field t ch h i = Some (h', i') \<and> field_state h' \<and> i' \<le> index_bound h'"
    using assms by (cases h) (auto simp: match_field_def match_const_def const_at_def Let_def field_state_def)
  with that show thesis by blast
qed

lemma field_loop_ok:
  assumes "field_state h" and "i \<le> index_bound h"
  shows "\<exists>p' h' i'. field_loop cs p h i = Some (p', h', i') \<and> field_state h' \<and> i' \<le> index_bound h'"
  using assms
proof (induction cs p h i rule: field_loop.induct)
  case (2 ch cs p h i)
  obtain h' i' where "match_field (TOKEN ch) ch h i = Some (h', i')" "field_state h'" "i' \<le> index_bound h'"
    using match_field_ok 2(2,3) by blast
  with 2 show ?case by auto
qed simp

lemma index_bound_le: "index_bound h \<le> 18"
  by (cases h) simp_all

lemma field_safe:
  assumes "inv data 1 c" and "state c = s_header_field"
  shows "safe data (exec_state S data ch c)"
proof -
  have "field_state (header_state c)" "index c \<le> index_bound (header_state c)"
    using assms by (simp_all add: inv_defs)
  then obtain p h i where l: "field_loop (drop (pos c) data) (pos c) (header_state c) (index c) = Some (p, h, i)"
      and h: "field_state h" "i \<le> index_bound h"
    using field_loop_ok by blast
  have i: "i \<le> 18"
    using h(2) index_bound_le[of h] by linarith
  have p: "p \<le> length data" "p - 1 < length data" "\<forall>f m. marks c f = Some m \<longrightarrow> m \<le> p \<and> (p = length data \<longrightarrow> m \<le> p - 1)"
    using field_loop_pos[OF l] assms by (fastforce simp: inv_def marks_ok_def)+
  show ?thesis
    using assms l h i p
    by (auto simp: exec_state_def at_header_field_def COUNT_HEADER_SIZE_def callback_defs inv_defs Let_def intro!: data_safe)
qed

definition value_inv :: "bytes \<Rightarrow> nat \<Rightarrow> header_states \<Rightarrow> 'a exec \<Rightarrow> bool" where
  "value_inv data start h c \<longleftrightarrow> http_errno c = HPE_OK \<and> start < length data \<and> start \<le> pos c \<and> pos c \<le> length data \<and>
     state c = s_header_value \<and> value_state h \<and> index c \<le> index_bound h \<and>
     (\<forall>f. f \<noteq> Header_value \<longrightarrow> marks c f = None) \<and> (\<forall>m. marks c Header_value = Some m \<longrightarrow> m \<le> start)"

lemma line_end_le: "p \<le> length data \<Longrightarrow> line_end data p \<le> length data"
  by (auto simp: line_end_def Let_def)

lemma match_const_ok:
  assumes "i \<le> length s - 2" and "2 \<le> length s"
  shows "\<exists>h'. match_const s h full other t i = Some (h', i + 1) \<and> (h' = h \<and> i + 1 \<le> length s - 2 \<or> h' = full \<or> h' = other)"
  using assms by (auto simp: match_const_def const_at_def Let_def)

lemma const_value_ok:
  assumes "value_inv data start h c" and "pos c < length data"
    and "index_bound h = length s - 2" "2 \<le> length s" "length s \<le> 16"
    and "value_state full" "value_state other" "index_bound full = 18" "index_bound other = 18"
    and "r = (case match_const s h full other t (index c) of None \<Rightarrow> Inl Abort | Some (h', i) \<Rightarrow> Inr (h', c\<lparr>index := i\<rparr>))"
  shows "case r of Inl r \<Rightarrow> safe data r | Inr (h', c') \<Rightarrow> value_inv data start h' (c'\<lparr>pos := pos c' + 1\<rparr>)"
proof -
  have i: "index c \<le> length s - 2" "index c + 1 \<le> 18"
    using assms(1,3,5) by (auto simp: value_inv_def)
  obtain h' where m: "match_const s h full other t (index c) = Some (h', index c + 1)"
      and h': "h' = h \<and> index c + 1 \<le> length s - 2 \<or> h' = full \<or> h' = other"
    using match_const_ok[OF i(1) assms(4)] by blast
  then have "value_state h' \<and> index c + 1 \<le> index_bound h'"
    using assms i(2) by (auto simp: value_inv_def)
  then show ?thesis
    using m assms(1,2,10) by (simp add: value_inv_def)
qed

lemma match_value_ok:
  assumes "value_inv data start h c" and "pos c < length data" and "ch = data ! pos c" "ch \<noteq> CR" "ch \<noteq> LF"
  shows "case match_value data ch h c of Inl r \<Rightarrow> safe data r | Inr (h', c') \<Rightarrow> value_inv data start h' (c'\<lparr>pos := pos c' + 1\<rparr>)"
proof -
  have l: "start < line_end data (pos c)" "line_end data (pos c) \<le> length data" "start < length data" "pos c \<le> length data"
    using line_end_ge[of "pos c" data] line_end_le[of "pos c" data] assms by (auto simp: value_inv_def)
  have i: "index c \<le> 18" "index c \<le> index_bound h"
    using assms(1) index_bound_le[of h] by (simp_all add: value_inv_def)
  show ?thesis
  proof (cases "h \<in> {h_matching_transfer_encoding_chunked, h_matching_connection_keep_alive, h_matching_connection_close, h_matching_connection_upgrade}")
    case True
    then show ?thesis
      by (elim insertE emptyE)
        (rule const_value_ok[OF assms(1,2)], simp_all add: match_value_def Let_def value_state_def split del: option.split)+
  next
    case False
    then show ?thesis
      using assms(1,2) i l
      by (cases h) (simp_all add: match_value_def value_inv_def value_state_def token_flag_def Let_def)
  qed
qed

lemma value_end_safe:
  assumes "value_inv data start h c"
  shows "safe data (value_end data start h c)"
    and "pos c < length data \<Longrightarrow> safe data (value_end data start h (c\<lparr>state := s_header_almost_done, header_state := h', app := a, marks := (marks c)(Header_value := None)\<rparr>))"
proof -
  have "index c \<le> 18"
    using assms index_bound_le[of h] by (simp add: value_inv_def)
  moreover have "marks c f = Some m \<Longrightarrow> m \<le> start" for f m
    using assms by (cases "f = Header_value") (simp_all add: value_inv_def)
  ultimately show "safe data (value_end data start h c)"
    and "pos c < length data \<Longrightarrow> safe data (value_end data start h (c\<lparr>state := s_header_almost_done, header_state := h', app := a, marks := (marks c)(Header_value := None)\<rparr>))"
    using assms by (fastforce simp: value_end_def value_inv_def COUNT_HEADER_SIZE_def inv_defs Let_def)+
qed

lemma value_loop_safe:
  assumes "value_inv data start h c"
  shows "safe data (value_loop S data start h c)"
  using assms
proof (induction S data start h c rule: value_loop.induct)
  case (1 S data start h c)
  note v = 1(2)
  show ?case
  proof (cases "pos c < length data \<and> data ! pos c \<noteq> CR \<and> data ! pos c \<noteq> LF \<and> (lenient_http_headers c \<or> IS_HEADER_CHAR (data ! pos c))")
    case True
    with match_value_ok[OF v] have ok: "case match_value data (data ! pos c) h c of Inl r \<Rightarrow> safe data r
        | Inr (h', c') \<Rightarrow> value_inv data start h' (c'\<lparr>pos := pos c' + 1\<rparr>)"
      by blast
    show ?thesis
    proof (cases "match_value data (data ! pos c) h c")
      case (Inl r)
      with True ok show ?thesis by (subst value_loop.simps) (simp add: Let_def)
    next
      case (Inr r)
      then obtain h' c' where r: "match_value data (data ! pos c) h c = Inr (h', c')" by (cases r) auto
      with 1 True ok show ?thesis by (subst value_loop.simps) (simp add: Let_def)
    qed
  next
    case False
    have "index c \<le> 18" "\<And>m. marks c Header_value = Some m \<Longrightarrow> m \<le> pos c"
      using v index_bound_le[of h] by (fastforce simp: value_inv_def)+
    with False v value_end_safe[OF v] show ?thesis
      by (subst value_loop.simps)
        (auto simp: Let_def callback_defs COUNT_HEADER_SIZE_def value_inv_def inv_defs intro!: data_safe)
  qed
qed

lemma value_safe:
  assumes "inv data 1 c" and "state c = s_header_value"
  shows "safe data (exec_state S data ch c)"
  using assms by (auto simp: exec_state_def at_header_value_def value_inv_def inv_defs intro!: value_loop_safe)

lemma exec_state_safe:
  assumes "inv data 1 c"
  shows "safe data (exec_state S data ch c)"
  using start_line_safe[OF assms] method_safe[OF assms] url_safe[OF assms] request_line_safe[OF assms] field_start_safe[OF assms]
    field_safe[OF assms] header_safe[OF assms] value_safe[OF assms] headers_almost_done_safe[OF assms] done_safe[OF assms]
    body_safe[OF assms] identity_eof_safe[OF assms] chunk_safe[OF assms]
  by (cases "state c") (simp_all add: url_states_def)
section \<open>The loop\<close>

lemma wf_other:
  "wf n (c\<lparr>app := a, marks := m\<rparr>) = wf n c" "wf n (c\<lparr>marks := m\<rparr>) = wf n c" "wf n (c\<lparr>app := a\<rparr>) = wf n c"
  "wf n (c\<lparr>pos := p\<rparr>) = wf n c" "wf n (HttpParser.truncate c) = wf n c"
  by (cases "state c", simp_all add: wf_def state_ok_def HttpParser.truncate_def chunked_def counted_length_def)+

lemma wf_counted:
  assumes "wf 0 c" and "PARSING_HEADER (state c) \<Longrightarrow> nread c' = nread c + 1" and "\<not> PARSING_HEADER (state c) \<Longrightarrow> c' = c"
    and "c' = c\<lparr>nread := nread c'\<rparr>"
  shows "wf 1 (c' :: 'a exec)"
proof (cases "state c = s_chunk_size_start")
  case True
  with assms show ?thesis
    by (subst assms(4), subst assms(2)) (simp_all add: wf_def state_ok_def PARSING_HEADER_def chunked_def)
next
  case False
  then show ?thesis
    using assms(1) by (subst assms(4)) (cases "state c", simp_all add: wf_def state_ok_def chunked_def counted_length_def)
qed

definition loop_inv :: "bytes \<Rightarrow> bool \<Rightarrow> 'a exec \<Rightarrow> bool" where
  "loop_inv data again c \<longleftrightarrow> http_errno c = HPE_OK \<and> wf (if again then 1 else 0) c \<and> marks_ok c \<and> pos c \<le> length data \<and>
     (again \<longrightarrow> pos c < length data)"

lemma exec_turn_safe:
  assumes "loop_inv data again c" and "pos c < length data"
  shows "safe data (exec_turn S data again c)"
proof -
  have "inv data 1 c" if "again"
    using assms that by (simp add: loop_inv_def inv_def)
  moreover have "inv data 1 (c\<lparr>nread := nread c + 1\<rparr>)" if "\<not> again" "PARSING_HEADER (state c)"
    using assms that wf_counted[of c "c\<lparr>nread := nread c + 1\<rparr>"] by (simp add: loop_inv_def inv_def marks_ok_def)
  moreover have "inv data 1 c" if "\<not> again" "\<not> PARSING_HEADER (state c)"
    using assms that wf_counted[of c c] by (simp add: loop_inv_def inv_def)
  ultimately show ?thesis
    using assms(2) by (auto simp: exec_turn_def COUNT_HEADER_SIZE_def Let_def intro!: exec_state_safe)
qed

text \<open>What \<open>http_parser_execute\<close> returns.\<close>

definition result_ok :: "bytes \<Rightarrow> nat \<Rightarrow> 'z HttpParser_scheme \<Rightarrow> bool" where
  "result_ok data n c \<longleftrightarrow> n \<le> length data \<and> (http_errno c = HPE_OK \<longrightarrow> wf 0 c)"

lemma marks_single:
  assumes "marks_ok c"
  shows "length (filter (\<lambda>f. marks c f \<noteq> None) [Header_field, Header_value, Url, Body, Status]) \<le> 1"
  using assms by (cases "mark_of (state c)"; cases "the (mark_of (state c))") (auto simp: marks_ok_def)

lemma exec_finish_safe:
  assumes "loop_inv data again c" and "pos c = length data"
  shows "leads False (\<lambda>_. False) (\<lambda>_. False) (result_ok data) (exec_finish S data c)"
proof -
  have "m \<le> length data" if "marks c f = Some m" for f m
    using assms that by (auto simp: loop_inv_def marks_ok_def)
  moreover have "wf 0 c"
    using assms by (auto simp: loop_inv_def)
  ultimately show ?thesis
    using assms marks_single[of c] unfolding exec_finish_def callback_defs
    by (auto simp: loop_inv_def result_ok_def wf_other simp del: filter.simps intro!: leads_data_in_bounds split: if_splits)
qed

lemma exec_loop_safe:
  assumes "loop_inv data again c"
  shows "\<exists>n c'. exec_loop S data again c = Some (n, c') \<and> result_ok data n c'"
  using assms
proof (induction S data again c rule: exec_loop.induct)
  case (1 S data again c)
  show ?case
  proof (cases "\<not> again \<and> pos c = length data")
    case True
    with exec_finish_safe[OF 1(3), of S] show ?thesis
      by (subst exec_loop.simps) (auto simp: result_ok_def split: step.splits)
  next
    case False
    then have p: "pos c < length data"
      using 1(3) by (auto simp: loop_inv_def)
    show ?thesis
    proof (cases "exec_turn S data again c")
      case (Next c')
      then have "loop_inv data False (c'\<lparr>pos := pos c' + 1\<rparr>)"
        using exec_turn_safe[OF 1(3) p, of S] by (auto simp: loop_inv_def inv_def marks_ok_def wf_other intro: le_SucI)
      with 1(1) Next False p show ?thesis
        by (subst exec_loop.simps) simp
    next
      case (Again c')
      then have "loop_inv data True c'"
        using exec_turn_safe[OF 1(3) p, of S] by (simp add: loop_inv_def inv_def)
      with 1(2) Again False p show ?thesis
        by (subst exec_loop.simps) simp
    next
      case (Fail e c')
      with exec_turn_safe[OF 1(3) p, of S] False show ?thesis
        by (subst exec_loop.simps) (auto simp: result_ok_def)
    next
      case (Return n c')
      with exec_turn_safe[OF 1(3) p, of S] False show ?thesis
        by (subst exec_loop.simps) (auto simp: result_ok_def)
    next
      case Abort
      with exec_turn_safe[OF 1(3) p, of S] show ?thesis by simp
    qed
  qed
qed

lemma truncate_errno: "http_errno (HttpParser.truncate c) = http_errno c"
  by (simp add: HttpParser.truncate_def)

section \<open>Executing\<close>

lemma http_parser_init_wf: "wf 0 (http_parser_init t)"
  by (simp add: http_parser_init_def wf_def state_ok_def)

lemma begin_exec_sel:
  "http_errno (begin_exec parser a) = http_errno parser" "state (begin_exec parser a) = state parser"
  "pos (begin_exec parser a) = 0" "marks (begin_exec parser a) = (\<lambda>_. None)" "wf n (begin_exec parser a) = wf n parser"
  by (cases "state parser"; simp add: begin_exec_def HttpParser.extend_def wf_def state_ok_def chunked_def counted_length_def)+

lemma execute_safe:
  assumes "http_errno parser = HPE_OK \<Longrightarrow> wf 0 parser"
  obtains n parser' a' where "http_parser_execute S data parser a = Some (n, parser', a')" and "n \<le> max 1 (length data)"
    and "http_errno parser' = HPE_OK \<Longrightarrow> wf 0 parser'"
proof (cases "http_errno parser = HPE_OK")
  case False
  with that show ?thesis by (simp add: http_parser_execute_def)
next
  case ok: True
  show ?thesis
  proof (cases "data = []")
    case True
    have "\<exists>n c. exec_eof S (begin_exec parser a) = Return n c \<and> n \<le> 1 \<and> (http_errno c = HPE_OK \<longrightarrow> wf 0 c)"
      using ok assms
      by (auto simp: exec_eof_def callback_defs callback_notify_def begin_exec_sel wf_other split: option.splits prod.splits)
    with ok True that show ?thesis
      by (auto simp: http_parser_execute_def wf_other truncate_errno)
  next
    case False
    have "loop_inv data False ((begin_exec parser a)\<lparr>marks := first_marks (state parser)\<rparr>)"
      using ok assms
      by (cases "state parser") (auto simp: loop_inv_def marks_ok_def mark_of_def first_marks_def begin_exec_sel wf_other)
    from exec_loop_safe[OF this, of S] obtain n c where
      "exec_loop S data False ((begin_exec parser a)\<lparr>marks := first_marks (state parser)\<rparr>) = Some (n, c)" "result_ok data n c"
      by blast
    with ok False that show ?thesis
      by (auto simp: http_parser_execute_def result_ok_def wf_other truncate_errno le_max_iff_disj)
  qed
qed

text \<open>A direction of a connection: its segments in order, each handed to the parser.\<close>

fun parser_feed :: "'a http_parser_settings \<Rightarrow> bytes list \<Rightarrow> HttpParser \<Rightarrow> 'a \<Rightarrow> (nat list \<times> HttpParser \<times> 'a) option" where
  "parser_feed S [] parser a = Some ([], parser, a)"
| "parser_feed S (data # chunks) parser a =
     (case http_parser_execute S data parser a of None \<Rightarrow> None
      | Some (n, parser, a) \<Rightarrow> map_option (\<lambda>(ns, r). (n # ns, r)) (parser_feed S chunks parser a))"

lemma parser_feed_safe:
  assumes "http_errno parser = HPE_OK \<Longrightarrow> wf 0 parser"
  shows "\<exists>ns r. parser_feed S chunks parser a = Some (ns, r) \<and> list_all2 (\<lambda>n data. n \<le> max 1 (length data)) ns chunks"
  using assms
proof (induction chunks arbitrary: parser a)
  case (Cons data chunks)
  obtain n parser' a' where r: "http_parser_execute S data parser a = Some (n, parser', a')" "n \<le> max 1 (length data)"
      "http_errno parser' = HPE_OK \<Longrightarrow> wf 0 parser'"
    by (rule execute_safe[OF Cons.prems]) blast+
  from Cons.IH[OF r(3), of a'] r(1,2) show ?case
    by auto
qed simp

text \<open>
  C11: The parser of \<open>app/http/HttpParser.cc\<close> is total and safe on hostile input. Started by
  \<open>http_parser_init\<close> and fed any segments with any callbacks, every call of
  \<open>http_parser_execute\<close> returns; none of its assertions fails (among them that at most one mark is
  set, that a length is known where a body is read, that \<open>nread\<close> is 1 at a chunk size), it never
  reads outside the segment or behind the NUL of a constant or method name, and every data callback
  gets a range of the segment. A call reports at most the bytes it was given (1 for an unexpected
  end of input).
\<close>

theorem http_parser_safe:
  "\<exists>ns r. parser_feed S chunks (http_parser_init t) a = Some (ns, r) \<and> list_all2 (\<lambda>n data. n \<le> max 1 (length data)) ns chunks"
  by (rule parser_feed_safe) (rule http_parser_init_wf)

end
