(* ===== verification/Http_Client.thy ===== *)
theory Http_Client
  imports Http_Safety
begin

text \<open>
  The contract between the parser and its client. A parser initialised for requests or for
  responses never leaves the states of its kind, so the URL callback is only called on a
  request and the status callback only on a response. A property of the client that its
  callbacks keep under this promise is kept by \<open>http_parser_execute\<close>: the locale
  \<open>parser_client\<close>, with the promise as the assumption of its laws.
\<close>

text \<open>Named, so that no method replaces the type by a constant.\<close>

definition is_request :: "http_parser_type \<Rightarrow> bool" where
  "is_request t \<longleftrightarrow> t = HTTP_REQUEST"

definition is_response :: "http_parser_type \<Rightarrow> bool" where
  "is_response t \<longleftrightarrow> t = HTTP_RESPONSE"

definition same_type :: "http_parser_type \<Rightarrow> http_parser_type \<Rightarrow> bool" where
  "same_type t t' \<longleftrightarrow> t = t'"

definition state_of_type :: "http_parser_type \<Rightarrow> state \<Rightarrow> bool" where
  "state_of_type t s = (case s of
     s_start_req_or_res \<Rightarrow> False | s_res_or_resp_H \<Rightarrow> False
   | s_start_res \<Rightarrow> is_response t | s_res_H \<Rightarrow> is_response t | s_res_HT \<Rightarrow> is_response t | s_res_HTT \<Rightarrow> is_response t
   | s_res_HTTP \<Rightarrow> is_response t | s_res_first_http_major \<Rightarrow> is_response t | s_res_http_major \<Rightarrow> is_response t
   | s_res_first_http_minor \<Rightarrow> is_response t | s_res_http_minor \<Rightarrow> is_response t
   | s_res_first_status_code \<Rightarrow> is_response t | s_res_status_code \<Rightarrow> is_response t
   | s_res_status_start \<Rightarrow> is_response t | s_res_status \<Rightarrow> is_response t | s_res_line_almost_done \<Rightarrow> is_response t
   | s_start_req \<Rightarrow> is_request t | s_req_method \<Rightarrow> is_request t | s_req_spaces_before_url \<Rightarrow> is_request t
   | s_req_schema \<Rightarrow> is_request t | s_req_schema_slash \<Rightarrow> is_request t | s_req_schema_slash_slash \<Rightarrow> is_request t
   | s_req_server_start \<Rightarrow> is_request t | s_req_server \<Rightarrow> is_request t | s_req_server_with_at \<Rightarrow> is_request t
   | s_req_path \<Rightarrow> is_request t | s_req_query_string_start \<Rightarrow> is_request t | s_req_query_string \<Rightarrow> is_request t
   | s_req_fragment_start \<Rightarrow> is_request t | s_req_fragment \<Rightarrow> is_request t
   | s_req_http_start \<Rightarrow> is_request t | s_req_http_H \<Rightarrow> is_request t | s_req_http_HT \<Rightarrow> is_request t
   | s_req_http_HTT \<Rightarrow> is_request t | s_req_http_HTTP \<Rightarrow> is_request t | s_req_first_http_major \<Rightarrow> is_request t
   | s_req_http_major \<Rightarrow> is_request t | s_req_first_http_minor \<Rightarrow> is_request t | s_req_http_minor \<Rightarrow> is_request t
   | s_req_line_almost_done \<Rightarrow> is_request t
   | _ \<Rightarrow> True)"

definition typed :: "http_parser_type \<Rightarrow> 'z HttpParser_scheme \<Rightarrow> bool" where
  "typed t p \<longleftrightarrow> same_type (p_type p) t \<and> state_of_type t (state p)"

lemma url_state_of_type: "s \<in> url_states \<Longrightarrow> state_of_type t s \<longleftrightarrow> is_request t"
  by (auto simp: url_states_def state_of_type_def)

definition field_type :: "http_parser_type \<Rightarrow> field \<Rightarrow> bool" where
  "field_type t f \<longleftrightarrow> (f = Url \<longrightarrow> is_request t) \<and> (f = Status \<longrightarrow> is_response t)"

definition marks_typed :: "http_parser_type \<Rightarrow> (field \<Rightarrow> nat option) \<Rightarrow> bool" where
  "marks_typed t m \<longleftrightarrow> (\<forall>f. m f \<noteq> None \<longrightarrow> field_type t f)"

lemma marks_typed_upd [simp]:
  "marks_typed t m \<Longrightarrow> marks_typed t (m(f := None))"
  "\<lbrakk>marks_typed t m; field_type t f\<rbrakk> \<Longrightarrow> marks_typed t (m(f := x))"
  by (simp_all add: marks_typed_def)

definition notify_keeps :: "http_parser_type \<Rightarrow> ('a \<Rightarrow> bool) \<Rightarrow> 'a http_cb option \<Rightarrow> bool" where
  "notify_keeps t I cb \<longleftrightarrow> (\<forall>f p a. cb = Some f \<longrightarrow> same_type (p_type p) t \<longrightarrow> I a \<longrightarrow> I (snd (f p a)))"

locale parser_client =
  fixes S :: "'a http_parser_settings" and t :: http_parser_type and I :: "'a \<Rightarrow> bool"
  assumes one_way: "is_request t \<or> is_response t"
    and notify: "notify_keeps t I (on_message_begin S)" "notify_keeps t I (on_headers_complete S)"
      "notify_keeps t I (on_message_complete S)" "notify_keeps t I (on_chunk_header S)" "notify_keeps t I (on_chunk_complete S)"
    and data: "\<lbrakk>data_cb f S = Some g; field_type t f; same_type (p_type p) t; I a\<rbrakk> \<Longrightarrow> I (snd (g p d a))"
begin

definition good :: "'a exec \<Rightarrow> bool" where
  "good c \<longleftrightarrow> typed t c \<and> marks_typed t (marks c) \<and> I (app c)"

definition keeps :: "'a step \<Rightarrow> bool" where
  "keeps = leads True good good (\<lambda>_. good)"

lemma keeps_simps [simp]:
  "keeps (Next c) \<longleftrightarrow> good c" "keeps (Again c) \<longleftrightarrow> good c" "keeps (Return n c) \<longleftrightarrow> good c" "keeps Abort"
  "keeps (if b then r else r') \<longleftrightarrow> (if b then keeps r else keeps r')"
  by (auto simp: keeps_def)

lemma good_other:
  "good (c\<lparr>pos := p\<rparr>) = good c" "good (c\<lparr>http_errno := e\<rparr>) = good c" "good (c\<lparr>nread := n\<rparr>) = good c"
  "good (c\<lparr>app := a, http_errno := e\<rparr>) = good (c\<lparr>app := a\<rparr>)"
  by (simp_all add: good_def typed_def)

lemma keeps_Fail [simp]: "good c \<Longrightarrow> e \<noteq> HPE_OK \<Longrightarrow> keeps (Fail e c)"
  by (simp add: keeps_def good_other)

lemma keeps_notify:
  assumes "good c" and "notify_keeps t I cb" and "\<And>a. I a \<Longrightarrow> keeps (k (c\<lparr>app := a\<rparr>))"
  shows "keeps (callback_notify cb err er c k)"
proof -
  have "I (app c)" "same_type (p_type (HttpParser.truncate c)) t"
    using assms(1) by (simp_all add: good_def typed_def HttpParser.truncate_def)
  then show ?thesis
    using assms assms(3)[of "app c"]
    by (auto simp: callback_notify_def notify_keeps_def good_def typed_def split: option.splits prod.splits) (metis snd_conv)+
qed

lemma keeps_data:
  assumes "good c" and "\<And>a m. \<lbrakk>I a; marks_typed t m\<rbrakk> \<Longrightarrow> keeps (k (c\<lparr>app := a, marks := m\<rparr>))"
  shows "keeps (callback_data S inp f stop er c k)"
proof (cases "marks c f")
  case None
  with assms(1) assms(2)[of "app c" "marks c"] show ?thesis
    by (simp add: callback_data_def good_def)
next
  case (Some m)
  have I: "I (app c)" "same_type (p_type (HttpParser.truncate c)) t" "field_type t f"
    using assms(1) Some by (simp_all add: good_def typed_def HttpParser.truncate_def marks_typed_def)
  show ?thesis
  proof (cases "data_cb f S")
    case None
    with Some I assms(1) assms(2)[of "app c" "(marks c)(f := None)"] show ?thesis
      by (simp add: callback_data_def good_def)
  next
    fix g assume g: "data_cb f S = Some g"
    obtain r a where r: "g (HttpParser.truncate c) (take (stop - m) (drop m inp)) (app c) = (r, a)"
      by (cases "g (HttpParser.truncate c) (take (stop - m) (drop m inp)) (app c)")
    then have a: "I a"
      using data[OF g I(3,2,1)] by (metis snd_conv)
    with Some g r assms(1) assms(2)[OF a, of "(marks c)(f := None)"] show ?thesis
      by (simp add: callback_data_def good_def typed_def)
  qed
qed

lemma NEW_MESSAGE_of_type: "good c \<Longrightarrow> state_of_type t (NEW_MESSAGE c)"
  using one_way
  by (auto simp: good_def typed_def NEW_MESSAGE_def start_state_def same_type_def is_request_def is_response_def state_of_type_def)

lemmas good_defs = good_def typed_def state_of_type_def field_type_def

lemma start_line_keeps:
  assumes "good c"
    and "state c \<in> {s_dead, s_start_req_or_res, s_res_or_resp_H, s_start_res, s_start_req, s_res_H, s_res_HT, s_res_HTT, s_res_HTTP,
      s_res_first_http_major, s_res_http_major, s_res_first_http_minor, s_res_http_minor, s_res_first_status_code,
      s_res_status_code, s_res_status_start, s_res_status, s_res_line_almost_done, s_req_method}"
  shows "keeps (exec_state S inp ch c)"
  using assms(2,1) notify
  by (elim insertE emptyE, simp_all only: exec_state_def state.case)
    (auto simp: simple_state_defs Let_def good_defs callback_defs intro!: keeps_notify keeps_data split: option.splits)

lemma request_line_keeps:
  assumes "good c"
    and "state c \<in> {s_req_http_start, s_req_http_H, s_req_http_HT, s_req_http_HTT, s_req_http_HTTP, s_req_first_http_major,
       s_req_http_major, s_req_first_http_minor, s_req_http_minor, s_req_line_almost_done}"
  shows "keeps (exec_state S inp ch c)"
  using assms(2,1)
  by (elim insertE emptyE, simp_all only: exec_state_def state.case)
    (auto simp: simple_state_defs Let_def good_defs)

lemma url_step_keeps:
  assumes "good c" and "is_request t"
  shows "keeps (url_step ch c)"
  using assms parse_url_char_states[of "state c" ch] url_state_of_type[of "parse_url_char (state c) ch" t]
  by (auto simp: url_step_def good_def typed_def Let_def state_of_type_def[of _ s_dead])

lemma url_keeps:
  assumes "good c" and "state c = s_req_spaces_before_url \<or> state c \<in> url_states"
  shows "keeps (exec_state S inp ch c)"
proof -
  have "is_request t"
    using assms url_state_of_type by (auto simp: good_def typed_def state_of_type_def[of _ s_req_spaces_before_url])
  then show ?thesis
    using assms
    by (elim disjE) (auto simp: url_states_def exec_state_def at_req_spaces_before_url_def at_req_schema_def at_req_url_def
       MARK_def Let_def good_defs callback_defs intro!: url_step_keeps keeps_data split: if_splits)
qed

lemma value_start_keeps:
  assumes "typed t c" and "marks_typed t (marks c)" and "I (app c)"
  shows "keeps (at_header_value_start ch c)"
  using assms by (cases "header_state c") (simp_all add: at_header_value_start_def MARK_def Let_def good_defs)

lemma header_keeps:
  assumes "good c"
    and "state c \<in> {s_header_field_start, s_header_value_discard_ws, s_header_value_discard_ws_almost_done, s_header_value_discard_lws,
       s_header_value_start, s_header_value_lws, s_header_almost_done}"
  shows "keeps (exec_state S inp ch c)"
  using assms(2,1)
  by (elim insertE emptyE, simp_all only: exec_state_def state.case)
    (auto simp: at_header_field_start_def at_header_value_discard_ws_def at_header_value_discard_lws_def at_header_value_lws_def expect_LF_def
       at_literal_def STRICT_CHECK_def finish_header_def MARK_def Let_def good_defs callback_defs intro!: keeps_data value_start_keeps)

lemma field_keeps:
  assumes "good c" and "state c = s_header_field"
  shows "keeps (exec_state S inp ch c)"
  using assms
  by (auto simp: exec_state_def at_header_field_def COUNT_HEADER_SIZE_def callback_defs good_defs Let_def
      intro!: keeps_data split: option.splits)

lemma match_value_keeps:
  assumes "good c" and "state c = s_header_value"
  shows "case match_value inp ch h c of Inl r \<Rightarrow> keeps r | Inr (h', c') \<Rightarrow> good c' \<and> state c' = s_header_value"
  using assms by (cases h) (auto simp: match_value_def Let_def good_defs split: option.splits)

lemma value_end_keeps: "good c \<Longrightarrow> keeps (value_end inp start h c)"
  by (simp add: value_end_def COUNT_HEADER_SIZE_def Let_def good_def typed_def)

lemma value_loop_keeps:
  assumes "good c" and "state c = s_header_value" and "S' = S"
  shows "keeps (value_loop S' inp start h c)"
  using assms
proof (induction S' inp start h c rule: value_loop.induct)
  case (1 S' inp start h c)
  show ?case
  proof (cases "pos c < length inp \<and> inp ! pos c \<noteq> CR \<and> inp ! pos c \<noteq> LF \<and> (lenient_http_headers c \<or> IS_HEADER_CHAR (inp ! pos c))")
    case True
    have ok: "case match_value inp (inp ! pos c) h c of Inl r \<Rightarrow> keeps r | Inr (h', c') \<Rightarrow> good c' \<and> state c' = s_header_value"
      by (rule match_value_keeps[OF 1(2,3)])
    show ?thesis
    proof (cases "match_value inp (inp ! pos c) h c")
      case (Inl r)
      with True ok show ?thesis by (subst value_loop.simps) (auto simp: Let_def)
    next
      case (Inr r)
      then obtain h' c' where r: "match_value inp (inp ! pos c) h c = Inr (h', c')" by (cases r) auto
      with ok have "good (c'\<lparr>pos := pos c' + 1\<rparr>)" "state c' = s_header_value"
        by (simp_all add: good_other)
      with 1(1,4) r True show ?thesis by (subst value_loop.simps) (auto simp: Let_def)
    qed
  next
    case False
    with 1(2-4) show ?thesis
      by (subst value_loop.simps)
        (auto simp: Let_def callback_defs COUNT_HEADER_SIZE_def good_defs intro!: value_end_keeps keeps_data)
  qed
qed

lemma value_keeps:
  assumes "good c" and "state c = s_header_value"
  shows "keeps (exec_state S inp ch c)"
  using value_loop_keeps[OF assms refl] assms by (simp add: exec_state_def at_header_value_def)

lemma message_complete_keeps:
  assumes "good c" and "\<And>c. good c \<Longrightarrow> keeps (k c)"
  shows "keeps (message_complete S c k)"
  using assms NEW_MESSAGE_of_type[OF assms(1)] notify(3)
  by (auto simp: message_complete_def callback_defs good_def typed_def intro!: keeps_notify)

lemma headers_complete_keeps:
  assumes "good c"
  shows "keeps (headers_complete S c)"
proof (cases "on_headers_complete S")
  case (Some f)
  obtain r a where r: "f (HttpParser.truncate c) (app c) = (r, a)"
    by (cases "f (HttpParser.truncate c) (app c)")
  have "I (snd (f (HttpParser.truncate c) (app c)))"
    using Some notify(2) assms by (simp add: notify_keeps_def good_def typed_def HttpParser.truncate_def)
  with Some r assms show ?thesis
    by (simp add: headers_complete_def Let_def good_def typed_def)
qed (use assms in \<open>simp add: headers_complete_def\<close>)

lemma headers_end_keeps:
  assumes "good c" and "state c \<in> {s_headers_almost_done, s_headers_done, s_message_done}"
  shows "keeps (exec_state S inp ch c)"
  using assms(2,1) notify
  by (elim insertE emptyE, simp_all only: exec_state_def state.case)
    (auto simp: at_headers_almost_done_def at_headers_done_def at_message_done_def STRICT_CHECK_def Let_def callback_defs good_defs
      intro!: keeps_notify headers_complete_keeps message_complete_keeps)

lemma read_body_good: "good c \<Longrightarrow> good (read_body inp c)"
  by (simp add: good_def typed_def field_type_def read_body_def MARK_def Let_def)

lemma body_keeps:
  assumes "good c"
    and "state c \<in> {s_body_identity_eof, s_chunk_size_start, s_chunk_size, s_chunk_parameters, s_chunk_size_almost_done,
      s_chunk_data_almost_done, s_chunk_data_done, s_body_identity, s_chunk_data}"
  shows "keeps (exec_state S inp ch c)"
  using assms(2,1) notify read_body_good[OF assms(1), of inp]
  by (elim insertE emptyE, simp_all only: exec_state_def state.case)
    (auto simp: at_body_identity_eof_def at_chunk_size_start_def at_chunk_size_def at_chunk_parameters_def at_chunk_size_almost_done_def
       at_chunk_data_almost_done_def at_chunk_data_done_def at_body_identity_def at_chunk_data_def STRICT_CHECK_def MARK_def Let_def
       callback_defs good_defs intro!: keeps_notify keeps_data split: option.splits)

lemma exec_state_keeps: "good c \<Longrightarrow> keeps (exec_state S inp ch c)"
  using start_line_keeps[of c] request_line_keeps[of c] url_keeps[of c] header_keeps[of c] field_keeps[of c] value_keeps[of c]
    headers_end_keeps[of c] body_keeps[of c]
  by (cases "state c") (simp_all add: url_states_def)

lemma exec_turn_keeps: "good c \<Longrightarrow> keeps (exec_turn S inp again c)"
  by (simp add: exec_turn_def COUNT_HEADER_SIZE_def Let_def exec_state_keeps good_other)

lemma exec_finish_keeps: "good c \<Longrightarrow> keeps (exec_finish S inp c)"
  unfolding exec_finish_def callback_defs
  by (auto simp: good_def typed_def intro!: keeps_data simp del: filter.simps)

lemma exec_loop_keeps: "\<lbrakk>good c; S' = S; exec_loop S' inp again c = Some (n, c')\<rbrakk> \<Longrightarrow> good c'"
proof (induction S' inp again c rule: exec_loop.induct)
  case (1 S' inp again c)
  define r where "r = (if \<not> again \<and> pos c = length inp then exec_finish S' inp c else exec_turn S' inp again c)"
  have k: "keeps r"
    using 1(3,4) exec_turn_keeps exec_finish_keeps by (simp add: r_def)
  note eq = 1(5)[unfolded exec_loop.simps[of S' inp again c] r_def[symmetric]]
  show ?case
  proof (cases r)
    case (Next c1)
    with eq k 1(4) show ?thesis
      by (auto simp: r_def good_other intro!: 1(1)[OF _ _ _ 1(4)] split: if_splits)
  next
    case (Again c1)
    with eq k 1(4) show ?thesis
      by (auto simp: r_def intro!: 1(2)[OF _ _ _ 1(4)] split: if_splits)
  qed (use eq k in \<open>auto simp: keeps_def\<close>)
qed

lemma execute_keeps:
  assumes "typed t parser" and "I a" and "http_parser_execute S inp parser a = Some (n, parser', a')"
  shows "typed t parser' \<and> I a'"
proof (cases "http_errno parser = HPE_OK")
  case ok: True
  have typed: "typed t (begin_exec parser a)" "app (begin_exec parser a) = a" "marks (begin_exec parser a) = (\<lambda>_. None)"
    using assms(1) by (simp_all add: typed_def begin_exec_def HttpParser.extend_def)
  have out: "typed t (HttpParser.truncate c) = typed t c" for c :: "'a exec"
    by (simp add: typed_def HttpParser.truncate_def)
  show ?thesis
  proof (cases "inp = []")
    case True
    have "good (begin_exec parser a)"
      using typed assms(2) by (simp add: good_def marks_typed_def)
    then have "keeps (exec_eof S (begin_exec parser a))"
      using notify(3) by (auto simp: exec_eof_def callback_defs good_def typed_def intro!: keeps_notify)
    with ok True assms(3) show ?thesis
      by (auto simp: http_parser_execute_def keeps_def good_def out split: step.splits)
  next
    case False
    have "state_of_type t (state parser)"
      using assms(1) by (simp add: typed_def)
    then have "first_marks (state parser) f \<noteq> None \<Longrightarrow> field_type t f" for f
      by (auto simp: first_marks_def field_type_def state_of_type_def split: if_splits)
    then have "good ((begin_exec parser a)\<lparr>marks := first_marks (state parser)\<rparr>)"
      using typed assms(2) by (simp add: good_def typed_def marks_typed_def)
    from exec_loop_keeps[OF this refl] ok False assms(3) show ?thesis
      by (auto simp: http_parser_execute_def good_def out)
  qed
qed (use assms in \<open>simp add: http_parser_execute_def\<close>)

end

section \<open>Parsers stay of their type\<close>

interpretation request_only: parser_client S HTTP_REQUEST "\<lambda>_. True" for S
  by unfold_locales (simp_all add: notify_keeps_def is_request_def)

interpretation response_only: parser_client S HTTP_RESPONSE "\<lambda>_. True" for S
  by unfold_locales (simp_all add: notify_keeps_def is_response_def)

lemma init_typed: "t \<noteq> HTTP_BOTH \<Longrightarrow> typed t (http_parser_init t)"
  by (cases t) (simp_all add: typed_def same_type_def state_of_type_def http_parser_init_def is_request_def is_response_def)

lemma feed_typed:
  assumes keeps: "\<And>data p a n p' a'. \<lbrakk>typed t p; http_parser_execute S data p a = Some (n, p', a')\<rbrakk> \<Longrightarrow> typed t p'"
  shows "\<lbrakk>typed t p; parser_feed S chunks p a = Some (ns, p', a')\<rbrakk> \<Longrightarrow> typed t p'"
proof (induction chunks arbitrary: p a ns)
  case (Cons data chunks)
  then obtain n q b ns' where "http_parser_execute S data p a = Some (n, q, b)" "parser_feed S chunks q b = Some (ns', p', a')"
    by (auto split: option.splits)
  with Cons.IH keeps[OF Cons.prems(1)] show ?case by blast
qed simp


end
