(* ===== verification/Tcp_Stream.thy ===== *)
theory Tcp_Stream
  imports Net_Util
begin

text \<open>
  The two halves of a TCP connection and the reassembly of one direction: \<open>HalfStream\<close> and
  \<open>Skbuff\<close> of \<open>dpi/TcpFragment.h\<close>, and \<open>getWscale\<close>, \<open>handleAck\<close>, \<open>notify\<close>, \<open>addFromskb\<close>,
  \<open>tcpQueue\<close> and \<open>purgeQueue\<close> of \<open>dpi/TcpFragment.cc\<close>.

  \<open>sndr\<close> (\<open>snd\<close> in the code) is the half of the sender of a segment and \<open>rcv\<close> the half of its receiver. The
  C \<open>int\<close> counters \<open>count\<close> and \<open>urg_count\<close> are kept as their 32 bits, because they are only
  added into sequence numbers. What a function does outside the two halves (the data
  callbacks and the calls that change the timeout sets) is returned as a list of actions in
  program order. Fields that no code reads (\<open>offset\<close>, \<open>bufsize\<close>, \<open>acked\<close>) are left out.

  Proved: whatever order the segments of a stream arrive in, with repetitions and overlaps and
  with wrapping sequence numbers, the data delivered is a prefix of the stream, and it is
  the whole stream once the segments cover it.
\<close>

section \<open>State\<close>

datatype tcp_state = TCP_ESTABLISHED | TCP_SYN_SENT | TCP_SYN_RECV | TCP_CLOSE | TCP_CLOSING
  | FIN_SENT | FIN_CONFIRMED

record Skbuff =
  sk_data :: bytes
  sk_len :: int
  sk_truesize :: int
  sk_urg_ptr :: u32
  sk_fin :: bool
  sk_urg :: bool
  sk_seq :: u32

record HalfStream =
  h_state :: tcp_state
  h_count :: u32
  h_count_new :: int
  h_rmem_alloc :: int
  h_urg_count :: u32
  h_seq :: u32
  h_ack_seq :: u32
  h_first_data_seq :: u32
  h_urgdata :: u8
  h_count_new_urg :: bool
  h_urg_seen :: bool
  h_urg_ptr :: u32
  h_window :: u16
  h_wscale_on :: bool
  h_wscale :: u32
  h_fraglist :: "Skbuff list"

datatype tcp_act = Notify bytes | UpdateTcpTimeout | AddFinTimeout

definition EXP_SEQ :: "HalfStream \<Rightarrow> HalfStream \<Rightarrow> u32" where
  "EXP_SEQ sndr rcv = h_first_data_seq sndr + h_count rcv + h_urg_count rcv"

section \<open>Window scale option\<close>

lemma u8_pos [simp]: "\<not> unat (x :: u8) < 2 \<Longrightarrow> 0 < uint x"
  by (cases "x = 0") (auto simp: word_gt_0 uint_0_iff order_less_le)

text \<open>
  The loop of \<open>getWscale\<close> at option offset \<open>ind\<close>; the outer \<open>None\<close> is a read behind the end
  of the options. \<open>len\<close> is \<open>4 * th_off\<close>.
\<close>

function wscale_loop :: "bytes \<Rightarrow> int \<Rightarrow> nat \<Rightarrow> bool \<times> u32 \<Rightarrow> (bool \<times> u32) option" where
  "wscale_loop opts len ind (ret, ws) =
     (if int ind \<le> len - 20 - 3 then
        (case rd8 opts ind of None \<Rightarrow> None | Some kind \<Rightarrow>
           if kind = 0 then Some (ret, ws)
           else if kind = 1 then wscale_loop opts len (ind + 1) (ret, ws)
           else (case rd8 opts (ind + 1) of None \<Rightarrow> None | Some l \<Rightarrow>
             let res = (if kind = 3
                        then map_option (\<lambda>s. (True, push_bit (if unat s > 14 then 14 else unat s) 1)) (rd8 opts (ind + 2))
                        else Some (ret, ws))
             in case res of None \<Rightarrow> None
                | Some r \<Rightarrow> if unat l < 2 then Some r else wscale_loop opts len (ind + unat l) r))
      else Some (ret, ws))"
  by pat_completeness auto
termination
  by (relation "measure (\<lambda>(opts, len, ind, r). nat (len - int ind))") auto

declare wscale_loop.simps [simp del]

definition getWscale :: "bytes \<Rightarrow> nat \<Rightarrow> (bool \<times> u32) option" where
  "getWscale opts doff = wscale_loop opts (4 * int doff) 0 (False, 1)"

section \<open>Acknowledgements and delivery\<close>

definition handleAck :: "HalfStream \<Rightarrow> u32 \<Rightarrow> HalfStream" where
  "handleAck sndr acknum =
     (let ackdiff = sint (acknum - h_ack_seq sndr)
      in if ackdiff > 0 then sndr\<lparr>h_ack_seq := acknum\<rparr> else sndr)"

text \<open>\<open>conn\<close> is \<open>isconnnection\<close> of the stream.\<close>

definition notify :: "bool \<Rightarrow> HalfStream \<Rightarrow> bytes \<Rightarrow> tcp_act list \<times> HalfStream" where
  "notify conn rcv data =
     (let acts = (if conn then [Notify data] else [])
      in if h_count_new_urg rcv then (acts, rcv) else (acts, rcv\<lparr>h_count_new := 0\<rparr>))"

text \<open>Bytes \<open>[off, off + n)\<close> behind a data pointer.\<close>

definition part :: "bytes \<Rightarrow> u32 \<Rightarrow> int \<Rightarrow> bytes" where
  "part data off n = take (nat n) (drop (unat off) data)"

definition deliver :: "bool \<Rightarrow> HalfStream \<Rightarrow> int \<Rightarrow> bytes \<Rightarrow> tcp_act list \<times> HalfStream" where
  "deliver conn rcv n data =
     notify conn (rcv\<lparr>h_count_new := n, h_count := h_count rcv + word_of_int n\<rparr>) data"

definition note_urgent :: "HalfStream \<Rightarrow> HalfStream \<Rightarrow> bool \<Rightarrow> u32 \<Rightarrow> HalfStream" where
  "note_urgent sndr rcv urg urg_ptr =
     (if urg \<and> after urg_ptr (EXP_SEQ sndr rcv - 1) \<and> (\<not> h_urg_seen rcv \<or> after urg_ptr (h_urg_ptr rcv))
      then rcv\<lparr>h_urg_ptr := urg_ptr, h_urg_seen := True\<rparr> else rcv)"

definition add_urgent :: "bool \<Rightarrow> HalfStream \<Rightarrow> bytes \<Rightarrow> int \<Rightarrow> u32 \<Rightarrow> u32 \<Rightarrow> tcp_act list \<times> HalfStream" where
  "add_urgent conn rcv data datalen this_seq lost =
     (let to_copy = sint (h_urg_ptr rcv - (this_seq + lost));
          (a1, r1) = (if to_copy > 0 then deliver conn rcv to_copy (part data lost to_copy) else ([], rcv));
          r2 = r1\<lparr>h_urgdata := data ! unat (h_urg_ptr r1 - this_seq), h_count_new_urg := True\<rparr>;
          (a2, r3) = notify conn r2 (part data 0 datalen);
          r4 = r3\<lparr>h_count_new_urg := False, h_urg_seen := False, h_urg_count := h_urg_count r3 + 1\<rparr>;
          to_copy2 = sint (this_seq + word_of_int datalen - h_urg_ptr r4 - 1);
          (a3, r5) = (if to_copy2 > 0
                      then deliver conn r4 to_copy2 (part data (lost + word_of_int to_copy + 1) to_copy2)
                      else ([], r4))
      in (a1 @ a2 @ a3, r5))"

definition addFromskb ::
  "bool \<Rightarrow> HalfStream \<Rightarrow> HalfStream \<Rightarrow> bytes \<Rightarrow> int \<Rightarrow> u32 \<Rightarrow> bool \<Rightarrow> bool \<Rightarrow> u32 \<Rightarrow>
   tcp_act list \<times> HalfStream \<times> HalfStream" where
  "addFromskb conn sndr rcv data datalen this_seq fin urg urg_ptr =
     (let lost = EXP_SEQ sndr rcv - this_seq;
          r1 = note_urgent sndr rcv urg urg_ptr;
          (acts, r2) =
            (if h_urg_seen r1 \<and> after (h_urg_ptr r1 + 1) (this_seq + lost) \<and>
                before (h_urg_ptr r1) (this_seq + word_of_int datalen)
             then add_urgent conn r1 data datalen this_seq lost
             else let n = word_of_int datalen - lost
                  in if n > 0 then deliver conn r1 (sint n) (part data lost (sint n)) else ([], r1));
          (acts', sndr') = (if fin then (if h_state r2 = TCP_CLOSING then [AddFinTimeout] else [], sndr\<lparr>h_state := FIN_SENT\<rparr>)
                           else ([], sndr))
      in (acts @ acts', sndr', r2))"

text \<open>The loop over the queued segments after new data made them deliverable.\<close>

fun drain :: "bool \<Rightarrow> HalfStream \<Rightarrow> HalfStream \<Rightarrow> Skbuff list \<Rightarrow> tcp_act list \<times> HalfStream \<times> HalfStream" where
  "drain conn sndr rcv [] = ([], sndr, rcv\<lparr>h_fraglist := []\<rparr>)"
| "drain conn sndr rcv (frag # rest) =
     (if after (sk_seq frag) (EXP_SEQ sndr rcv) then ([], sndr, rcv\<lparr>h_fraglist := frag # rest\<rparr>)
      else let (a1, s1, r1) =
                 (if after (sk_seq frag + word_of_int (sk_len frag) + of_bool (sk_fin frag)) (EXP_SEQ sndr rcv)
                  then let (a, s, r) = addFromskb conn sndr rcv (sk_data frag) (sk_len frag) (sk_seq frag)
                             (sk_fin frag) (sk_urg frag) (sk_urg_ptr frag + sk_seq frag - 1)
                       in (UpdateTcpTimeout # a, s, r)
                  else ([], sndr, rcv));
               (a2, s2, r2) = drain conn s1 (r1\<lparr>h_rmem_alloc := h_rmem_alloc r1 - sk_truesize frag\<rparr>) rest
           in (a1 @ a2, s2, r2))"

fun insert_skb :: "Skbuff \<Rightarrow> Skbuff list \<Rightarrow> Skbuff list" where
  "insert_skb p [] = [p]"
| "insert_skb p (f # fs) = (if after (sk_seq f) (sk_seq p) then p # f # fs else f # insert_skb p fs)"

definition store_skb ::
  "HalfStream \<Rightarrow> HalfStream \<Rightarrow> Skbuff \<Rightarrow> tcp_act list \<times> HalfStream \<times> HalfStream" where
  "store_skb sndr rcv pakiet =
     (let rcv1 = rcv\<lparr>h_rmem_alloc := h_rmem_alloc rcv + sk_truesize pakiet,
                     h_fraglist := insert_skb pakiet (h_fraglist rcv)\<rparr>
      in if sk_fin pakiet
         then (if h_state rcv = FIN_SENT \<or> h_state rcv = FIN_CONFIRMED then [AddFinTimeout] else [],
               sndr\<lparr>h_state := TCP_CLOSING\<rparr>, rcv1)
         else ([], sndr, rcv1))"

definition tcpQueue ::
  "bool \<Rightarrow> tcphdr \<Rightarrow> HalfStream \<Rightarrow> HalfStream \<Rightarrow> bytes \<Rightarrow> int \<Rightarrow> int \<Rightarrow> tcp_act list \<times> HalfStream \<times> HalfStream" where
  "tcpQueue conn hdr sndr rcv data datalen skblen =
     (let this_seq = th_seq hdr; fin = has_flag (th_flags hdr) TH_FIN; urg = has_flag (th_flags hdr) TH_URG
      in if \<not> after this_seq (EXP_SEQ sndr rcv)
         then (if after (this_seq + word_of_int datalen + of_bool fin) (EXP_SEQ sndr rcv)
               then let (a1, s1, r1) = addFromskb conn sndr rcv data datalen this_seq fin urg
                          (ucast (th_urp hdr) + this_seq - 1);
                        (a2, s2, r2) = drain conn s1 r1 (h_fraglist r1)
                    in (UpdateTcpTimeout # a1 @ a2, s2, r2)
               else ([], sndr, rcv))
         else store_skb sndr rcv \<lparr>sk_data = part data 0 datalen, sk_len = datalen, sk_truesize = skblen,
                sk_urg_ptr = ucast (th_urp hdr), sk_fin = fin, sk_urg = urg, sk_seq = this_seq\<rparr>)"

definition purgeQueue :: "HalfStream \<Rightarrow> HalfStream" where
  "purgeQueue h = (if h_fraglist h = [] then h else h\<lparr>h_rmem_alloc := 0, h_fraglist := []\<rparr>)"


section \<open>Reading the options is safe\<close>

lemma wscale_loop_safe:
  "len - 20 \<le> int (length opts) \<Longrightarrow> \<exists>r'. wscale_loop opts len ind r = Some r'"
proof (induction opts len ind r rule: wscale_loop.induct)
  case (1 opts len ind ret ws)
  show ?case
  proof (cases "int ind \<le> len - 20 - 3")
    case False
    then show ?thesis by (subst wscale_loop.simps) simp
  next
    case True
    then have b: "rd8 opts ind = Some (opts ! ind)" "rd8 opts (ind + 1) = Some (opts ! (ind + 1))"
      "rd8 opts (ind + 2) = Some (opts ! (ind + 2))"
      using 1(3) by simp_all
    have nop: "\<exists>r'. wscale_loop opts len (ind + 1) (ret, ws) = Some r'" if "opts ! ind = 1"
      using 1(1)[OF True b(1)] that 1(3) by simp
    have step: "\<exists>r'. wscale_loop opts len (ind + unat (opts ! (ind + 1))) r = Some r'"
      if "opts ! ind \<noteq> 0" "opts ! ind \<noteq> 1" "\<not> unat (opts ! (ind + 1)) < 2"
        "(if opts ! ind = 3 then map_option (\<lambda>s. (True, push_bit (if unat s > 14 then 14 else unat s) 1)) (rd8 opts (ind + 2))
          else Some (ret, ws)) = Some r" for r
      using 1(2)[OF True b(1) that(1,2) b(2) refl that(4,3) 1(3)] .
    show ?thesis
      by (subst wscale_loop.simps, unfold b Let_def, cases "opts ! ind = 3")
        (use True nop step b(3) in auto)
  qed
qed

section \<open>States and silence before the connection is established\<close>

definition silent :: "tcp_act list \<Rightarrow> bool" where
  "silent acts \<longleftrightarrow> (\<forall>d. Notify d \<notin> set acts)"

lemma silent_simps [simp]:
  "silent []" "\<not> silent (Notify d # acts)" "silent (UpdateTcpTimeout # acts) = silent acts"
  "silent (AddFinTimeout # acts) = silent acts" "silent (a @ b) \<longleftrightarrow> silent a \<and> silent b"
  by (auto simp: silent_def)

text \<open>What every operation on the halves keeps.\<close>

definition halves_step :: "bool \<Rightarrow> HalfStream \<Rightarrow> HalfStream \<Rightarrow> tcp_act list \<Rightarrow> HalfStream \<Rightarrow> HalfStream \<Rightarrow> bool" where
  "halves_step conn sndr rcv acts sndr' rcv' \<longleftrightarrow>
     h_state rcv' = h_state rcv \<and> h_state sndr' \<in> {h_state sndr, FIN_SENT, TCP_CLOSING} \<and>
     h_first_data_seq sndr' = h_first_data_seq sndr \<and> (\<not> conn \<longrightarrow> silent acts)"

lemma halves_step_refl: "silent acts \<Longrightarrow> halves_step conn sndr rcv acts sndr rcv"
  by (simp add: halves_step_def)

lemma halves_step_trans:
  "\<lbrakk>halves_step conn s r a s1 r1; halves_step conn s1 r1 b s2 r2\<rbrakk> \<Longrightarrow> halves_step conn s r (a @ b) s2 r2"
  by (auto simp: halves_step_def)

lemma deliver_state:
  "deliver conn r n d = (a, r') \<Longrightarrow> h_state r' = h_state r \<and> (\<not> conn \<longrightarrow> silent a)"
  by (auto simp: deliver_def notify_def Let_def split: if_splits)

lemma notify_state:
  "notify conn r d = (a, r') \<Longrightarrow> h_state r' = h_state r \<and> (\<not> conn \<longrightarrow> silent a)"
  by (auto simp: notify_def Let_def split: if_splits)

lemma add_urgent_state:
  assumes "add_urgent conn r d n sq l = (a, r')"
  shows "h_state r' = h_state r \<and> (\<not> conn \<longrightarrow> silent a)"
  using assms unfolding add_urgent_def Let_def
  by (auto split: prod.splits if_splits dest!: deliver_state notify_state)

lemma addFromskb_step:
  assumes "addFromskb conn s r d n sq fin urg up = (a, s', r')"
  shows "halves_step conn s r a s' r'"
proof -
  have nu: "h_state (note_urgent s r urg up) = h_state r"
    by (simp add: note_urgent_def)
  show ?thesis
    using assms nu unfolding addFromskb_def Let_def
    by (auto simp: halves_step_def split: prod.splits if_splits dest!: deliver_state add_urgent_state)
qed

lemma drain_step: "drain conn s r fs = (a, s', r') \<Longrightarrow> halves_step conn s r a s' r'"
proof (induction fs arbitrary: s r a)
  case Nil
  then show ?case by (auto simp: halves_step_def)
next
  case (Cons f fs)
  show ?case
  proof (cases "after (sk_seq f) (EXP_SEQ s r)")
    case True
    then show ?thesis using Cons.prems by (auto simp: halves_step_def)
  next
    case False
    obtain a1 s1 r1 where st: "(if after (sk_seq f + word_of_int (sk_len f) + of_bool (sk_fin f)) (EXP_SEQ s r)
                  then let (a, s, r) = addFromskb conn s r (sk_data f) (sk_len f) (sk_seq f)
                             (sk_fin f) (sk_urg f) (sk_urg_ptr f + sk_seq f - 1)
                       in (UpdateTcpTimeout # a, s, r)
                  else ([], s, r)) = (a1, s1, r1)"
      by (metis prod_cases3)
    let ?r1 = "r1\<lparr>h_rmem_alloc := h_rmem_alloc r1 - sk_truesize f\<rparr>"
    obtain a2 where d: "drain conn s1 ?r1 fs = (a2, s', r')" "a = a1 @ a2"
      using Cons.prems st False by (auto simp: Let_def split: prod.splits)
    have "halves_step conn s r a1 s1 r1"
      using st by (auto simp: halves_step_def split: if_splits prod.splits dest!: addFromskb_step)
    then have "halves_step conn s r a1 s1 ?r1"
      by (simp add: halves_step_def)
    from halves_step_trans[OF this Cons.IH[OF d(1)]] show ?thesis
      by (simp add: d(2))
  qed
qed

lemma tcpQueue_step:
  assumes "tcpQueue conn hdr s r d n k = (a, s', r')"
  shows "halves_step conn s r a s' r'"
proof (cases "after (th_seq hdr) (EXP_SEQ s r)")
  case True
  then show ?thesis
    using assms by (auto simp: tcpQueue_def store_skb_def Let_def halves_step_def split: if_splits)
next
  case before: False
  show ?thesis
  proof (cases "after (th_seq hdr + word_of_int n + of_bool (has_flag (th_flags hdr) TH_FIN)) (EXP_SEQ s r)")
    case True
    then obtain a1 s1 r1 a2 where a: "addFromskb conn s r d n (th_seq hdr) (has_flag (th_flags hdr) TH_FIN)
        (has_flag (th_flags hdr) TH_URG) (ucast (th_urp hdr) + th_seq hdr - 1) = (a1, s1, r1)"
      "drain conn s1 r1 (h_fraglist r1) = (a2, s', r')" "a = UpdateTcpTimeout # a1 @ a2"
      using assms before by (auto simp: tcpQueue_def Let_def split: prod.splits)
    show ?thesis
      using halves_step_trans[OF addFromskb_step[OF a(1)] drain_step[OF a(2)]] a(3) by (simp add: halves_step_def)
  next
    case False
    then show ?thesis
      using assms before by (auto simp: tcpQueue_def Let_def halves_step_def)
  qed
qed

section \<open>One direction of a connection\<close>

text \<open>
  A segment of the stream \<open>S\<close>: bytes \<open>[p, p + len)\<close>, with FIN only at the end of the stream.
  The positions stay below half the sequence space.
\<close>

definition seg_ok :: "bytes \<Rightarrow> u32 \<Rightarrow> int \<Rightarrow> int \<Rightarrow> bool \<Rightarrow> u32 \<Rightarrow> bytes \<Rightarrow> bool" where
  "seg_ok S w p len fin seq data \<longleftrightarrow> 0 \<le> p \<and> 0 \<le> len \<and> p + len \<le> int (length S) \<and>
     seq = w + word_of_int p \<and> take (nat len) data = take (nat len) (drop (nat p) S) \<and>
     (fin \<longrightarrow> p + len = int (length S))"

definition skb_ok :: "bytes \<Rightarrow> u32 \<Rightarrow> Skbuff \<Rightarrow> bool" where
  "skb_ok S w f \<longleftrightarrow> \<not> sk_urg f \<and> (\<exists>p. seg_ok S w p (sk_len f) (sk_fin f) (sk_seq f) (sk_data f))"

text \<open>The position of a queued segment, read off its sequence number.\<close>

definition skb_pos :: "u32 \<Rightarrow> Skbuff \<Rightarrow> int" where
  "skb_pos w f = uint (sk_seq f - w)"

lemma seg_pos:
  assumes "seg_ok S w p len fin seq data" and "int (length S) < 2 ^ 31"
  shows "uint (seq - w) = p"
proof -
  have "0 \<le> p" "p < 2 ^ 32"
    using assms by (auto simp: seg_ok_def)
  then show ?thesis
    using assms(1) by (simp add: seg_ok_def unsigned_of_int take_bit_int_eq_self_iff)
qed

lemma skb_okD:
  assumes "skb_ok S w f" and "int (length S) < 2 ^ 31"
  shows "seg_ok S w (skb_pos w f) (sk_len f) (sk_fin f) (sk_seq f) (sk_data f)" and "\<not> sk_urg f"
  using assms seg_pos unfolding skb_ok_def skb_pos_def by metis+

definition delivered :: "tcp_act list \<Rightarrow> bytes" where
  "delivered acts = concat (map (\<lambda>a. case a of Notify d \<Rightarrow> d | _ \<Rightarrow> []) acts)"

lemma delivered_simps [simp]:
  "delivered [] = []" "delivered (Notify d # acts) = d @ delivered acts"
  "delivered (UpdateTcpTimeout # acts) = delivered acts" "delivered (AddFinTimeout # acts) = delivered acts"
  "delivered (a @ b) = delivered a @ delivered b"
  by (simp_all add: delivered_def)

text \<open>The receiving half after the first \<open>c\<close> bytes.\<close>

definition rcv_at :: "bytes \<Rightarrow> u32 \<Rightarrow> int \<Rightarrow> HalfStream \<Rightarrow> HalfStream \<Rightarrow> bool" where
  "rcv_at S w c sndr rcv \<longleftrightarrow> 0 \<le> c \<and> c \<le> int (length S) \<and> h_first_data_seq sndr = w \<and>
     h_count rcv = word_of_int c \<and> h_urg_count rcv = 0 \<and> \<not> h_urg_seen rcv"

lemma rcv_at_exp: "rcv_at S w c sndr rcv \<Longrightarrow> EXP_SEQ sndr rcv = w + word_of_int c"
  by (simp add: rcv_at_def EXP_SEQ_def)

text \<open>The comparisons of the code are comparisons of positions.\<close>

lemma seg_compare:
  assumes "seg_ok S w p len fin seq data" and "rcv_at S w c sndr rcv" and "int (length S) < 2 ^ 31 - 1"
  shows "after seq (EXP_SEQ sndr rcv) \<longleftrightarrow> c < p"
    and "after (seq + word_of_int len + of_bool fin) (EXP_SEQ sndr rcv) \<longleftrightarrow> c < p + len + of_bool fin"
proof -
  have c: "0 \<le> c" "c \<le> int (length S)" and p: "0 \<le> p" "0 \<le> len" "p + len \<le> int (length S)" "seq = w + word_of_int p"
    using assms(1,2) by (auto simp: rcv_at_def seg_ok_def)
  show "after seq (EXP_SEQ sndr rcv) \<longleftrightarrow> c < p"
    using c p assms(3) by (simp add: rcv_at_exp[OF assms(2)] after_offset)
  have "seq + word_of_int len + of_bool fin = w + word_of_int (p + len + of_bool fin)"
    using p by simp
  then show "after (seq + word_of_int len + of_bool fin) (EXP_SEQ sndr rcv) \<longleftrightarrow> c < p + len + of_bool fin"
    unfolding rcv_at_exp[OF assms(2)] using c p assms(3) by (simp only: after_offset) (subst after_offset; auto)
qed

text \<open>New data moves the received prefix to the end of the segment.\<close>

lemma take_extend:
  assumes "0 \<le> c" and "c \<le> e" and "e \<le> int (length S)"
  shows "take (nat c) S @ take (nat (e - c)) (drop (nat c) S) = take (nat e) S"
proof -
  have "nat e = nat c + nat (e - c)"
    using assms by simp
  then show ?thesis
    by (simp add: take_add)
qed

lemma seg_part:
  assumes "seg_ok S w p len fin seq data" and "p \<le> c" and "c \<le> p + len"
  shows "take (nat (p + len - c)) (drop (nat (c - p)) data) = take (nat (p + len - c)) (drop (nat c) S)"
proof -
  have *: "0 \<le> p" "0 \<le> len" "take (nat len) data = take (nat len) (drop (nat p) S)"
    using assms(1) by (auto simp: seg_ok_def)
  have n: "nat len = nat (c - p) + nat (p + len - c)" "nat c = nat (c - p) + nat p"
    using * assms by auto
  have "take (nat (p + len - c)) (drop (nat (c - p)) data) = drop (nat (c - p)) (take (nat len) data)"
    unfolding n(1) by (simp add: drop_take)
  also have "\<dots> = drop (nat (c - p)) (take (nat len) (drop (nat p) S))"
    by (simp only: *(3))
  also have "\<dots> = take (nat (p + len - c)) (drop (nat (c - p)) (drop (nat p) S))"
    unfolding n(1) by (simp add: drop_take)
  also have "drop (nat (c - p)) (drop (nat p) S) = drop (nat c) S"
    by (simp only: drop_drop n(2))
  finally show ?thesis .
qed

lemma addFromskb_spec:
  assumes seg: "seg_ok S w p len fin seq data" and rcv: "rcv_at S w c sndr rcv" and S: "int (length S) < 2 ^ 31 - 1"
    and c: "p \<le> c" "c < p + len + of_bool fin"
    and eq: "addFromskb conn sndr rcv data len seq fin False uptr = (acts, sndr', rcv')"
  shows "rcv_at S w (max c (p + len)) sndr' rcv'"
    and "conn \<Longrightarrow> take (nat c) S @ delivered acts = take (nat (max c (p + len))) S"
    and "\<not> conn \<Longrightarrow> delivered acts = []"
    and "h_fraglist rcv' = h_fraglist rcv"
proof -
  have p: "0 \<le> p" "0 \<le> len" "p + len \<le> int (length S)" "seq = w + word_of_int p"
    using seg by (auto simp: seg_ok_def)
  have r: "0 \<le> c" "c \<le> int (length S)" "h_first_data_seq sndr = w" "h_count rcv = word_of_int c"
    "h_urg_count rcv = 0" "\<not> h_urg_seen rcv"
    using rcv by (auto simp: rcv_at_def)
  have le: "c \<le> p + len"
    using c by (cases fin) auto
  have lost: "EXP_SEQ sndr rcv - seq = word_of_int (c - p)"
    using p by (simp add: rcv_at_exp[OF rcv])
  have unat_lost: "unat (EXP_SEQ sndr rcv - seq) = nat (c - p)"
    unfolding lost by (rule unat_of_int_small) (use r(1,2) c(1) p(1) S in auto)
  define n :: u32 where "n = word_of_int len - (EXP_SEQ sndr rcv - seq)"
  have n: "n = word_of_int (p + len - c)"
    by (simp add: n_def lost)
  have sint_n: "sint n = p + len - c"
    unfolding n using le p r S by (intro sint_of_int_small) auto
  have n0: "n > 0 \<longleftrightarrow> c < p + len"
  proof (cases "c = p + len")
    case True
    then have "n = 0" by (simp add: n)
    with True show ?thesis by simp
  next
    case False
    then have "sint n \<noteq> 0" using sint_n by simp
    then have "n \<noteq> 0" by auto
    with False le show ?thesis by (simp add: word_gt_0)
  qed
  define d where "d = take (nat (p + len - c)) (drop (nat (c - p)) data)"
  have part: "part data (EXP_SEQ sndr rcv - seq) (sint n) = d"
    by (simp add: part_def sint_n unat_lost d_def)
  have nu: "note_urgent sndr rcv False uptr = rcv"
    by (simp add: note_urgent_def)
  have "take (nat c) S @ d = take (nat (p + len)) S"
    unfolding d_def seg_part[OF seg c(1) le] using r le p by (intro take_extend) auto
  moreover have res: "(if n > 0 then deliver conn rcv (sint n) d else ([], rcv)) = (a, r2) \<Longrightarrow>
      rcv_at S w (p + len) sndr r2 \<and> delivered a = (if conn then d else []) \<and> h_fraglist r2 = h_fraglist rcv" for a r2
    using r p le n0 sint_n
    by (auto simp: deliver_def notify_def Let_def rcv_at_def d_def split: if_splits)
  moreover obtain a r2 where a: "(if n > 0 then deliver conn rcv (sint n) d else ([], rcv)) = (a, r2)"
    by fastforce
  moreover have "rcv' = r2 \<and> delivered acts = delivered a \<and> h_first_data_seq sndr' = h_first_data_seq sndr"
    using eq r(6) a part by (auto simp: addFromskb_def nu Let_def n_def split_beta split: if_splits)
  ultimately have *: "rcv_at S w (p + len) sndr' rcv'" "delivered acts = (if conn then d else [])"
    "take (nat c) S @ d = take (nat (p + len)) S" "h_fraglist rcv' = h_fraglist rcv"
    by (auto simp: rcv_at_def)
  then show "rcv_at S w (max c (p + len)) sndr' rcv'" "h_fraglist rcv' = h_fraglist rcv"
    "conn \<Longrightarrow> take (nat c) S @ delivered acts = take (nat (max c (p + len))) S" "\<not> conn \<Longrightarrow> delivered acts = []"
    using le by (simp_all add: max_def)
qed

text \<open>
  The queue: segments of the stream in position order. After the queue was drained every
  queued segment lies ahead of the received prefix.
\<close>

definition queue_ok :: "bytes \<Rightarrow> u32 \<Rightarrow> Skbuff list \<Rightarrow> bool" where
  "queue_ok S w fs \<longleftrightarrow> (\<forall>f \<in> set fs. skb_ok S w f) \<and> sorted (map (skb_pos w) fs)"

lemma drain_spec:
  assumes S: "int (length S) < 2 ^ 31 - 1"
  shows "\<lbrakk>rcv_at S w c sndr rcv; queue_ok S w fs; drain conn sndr rcv fs = (acts, sndr', rcv')\<rbrakk> \<Longrightarrow>
    \<exists>c'. c \<le> c' \<and> rcv_at S w c' sndr' rcv' \<and> queue_ok S w (h_fraglist rcv') \<and>
      (conn \<longrightarrow> take (nat c) S @ delivered acts = take (nat c') S) \<and> (\<not> conn \<longrightarrow> delivered acts = []) \<and>
      (\<forall>f \<in> set (h_fraglist rcv'). c' < skb_pos w f) \<and>
      (\<forall>f \<in> set fs. f \<in> set (h_fraglist rcv') \<or> skb_pos w f + sk_len f \<le> c')"
proof (induction fs arbitrary: c sndr rcv acts)
  case Nil
  then show ?case
    by (intro exI[of _ c]) (auto simp: rcv_at_def queue_ok_def)
next
  case (Cons f fs)
  have f: "seg_ok S w (skb_pos w f) (sk_len f) (sk_fin f) (sk_seq f) (sk_data f)" "\<not> sk_urg f"
    and fs: "queue_ok S w fs" and srt: "\<forall>g \<in> set fs. skb_pos w f \<le> skb_pos w g"
    using Cons.prems(2) S skb_okD[of S w f] by (auto simp: queue_ok_def)
  note cmp = seg_compare[OF f(1) Cons.prems(1) S]
  show ?case
  proof (cases "c < skb_pos w f")
    case True
    then have "acts = []" "sndr' = sndr" "rcv' = rcv\<lparr>h_fraglist := f # fs\<rparr>"
      using Cons.prems(3) cmp by auto
    then show ?thesis
      using Cons.prems(1,2) True srt by (intro exI[of _ c]) (auto simp: rcv_at_def)
  next
    case False
    define e where "e = skb_pos w f + sk_len f"
    obtain a1 s1 r1 where st: "(if after (sk_seq f + word_of_int (sk_len f) + of_bool (sk_fin f)) (EXP_SEQ sndr rcv)
                  then let (a, s, r) = addFromskb conn sndr rcv (sk_data f) (sk_len f) (sk_seq f)
                             (sk_fin f) (sk_urg f) (sk_urg_ptr f + sk_seq f - 1)
                       in (UpdateTcpTimeout # a, s, r)
                  else ([], sndr, rcv)) = (a1, s1, r1)"
      by (metis prod_cases3)
    have one: "rcv_at S w (max c e) s1 r1 \<and> (conn \<longrightarrow> take (nat c) S @ delivered a1 = take (nat (max c e)) S) \<and>
        (\<not> conn \<longrightarrow> delivered a1 = [])"
    proof (cases "c < e + of_bool (sk_fin f)")
      case True
      then obtain a where a: "addFromskb conn sndr rcv (sk_data f) (sk_len f) (sk_seq f)
          (sk_fin f) False (sk_urg_ptr f + sk_seq f - 1) = (a, s1, r1)" "a1 = UpdateTcpTimeout # a"
        using st cmp(2) f(2) by (auto simp: e_def split: prod.splits)
      from addFromskb_spec[OF f(1) Cons.prems(1) S _ _ a(1)] show ?thesis
        using True False a(2) by (auto simp: e_def)
    next
      case no: False
      then have "e \<le> c" by (cases "sk_fin f") auto
      then show ?thesis
        using st cmp(2) no Cons.prems(1) by (auto simp: e_def max_def)
    qed
    let ?r1 = "r1\<lparr>h_rmem_alloc := h_rmem_alloc r1 - sk_truesize f\<rparr>"
    obtain a2 where d: "drain conn s1 ?r1 fs = (a2, sndr', rcv')" "acts = a1 @ a2"
      using Cons.prems(3) st False cmp(1) by (auto simp: Let_def split: prod.splits)
    have "rcv_at S w (max c e) s1 ?r1"
      using one by (simp add: rcv_at_def)
    from Cons.IH[OF this fs d(1)] obtain c' where c': "max c e \<le> c'" "rcv_at S w c' sndr' rcv'"
      "queue_ok S w (h_fraglist rcv')" "conn \<longrightarrow> take (nat (max c e)) S @ delivered a2 = take (nat c') S"
      "\<not> conn \<longrightarrow> delivered a2 = []" "\<forall>f \<in> set (h_fraglist rcv'). c' < skb_pos w f"
      "\<forall>f \<in> set fs. f \<in> set (h_fraglist rcv') \<or> skb_pos w f + sk_len f \<le> c'"
      by blast
    have "conn \<longrightarrow> take (nat c) S @ delivered acts = take (nat c') S"
      using one c'(4) d(2) by (metis append.assoc delivered_simps(5))
    then show ?thesis
      using c' one d(2) by (intro exI[of _ c']) (auto simp: e_def)
  qed
qed

lemma insert_skb_set [simp]: "set (insert_skb f fs) = insert f (set fs)"
  by (induction fs) auto

lemma insert_skb_ok:
  assumes S: "int (length S) < 2 ^ 31" and f: "skb_ok S w f"
  shows "queue_ok S w fs \<Longrightarrow> queue_ok S w (insert_skb f fs)"
proof (induction fs)
  case Nil
  then show ?case using f by (simp add: queue_ok_def)
next
  case (Cons g gs)
  have "after (sk_seq g) (sk_seq f) \<longleftrightarrow> skb_pos w f < skb_pos w g"
  proof -
    have "seg_ok S w (skb_pos w f) (sk_len f) (sk_fin f) (sk_seq f) (sk_data f)"
      "seg_ok S w (skb_pos w g) (sk_len g) (sk_fin g) (sk_seq g) (sk_data g)"
      using f Cons.prems S skb_okD(1) by (auto simp: queue_ok_def)
    then show ?thesis
      using S by (auto simp: seg_ok_def after_offset)
  qed
  then show ?case
    using Cons f by (auto simp: queue_ok_def)
qed

section \<open>A run of segments\<close>

record tcp_seg =
  ts_hdr :: tcphdr
  ts_data :: bytes
  ts_len :: int
  ts_skblen :: int

abbreviation seg_fin :: "tcp_seg \<Rightarrow> bool" where
  "seg_fin x \<equiv> has_flag (th_flags (ts_hdr x)) TH_FIN"

definition seg_of :: "bytes \<Rightarrow> u32 \<Rightarrow> tcp_seg \<Rightarrow> bool" where
  "seg_of S w x \<longleftrightarrow> \<not> has_flag (th_flags (ts_hdr x)) TH_URG \<and>
     seg_ok S w (uint (th_seq (ts_hdr x) - w)) (ts_len x) (seg_fin x) (th_seq (ts_hdr x)) (ts_data x)"

fun recv_segs :: "bool \<Rightarrow> tcp_seg list \<Rightarrow> HalfStream \<Rightarrow> HalfStream \<Rightarrow> tcp_act list \<times> HalfStream \<times> HalfStream" where
  "recv_segs conn [] sndr rcv = ([], sndr, rcv)"
| "recv_segs conn (x # xs) sndr rcv =
     (let (a, s, r) = tcpQueue conn (ts_hdr x) sndr rcv (ts_data x) (ts_len x) (ts_skblen x);
          (a', s', r') = recv_segs conn xs s r
      in (a @ a', s', r'))"

definition seg_range :: "u32 \<Rightarrow> tcp_seg \<Rightarrow> int \<times> int" where
  "seg_range w x = (uint (th_seq (ts_hdr x) - w), ts_len x)"

text \<open>Every received range is delivered or queued ahead of the delivered prefix.\<close>

definition rcv_inv :: "bytes \<Rightarrow> u32 \<Rightarrow> (int \<times> int) set \<Rightarrow> int \<Rightarrow> HalfStream \<Rightarrow> HalfStream \<Rightarrow> bool" where
  "rcv_inv S w R c sndr rcv \<longleftrightarrow> rcv_at S w c sndr rcv \<and> queue_ok S w (h_fraglist rcv) \<and>
     (\<forall>f \<in> set (h_fraglist rcv). c < skb_pos w f) \<and>
     (\<forall>r \<in> R. fst r + snd r \<le> c \<or> (\<exists>f \<in> set (h_fraglist rcv). (skb_pos w f, sk_len f) = r))"

lemma tcpQueue_inv:
  assumes S: "int (length S) < 2 ^ 31 - 1" and seg: "seg_of S w x" and inv: "rcv_inv S w R c sndr rcv"
    and eq: "tcpQueue conn (ts_hdr x) sndr rcv (ts_data x) (ts_len x) (ts_skblen x) = (acts, sndr', rcv')"
  shows "\<exists>c'. c \<le> c' \<and> rcv_inv S w (insert (seg_range w x) R) c' sndr' rcv' \<and>
    (conn \<longrightarrow> take (nat c) S @ delivered acts = take (nat c') S) \<and> (\<not> conn \<longrightarrow> delivered acts = [])"
proof -
  let ?p = "uint (th_seq (ts_hdr x) - w)" and ?n = "ts_len x"
  have ok: "seg_ok S w ?p ?n (seg_fin x) (th_seq (ts_hdr x)) (ts_data x)" and urg: "\<not> has_flag (th_flags (ts_hdr x)) TH_URG"
    using seg by (auto simp: seg_of_def)
  have at: "rcv_at S w c sndr rcv" and q: "queue_ok S w (h_fraglist rcv)" "\<forall>f \<in> set (h_fraglist rcv). c < skb_pos w f"
    and R: "\<forall>r \<in> R. fst r + snd r \<le> c \<or> (\<exists>f \<in> set (h_fraglist rcv). (skb_pos w f, sk_len f) = r)"
    using inv by (auto simp: rcv_inv_def)
  note cmp = seg_compare[OF ok at S]
  consider (later) "c < ?p" | (fresh) "?p \<le> c" "c < ?p + ?n + of_bool (seg_fin x)"
    | (old) "?p \<le> c" "?p + ?n + of_bool (seg_fin x) \<le> c"
    by linarith
  then show ?thesis
  proof cases
    case later
    define k where "k = \<lparr>sk_data = part (ts_data x) 0 ?n, sk_len = ?n, sk_truesize = ts_skblen x,
      sk_urg_ptr = ucast (th_urp (ts_hdr x)), sk_fin = seg_fin x, sk_urg = False, sk_seq = th_seq (ts_hdr x)\<rparr>"
    have k: "skb_ok S w k" "skb_pos w k = ?p" "sk_len k = ?n"
      using ok by (auto simp: k_def skb_ok_def skb_pos_def part_def seg_ok_def)
    have "store_skb sndr rcv k = (acts, sndr', rcv')"
      using eq cmp(1) later urg by (simp add: tcpQueue_def k_def Let_def)
    then have res: "h_fraglist rcv' = insert_skb k (h_fraglist rcv)" "rcv_at S w c sndr' rcv'" "delivered acts = []"
      using at by (auto simp: store_skb_def Let_def rcv_at_def split: if_splits)
    have "queue_ok S w (insert_skb k (h_fraglist rcv))"
      using insert_skb_ok[OF _ k(1) q(1)] S by simp
    moreover have "\<forall>r \<in> insert (seg_range w x) R. fst r + snd r \<le> c \<or>
        (\<exists>f \<in> insert k (set (h_fraglist rcv)). (skb_pos w f, sk_len f) = r)"
      using R k(2,3) unfolding seg_range_def by blast
    ultimately show ?thesis
      using res q(2) later k(2) by (intro exI[of _ c]) (auto simp: rcv_inv_def)
  next
    case fresh
    obtain a1 s1 r1 a2 where a: "addFromskb conn sndr rcv (ts_data x) ?n (th_seq (ts_hdr x)) (seg_fin x) False
        (ucast (th_urp (ts_hdr x)) + th_seq (ts_hdr x) - 1) = (a1, s1, r1)"
      and d: "drain conn s1 r1 (h_fraglist r1) = (a2, sndr', rcv')" "acts = UpdateTcpTimeout # a1 @ a2"
      using eq cmp fresh urg by (auto simp: tcpQueue_def Let_def split: prod.splits)
    note ad = addFromskb_spec[OF ok at S fresh a]
    have "queue_ok S w (h_fraglist r1)"
      using q(1) ad(4) by simp
    from drain_spec[OF S ad(1) this d(1)] obtain c' where c': "max c (?p + ?n) \<le> c'" "rcv_at S w c' sndr' rcv'"
      "queue_ok S w (h_fraglist rcv')" "conn \<longrightarrow> take (nat (max c (?p + ?n))) S @ delivered a2 = take (nat c') S"
      "\<not> conn \<longrightarrow> delivered a2 = []" "\<forall>f \<in> set (h_fraglist rcv'). c' < skb_pos w f"
      "\<forall>f \<in> set (h_fraglist rcv). f \<in> set (h_fraglist rcv') \<or> skb_pos w f + sk_len f \<le> c'"
      unfolding ad(4) by blast
    have "\<forall>r \<in> insert (seg_range w x) R. fst r + snd r \<le> c' \<or>
        (\<exists>f \<in> set (h_fraglist rcv'). (skb_pos w f, sk_len f) = r)"
      using R c'(1,7) by (fastforce simp: seg_range_def)
    moreover have "conn \<longrightarrow> take (nat c) S @ delivered acts = take (nat c') S"
      using ad(2) c'(4) d(2) by (metis append.assoc delivered_simps(3,5))
    ultimately show ?thesis
      using c' ad(3) d(2) by (intro exI[of _ c']) (auto simp: rcv_inv_def)
  next
    case old
    then have pn: "?p + ?n \<le> c"
      by (cases "seg_fin x") auto
    have "acts = []" "sndr' = sndr" "rcv' = rcv"
      using old eq cmp by (auto simp: tcpQueue_def Let_def)
    moreover have "\<forall>r \<in> insert (seg_range w x) R. fst r + snd r \<le> c \<or>
        (\<exists>f \<in> set (h_fraglist rcv). (skb_pos w f, sk_len f) = r)"
      using R pn by (auto simp: seg_range_def)
    ultimately show ?thesis
      using inv by (intro exI[of _ c]) (auto simp: rcv_inv_def)
  qed
qed

lemma recv_segs_inv:
  assumes S: "int (length S) < 2 ^ 31 - 1"
  shows "\<lbrakk>\<forall>x \<in> set xs. seg_of S w x; rcv_inv S w R c sndr rcv; recv_segs conn xs sndr rcv = (acts, sndr', rcv')\<rbrakk> \<Longrightarrow>
    \<exists>c'. c \<le> c' \<and> rcv_inv S w (R \<union> seg_range w ` set xs) c' sndr' rcv' \<and>
      (conn \<longrightarrow> take (nat c) S @ delivered acts = take (nat c') S) \<and> (\<not> conn \<longrightarrow> delivered acts = [])"
proof (induction xs arbitrary: R c sndr rcv acts)
  case Nil
  then show ?case by (intro exI[of _ c]) auto
next
  case (Cons x xs)
  obtain a1 s1 r1 where q: "tcpQueue conn (ts_hdr x) sndr rcv (ts_data x) (ts_len x) (ts_skblen x) = (a1, s1, r1)"
    by (metis prod_cases3)
  obtain a2 where rest: "recv_segs conn xs s1 r1 = (a2, sndr', rcv')" "acts = a1 @ a2"
    using Cons.prems(3) q by (auto simp: Let_def split: prod.splits)
  obtain c1 where c1: "c \<le> c1" "rcv_inv S w (insert (seg_range w x) R) c1 s1 r1"
    "conn \<longrightarrow> take (nat c) S @ delivered a1 = take (nat c1) S" "\<not> conn \<longrightarrow> delivered a1 = []"
    using tcpQueue_inv[OF S _ Cons.prems(2) q] Cons.prems(1) by auto
  obtain c2 where c2: "c1 \<le> c2" "rcv_inv S w (insert (seg_range w x) R \<union> seg_range w ` set xs) c2 sndr' rcv'"
    "conn \<longrightarrow> take (nat c1) S @ delivered a2 = take (nat c2) S" "\<not> conn \<longrightarrow> delivered a2 = []"
    using Cons.IH[OF _ c1(2) rest(1)] Cons.prems(1) by auto
  have "conn \<longrightarrow> take (nat c) S @ delivered acts = take (nat c2) S"
    using c1(3) c2(3) rest(2) by (metis append.assoc delivered_simps(5))
  then show ?case
    using c1 c2 rest(2) by (intro exI[of _ c2]) (auto simp: insert_commute)
qed

text \<open>A covered stream is delivered completely.\<close>

lemma rcv_inv_complete:
  assumes "rcv_inv S w R c sndr rcv" and "\<forall>i. 0 \<le> i \<longrightarrow> i < int (length S) \<longrightarrow> (\<exists>r \<in> R. fst r \<le> i \<and> i < fst r + snd r)"
  shows "c = int (length S)"
proof (rule ccontr)
  assume "c \<noteq> int (length S)"
  then have "0 \<le> c" "c < int (length S)"
    using assms(1) by (auto simp: rcv_inv_def rcv_at_def)
  then obtain r where "r \<in> R" "fst r \<le> c" "c < fst r + snd r"
    using assms(2) by blast
  then show False
    using assms(1) by (fastforce simp: rcv_inv_def)
qed

section \<open>Properties of the stream reassembly\<close>

definition fresh_half :: "u32 \<Rightarrow> HalfStream \<Rightarrow> HalfStream \<Rightarrow> bool" where
  "fresh_half w sndr rcv \<longleftrightarrow> h_first_data_seq sndr = w \<and> h_count rcv = 0 \<and> h_urg_count rcv = 0 \<and>
     \<not> h_urg_seen rcv \<and> h_fraglist rcv = []"

lemma fresh_inv: "fresh_half w sndr rcv \<Longrightarrow> rcv_inv S w {} 0 sndr rcv"
  by (simp add: fresh_half_def rcv_inv_def rcv_at_def queue_ok_def)

text \<open>Five bytes in two overlapping segments, the last one (with FIN) first, across the wrap-around.\<close>

definition sample_half :: HalfStream where
  "sample_half = \<lparr>h_state = TCP_ESTABLISHED, h_count = 0, h_count_new = 0, h_rmem_alloc = 0, h_urg_count = 0,
     h_seq = 0, h_ack_seq = 0, h_first_data_seq = 0xFFFFFFFE, h_urgdata = 0, h_count_new_urg = False,
     h_urg_seen = False, h_urg_ptr = 0, h_window = 1000, h_wscale_on = False, h_wscale = 1, h_fraglist = []\<rparr>"

definition sample_hdr :: "u32 \<Rightarrow> u8 \<Rightarrow> tcphdr" where
  "sample_hdr sq fl = \<lparr>th_sport = 1, th_dport = 2, th_seq = sq, th_ack = 0, th_off = 5, th_flags = fl, th_win = 9, th_urp = 0\<rparr>"

definition sample_segs :: "tcp_seg list" where
  "sample_segs = [\<lparr>ts_hdr = sample_hdr 1 17, ts_data = [4, 5], ts_len = 2, ts_skblen = 300\<rparr>,
     \<lparr>ts_hdr = sample_hdr 0xFFFFFFFE 16, ts_data = [1, 2, 3, 4], ts_len = 4, ts_skblen = 300\<rparr>]"

lemma sample_segs_ok:
  "int (length [1, 2, 3, 4, 5 :: u8]) < 2 ^ 31 - 1" "\<forall>x \<in> set sample_segs. seg_of [1, 2, 3, 4, 5] 0xFFFFFFFE x"
  "fresh_half 0xFFFFFFFE sample_half sample_half"
  by code_simp+

text \<open>
  C2: The data delivered for one direction of a connection is always a prefix of what the
  sender sent, for any segments of it in any order, repeated or overlapping, and across a
  wrap-around of the sequence numbers (streams below 2 GiB, no urgent data).
\<close>

theorem tcp_delivers_prefix:
  assumes "int (length S) < 2 ^ 31 - 1" and "\<forall>x \<in> set xs. seg_of S w x" and "fresh_half w sndr rcv"
    and "recv_segs conn xs sndr rcv = (acts, sndr', rcv')"
  shows "prefix (delivered acts) S"
proof -
  obtain c where "conn \<longrightarrow> take (nat 0) S @ delivered acts = take (nat c) S" "\<not> conn \<longrightarrow> delivered acts = []"
    using recv_segs_inv[OF assms(1,2) fresh_inv[OF assms(3)] assms(4)] by blast
  then show ?thesis
    by (cases conn) (simp_all add: take_is_prefix)
qed

lemma tcp_delivers_prefix_witness:
  "prefix (delivered (fst (recv_segs True sample_segs sample_half sample_half))) [1, 2, 3, 4, 5]"
proof -
  obtain acts s r where run: "recv_segs True sample_segs sample_half sample_half = (acts, s, r)"
    by (metis prod_cases3)
  from tcp_delivers_prefix[OF sample_segs_ok run] run show ?thesis by simp
qed

text \<open>
  C19: Nothing is held back: once the received segments cover the whole stream, all of it
  has been delivered on an established connection, whatever the order of arrival.
\<close>

theorem tcp_delivers_all:
  assumes "int (length S) < 2 ^ 31 - 1" and "\<forall>x \<in> set xs. seg_of S w x" and "fresh_half w sndr rcv"
    and "recv_segs True xs sndr rcv = (acts, sndr', rcv')"
    and "\<forall>i. 0 \<le> i \<longrightarrow> i < int (length S) \<longrightarrow> 
      (\<exists>x \<in> set xs. fst (seg_range w x) \<le> i \<and> i < fst (seg_range w x) + snd (seg_range w x))"
  shows "delivered acts = S"
proof -
  obtain c where c: "rcv_inv S w ({} \<union> seg_range w ` set xs) c sndr' rcv'"
      "True \<longrightarrow> take (nat 0) S @ delivered acts = take (nat c) S"
    using recv_segs_inv[OF assms(1,2) fresh_inv[OF assms(3)] assms(4)] by blast
  have "c = int (length S)"
    by (rule rcv_inv_complete[OF c(1)]) (use assms(5) in simp)
  then show ?thesis
    using c(2) by simp
qed

lemma tcp_delivers_all_witness:
  "delivered (fst (recv_segs True sample_segs sample_half sample_half)) = [1, 2, 3, 4, 5]"
proof -
  obtain acts s r where run: "recv_segs True sample_segs sample_half sample_half = (acts, s, r)"
    by (metis prod_cases3)
  have "seg_range 0xFFFFFFFE ` set sample_segs = {(3, 2), (0, 4)}"
    by code_simp
  then have "(3, 2) \<in> seg_range 0xFFFFFFFE ` set sample_segs" "(0, 4) \<in> seg_range 0xFFFFFFFE ` set sample_segs"
    by auto
  then obtain x y where x: "x \<in> set sample_segs" "seg_range 0xFFFFFFFE x = (3, 2)"
    and y: "y \<in> set sample_segs" "seg_range 0xFFFFFFFE y = (0, 4)"
    by auto
  have "\<exists>x \<in> set sample_segs. fst (seg_range 0xFFFFFFFE x) \<le> i \<and>
      i < fst (seg_range 0xFFFFFFFE x) + snd (seg_range 0xFFFFFFFE x)" if "0 \<le> i" "i < 5" for i
    using x y that by (cases "i < 4") (auto intro: bexI[of _ x] bexI[of _ y])
  then show ?thesis
    using tcp_delivers_all[OF sample_segs_ok run] run by simp
qed

end
