(* ===== verification/Hashing.thy ===== *)
theory Hashing
  imports Net_Util
begin

text \<open>
  \<open>dpi/Hash.cc\<close> (the key of the TCP stream table) and \<open>dpi/Sharding.cc\<close> (the worker a packet
  goes to, also the hash of the HTTP and session tables). The random bytes read from
  \<open>/dev/urandom\<close> are parameters. Proved: the generated index array is a permutation, so
  every read of the key bytes is in range; the 32-bit accumulation never wraps; the
  sharding hash does not depend on the direction of a packet; and, in the locale
  \<open>keyed_table\<close>, that looking a key up in its bucket is looking it up in the whole table.
\<close>

section \<open>The random permutation\<close>

text \<open>
  The inner loop \<open>for (j = 0; j < k - 1 - n; j++) p[n + j] = p[n + j + 1]\<close> and one round of
  the outer loop. \<open>k\<close> is 12 in \<open>Hash::init_hash\<close> and 6 in the constructor of \<open>Sharding\<close>.
\<close>

definition shift_down :: "nat \<Rightarrow> nat \<Rightarrow> nat list \<Rightarrow> nat list" where
  "shift_down k n p = fold (\<lambda>j q. q[n + j := q ! (n + j + 1)]) [0..<k - 1 - n] p"

definition perm_round :: "nat \<Rightarrow> bytes \<Rightarrow> nat \<Rightarrow> nat list \<times> nat list \<Rightarrow> nat list \<times> nat list" where
  "perm_round k rnd i = (\<lambda>(perm, p).
     let n = unat (rnd ! i) mod (k - i) in (perm @ [p ! n], shift_down k n p))"

definition perm_rounds :: "nat \<Rightarrow> bytes \<Rightarrow> nat \<Rightarrow> nat list \<times> nat list" where
  "perm_rounds k rnd m = fold (perm_round k rnd) [0..<m] ([], [0..<k])"

definition init_hash :: "bytes \<Rightarrow> nat list" where
  "init_hash rnd = fst (perm_rounds 12 rnd 12)"

definition init_sharding :: "bytes \<Rightarrow> nat list" where
  "init_sharding rnd = fst (perm_rounds 6 rnd 6)"

lemma length_shift_down [simp]: "length (shift_down k n p) = length p"
proof -
  have "length (fold (\<lambda>j q. q[n + j := q ! (n + j + 1)]) xs p) = length p" for xs
    by (induction xs arbitrary: p) auto
  then show ?thesis by (simp add: shift_down_def)
qed

lemma shift_loop_nth:
  "\<lbrakk>n + m < length p; i < length p\<rbrakk> \<Longrightarrow>
     fold (\<lambda>j q. q[n + j := q ! (n + j + 1)]) [0..<m] p ! i =
     (if n \<le> i \<and> i < n + m then p ! (i + 1) else p ! i)"
proof (induction m arbitrary: i)
  case 0
  then show ?case by auto
next
  case (Suc m)
  have len: "length (fold (\<lambda>j q. q[n + j := q ! (n + j + 1)]) xs p) = length p" for xs
    by (induction xs arbitrary: p) auto
  from Suc show ?case by (auto simp: nth_list_update len [simplified])
qed

lemma shift_down_take:
  assumes "n < m" and "m \<le> k" and "length p = k"
  shows "take (m - 1) (shift_down k n p) = take n p @ drop (n + 1) (take m p)"
proof (rule nth_equalityI)
  show "length (take (m - 1) (shift_down k n p)) = length (take n p @ drop (n + 1) (take m p))"
    using assms by simp
next
  fix i assume "i < length (take (m - 1) (shift_down k n p))"
  then have i: "i < m - 1" "i < k"
    using assms by simp_all
  have "shift_down k n p ! i = (if n \<le> i \<and> i < n + (k - 1 - n) then p ! (i + 1) else p ! i)"
    unfolding shift_down_def using assms i by (intro shift_loop_nth) auto
  with i assms show "take (m - 1) (shift_down k n p) ! i = (take n p @ drop (n + 1) (take m p)) ! i"
    by (auto simp: nth_append)
qed

lemma perm_rounds_Suc:
  "perm_rounds k rnd (Suc m) = perm_round k rnd m (perm_rounds k rnd m)"
  by (simp add: perm_rounds_def)

text \<open>After \<open>m\<close> rounds the chosen indices and the first \<open>k - m\<close> cells of \<open>p\<close> are disjoint and cover everything.\<close>

lemma perm_rounds_inv:
  "m \<le> k \<Longrightarrow> (case perm_rounds k rnd m of (perm, p) \<Rightarrow>
     length perm = m \<and> length p = k \<and> distinct (perm @ take (k - m) p) \<and>
     set (perm @ take (k - m) p) = {0..<k})"
proof (induction m)
  case 0
  then show ?case by (simp add: perm_rounds_def)
next
  case (Suc m)
  obtain perm p where pp: "perm_rounds k rnd m = (perm, p)"
    by fastforce
  let ?n = "unat (rnd ! m) mod (k - m)"
  have n: "?n < k - m" using Suc.prems by simp
  have IH: "length perm = m" "length p = k" "distinct (perm @ take (k - m) p)"
    "set (perm @ take (k - m) p) = {0..<k}"
    using Suc pp by auto
  have rest: "take (k - Suc m) (shift_down k ?n p) = take ?n p @ drop (?n + 1) (take (k - m) p)"
    using shift_down_take[of ?n "k - m" k p] n IH(2) by simp
  have split: "take (k - m) p = take ?n p @ p ! ?n # drop (?n + 1) (take (k - m) p)"
    using id_take_nth_drop[of ?n "take (k - m) p"] n IH(2) by (simp add: min_absorb1)
  define a x b where "a = take ?n p" and "x = p ! ?n" and "b = drop (?n + 1) (take (k - m) p)"
  have "distinct (perm @ a @ x # b)" "set (perm @ a @ x # b) = {0..<k}"
    using IH(3,4) split unfolding a_def x_def b_def by metis+
  then have "distinct ((perm @ [x]) @ a @ b)" "set ((perm @ [x]) @ a @ b) = {0..<k}"
    by auto
  moreover have "perm_rounds k rnd (Suc m) = (perm @ [x], shift_down k ?n p)"
    by (simp add: perm_rounds_Suc pp perm_round_def Let_def x_def)
  ultimately show ?case
    using rest IH(1,2) by (simp add: a_def b_def)
qed

lemma init_hash_perm: "distinct (init_hash rnd) \<and> set (init_hash rnd) = {0..<12} \<and> length (init_hash rnd) = 12"
  using perm_rounds_inv[of 12 12 rnd] by (auto simp: init_hash_def split: prod.splits)

lemma init_sharding_perm:
  "distinct (init_sharding rnd) \<and> set (init_sharding rnd) = {0..<6} \<and> length (init_sharding rnd) = 6"
  using perm_rounds_inv[of 6 6 rnd] by (auto simp: init_sharding_def split: prod.splits)

section \<open>Keys of the stream table\<close>

text \<open>
  \<open>Hash::get_key\<close>: the 12 key bytes laid out as the two addresses and the two ports in
  memory order, mixed through the permutation. Numbers are kept as 32-bit words.
\<close>

definition u32_mem :: "u32 \<Rightarrow> bytes" where
  "u32_mem w = [ucast w, ucast (drop_bit 8 w), ucast (drop_bit 16 w), ucast (drop_bit 24 w)]"

definition u16_mem :: "u16 \<Rightarrow> bytes" where
  "u16_mem w = [ucast w, ucast (drop_bit 8 w)]"

definition mix :: "bytes \<Rightarrow> bytes \<Rightarrow> nat list \<Rightarrow> u32 \<Rightarrow> nat \<Rightarrow> u32" where
  "mix data xors perm res i = (push_bit 8 res + ucast ((data ! (perm ! i)) XOR (xors ! i))) mod 0xff100f"

definition get_key :: "bytes \<Rightarrow> nat list \<Rightarrow> u32 \<Rightarrow> u16 \<Rightarrow> u32 \<Rightarrow> u16 \<Rightarrow> nat \<Rightarrow> nat" where
  "get_key xors perm src sport dst dport hash_size =
     (let data = u32_mem src @ u32_mem dst @ u16_mem sport @ u16_mem dport
      in unat (fold (\<lambda>i res. mix data xors perm res i) [0..<12] 0) mod hash_size)"

lemma get_key_less: "0 < hash_size \<Longrightarrow> get_key xors perm src sport dst dport hash_size < hash_size"
  by (simp add: get_key_def Let_def)

text \<open>One mixing step, on natural numbers: it never wraps, as the accumulator is below \<open>0xff100f\<close>.\<close>

lemma unat_mix:
  assumes "unat res < 0xff100f"
  shows "unat (mix data xors perm res i) =
    (256 * unat res + unat ((data ! (perm ! i)) XOR (xors ! i))) mod 0xff100f"
proof -
  let ?b = "(data ! (perm ! i)) XOR (xors ! i)"
  have b: "unat ?b < 256"
    using unsigned_less [of ?b] by simp
  have "unat (push_bit 8 res) = 256 * unat res"
    using assms by (simp add: push_bit_eq_mult unat_word_ariths mult.commute)
  moreover have "unat (ucast ?b :: u32) = unat ?b"
    using b by (simp add: unsigned_ucast_eq take_bit_nat_eq_self_iff)
  ultimately have "unat (push_bit 8 res + ucast ?b) = 256 * unat res + unat ?b"
    using assms b by (simp add: unat_word_ariths)
  then show ?thesis
    by (simp add: mix_def unat_mod_distrib)
qed

lemma mix_bound: "unat (mix data xors perm res i) < 0xff100f"
  by (simp add: mix_def unat_mod_distrib)

fun mix_nat :: "bytes \<Rightarrow> bytes \<Rightarrow> nat list \<Rightarrow> nat list \<Rightarrow> nat \<Rightarrow> nat" where
  "mix_nat data xors perm [] res = res"
| "mix_nat data xors perm (i # is) res =
     mix_nat data xors perm is ((256 * res + unat ((data ! (perm ! i)) XOR (xors ! i))) mod 0xff100f)"

lemma fold_mix_nat:
  "unat res < 0xff100f \<Longrightarrow>
   unat (fold (\<lambda>i r. mix data xors perm r i) is res) = mix_nat data xors perm is (unat res)"
  by (induction "is" arbitrary: res) (simp_all add: unat_mix mix_bound)

section \<open>Sharding\<close>

text \<open>\<open>Sharding::operator()(tuple4)\<close>; the members \<open>xor_\<close> and \<open>perm_\<close> are parameters.\<close>

definition shard :: "bytes \<Rightarrow> nat list \<Rightarrow> tuple4 \<Rightarrow> u32" where
  "shard xors perms t =
     (let flag1 = daddr t XOR saddr t; flag2 = dest t XOR source t;
          data = u32_mem flag1 @ u16_mem flag2
      in fold (\<lambda>i res. mix data xors perms res i) [0..<6] 0)"

lemma shard_reversed: "shard xors perms (t4_reversed t) = shard xors perms t"
  by (simp add: shard_def xor.commute)

text \<open>\<open>getTuple4\<close> and \<open>operator()(const ip*, int)\<close>; the failed assertion and the
exceptions it throws are values. The ports stay in network order (\<open>htons\<close> of the viewed ones).\<close>

datatype shard_error = LengthAssertion | TcpHeaderTooShort | UdpHeaderTooShort | UnsupportedProtocol u8 | BadRead

definition getTuple4 :: "bytes \<Rightarrow> int \<Rightarrow> shard_error + tuple4" where
  "getTuple4 d len = (case ip_view d of None \<Rightarrow> Inl BadRead | Some hdr \<Rightarrow>
     let i = 4 * ip_hl hdr; len' = len - 4 * int (ip_hl hdr) in
     if len' < 0 then Inl LengthAssertion
     else if ip_p hdr = IPPROTO_TCP then
       (if len' < 20 then Inl TcpHeaderTooShort
        else case tcp_view d i of None \<Rightarrow> Inl BadRead
          | Some t \<Rightarrow> Inr \<lparr>source = htons (th_sport t), dest = htons (th_dport t), saddr = ip_src hdr, daddr = ip_dst hdr\<rparr>)
     else if ip_p hdr = IPPROTO_UDP then
       (if len' < 8 then Inl UdpHeaderTooShort
        else case udp_view d i of None \<Rightarrow> Inl BadRead
          | Some (s, r) \<Rightarrow> Inr \<lparr>source = htons s, dest = htons r, saddr = ip_src hdr, daddr = ip_dst hdr\<rparr>)
     else if ip_p hdr = IPPROTO_ICMP then
       Inr \<lparr>source = 928, dest = 928, saddr = ip_src hdr, daddr = ip_dst hdr\<rparr>
     else Inl (UnsupportedProtocol (ip_p hdr)))"

definition shard_ip :: "bytes \<Rightarrow> nat list \<Rightarrow> bytes \<Rightarrow> int \<Rightarrow> shard_error + u32" where
  "shard_ip xors perms d len = (case getTuple4 d len of Inl e \<Rightarrow> Inl e | Inr t \<Rightarrow> Inr (shard xors perms t))"

text \<open>With a buffer of the announced length, at least a fixed header long, no read is out of bounds.\<close>

lemma getTuple4_in_bounds:
  assumes "20 \<le> length d" and "len = int (length d)"
  shows "getTuple4 d len \<noteq> Inl BadRead"
  using assms
  by (auto simp: getTuple4_def Let_def not_less split: option.splits)

section \<open>Hash tables with a custom equality\<close>

text \<open>
  The contract \<open>std::unordered_map\<close> puts on its hash and equality: equal keys hash
  equally. The table is a list of entries; a lookup scans only the bucket of the key.
\<close>

locale keyed_table =
  fixes eq :: "'k \<Rightarrow> 'k \<Rightarrow> bool" and h :: "'k \<Rightarrow> u32"
  assumes eq_refl: "eq a a" and eq_sym: "eq a b \<Longrightarrow> eq b a"
    and eq_trans: "eq a b \<Longrightarrow> eq b c \<Longrightarrow> eq a c"
    and hash_eq: "eq a b \<Longrightarrow> h a = h b"
begin

lemma bucket_lookup:
  "List.find (\<lambda>e. eq k (fst e)) (filter (\<lambda>e. unat (h (fst e)) mod n = unat (h k) mod n) xs) =
   List.find (\<lambda>e. eq k (fst e)) xs"
  by (induction xs) (auto dest: hash_eq)

lemma worker_eq: "eq a b \<Longrightarrow> unat (h a) mod n = unat (h b) mod n"
  by (simp add: hash_eq)

lemma find_cong: "eq a b \<Longrightarrow> List.find (\<lambda>e. eq a (fst e)) xs = List.find (\<lambda>e. eq b (fst e)) xs"
  by (induction xs) (auto dest: eq_sym eq_trans)

end

text \<open>\<open>std::equal_to<tuple4>\<close> (the HTTP table) and \<open>Tuple4HashEqual\<close> (the session table).\<close>

definition Tuple4HashEqual :: "tuple4 \<Rightarrow> tuple4 \<Rightarrow> bool" where
  "Tuple4HashEqual lhs rhs \<longleftrightarrow> tuple4_eq lhs rhs \<or>
     (source lhs = dest rhs \<and> dest lhs = source rhs \<and> saddr lhs = daddr rhs \<and> daddr lhs = saddr rhs)"

lemma Tuple4HashEqual_iff: "Tuple4HashEqual a b \<longleftrightarrow> a = b \<or> a = t4_reversed b"
  by (auto simp: Tuple4HashEqual_def t4_reversed_def)

interpretation http_key: keyed_table tuple4_eq "shard xors perms" for xors perms
  by unfold_locales auto

interpretation session_key: keyed_table Tuple4HashEqual "shard xors perms" for xors perms
  by unfold_locales (auto simp: Tuple4HashEqual_iff shard_reversed)

section \<open>Properties\<close>

text \<open>
  The index arrays built from the random bytes are permutations of the key positions,
  whatever the random bytes are, so every key byte is mixed in exactly once and no read of
  the key is out of range.
\<close>

theorem random_permutation:
  "distinct (init_hash rnd) \<and> set (init_hash rnd) = {0..<12} \<and>
   distinct (init_sharding rnd) \<and> set (init_sharding rnd) = {0..<6}"
  using init_hash_perm init_sharding_perm by blast

text \<open>
  The worker of a packet and the session of a packet do not depend on the direction: the
  hash of a key and of the reversed key agree, and the session table finds the same entry
  for both, although it only scans the bucket of the key it is given.
\<close>

theorem session_direction_independent:
  "shard xors perms (t4_reversed k) = shard xors perms k \<and>
   List.find (\<lambda>e. Tuple4HashEqual (t4_reversed k) (fst e))
     (filter (\<lambda>e. unat (shard xors perms (fst e)) mod n = unat (shard xors perms (t4_reversed k)) mod n) xs) =
   List.find (\<lambda>e. Tuple4HashEqual k (fst e)) xs"
  using session_key.bucket_lookup[of "t4_reversed k" xors perms n xs]
    session_key.find_cong[of "t4_reversed k" k xs]
  by (simp add: shard_reversed Tuple4HashEqual_iff)

end
