(* ===== verification/Tcp_Fragment.thy ===== *)
theory Tcp_Fragment
  imports Tcp_Stream Hashing
begin

text \<open>
  The TCP engine \<open>TcpFragment\<close> of \<open>dpi/TcpFragment.cc\<close>: the table of streams, the two timeout
  sets, and \<open>processTcp\<close> with everything it calls.

  A \<open>TcpStream*\<close> is the number of the stream object. \<open>tcphashmap_\<close> is the list of streams in
  insertion order; a bucket is the sublist with the hash index. The fields of a new
  \<open>TcpStream\<close> that \<open>addNewtcp\<close> leaves uninitialised are taken from \<open>stack_junk\<close>. Callbacks
  are events; they carry the number and the address of the stream they get a pointer to. All
  registered callbacks of a kind see the same events, and the time stamp is that of the call.
\<close>

section \<open>State\<close>

record TcpStream =
  s_id :: nat
  hash_index :: nat
  addr :: tuple4
  client :: HalfStream
  server :: HalfStream
  isconnnection :: bool
  s_ts :: int

text \<open>\<open>operator<\<close> of \<open>Timeout\<close> compares the seconds only; \<open>std::set\<close> orders and identifies by it.\<close>

datatype Timeout = Timeout (to_tcp: nat) (to_time: timeval)

definition timeout_less :: "Timeout \<Rightarrow> Timeout \<Rightarrow> bool" where
  "timeout_less a b \<longleftrightarrow> tv_sec (to_time a) < tv_sec (to_time b)"

instantiation Timeout :: preorder
begin

definition less_eq_Timeout :: "Timeout \<Rightarrow> Timeout \<Rightarrow> bool" where
  "less_eq_Timeout a b \<longleftrightarrow> tv_sec (to_time a) \<le> tv_sec (to_time b)"

definition less_Timeout :: "Timeout \<Rightarrow> Timeout \<Rightarrow> bool" where
  "less_Timeout = timeout_less"

instance
  by standard (auto simp: less_eq_Timeout_def less_Timeout_def timeout_less_def)

end

fun set_insert :: "Timeout \<Rightarrow> Timeout list \<Rightarrow> Timeout list" where
  "set_insert t [] = [t]"
| "set_insert t (u # us) = (if t < u then t # u # us else if u < t then u # set_insert t us else u # us)"

record TcpFragment =
  tcphashmap :: "TcpStream list"
  finTimeoutSet :: "Timeout list"
  tcpTimeoutSet :: "Timeout list"
  tcpStreamTableSize :: nat
  tf_xors :: bytes
  tf_perm :: "nat list"
  next_sid :: nat
  stack_junk :: "nat \<Rightarrow> HalfStream \<times> HalfStream"

datatype tcp_event = TcpConnected nat tuple4 | TcpData nat tuple4 bytes int | TcpClosed nat tuple4
  | TcpRst nat tuple4 | TcpTimedOut nat tuple4

definition tcpInit :: "nat \<Rightarrow> TcpFragment \<Rightarrow> TcpFragment" where
  "tcpInit sz s = (if sz = 0 then s
     else s\<lparr>tcpStreamTableSize := sz, tcphashmap := [], finTimeoutSet := [], tcpTimeoutSet := []\<rparr>)"

definition TcpFragment_init :: "bytes \<Rightarrow> nat list \<Rightarrow> (nat \<Rightarrow> HalfStream \<times> HalfStream) \<Rightarrow> TcpFragment" where
  "TcpFragment_init xors perm junk = tcpInit 500000
     \<lparr>tcphashmap = [], finTimeoutSet = [], tcpTimeoutSet = [], tcpStreamTableSize = 0,
      tf_xors = xors, tf_perm = perm, next_sid = 0, stack_junk = junk\<rparr>"

section \<open>Timeouts\<close>

definition later_by :: "int \<Rightarrow> timeval \<Rightarrow> timeval" where
  "later_by n t = t\<lparr>tv_sec := tv_sec t + n\<rparr>"

definition addTcptimeout :: "nat \<Rightarrow> timeval \<Rightarrow> TcpFragment \<Rightarrow> TcpFragment" where
  "addTcptimeout a_tcp timeStamp s =
     s\<lparr>tcpTimeoutSet := set_insert (Timeout a_tcp (later_by 30 timeStamp)) (tcpTimeoutSet s)\<rparr>"

definition delTcptimeout :: "nat \<Rightarrow> TcpFragment \<Rightarrow> TcpFragment" where
  "delTcptimeout a_tcp s = s\<lparr>tcpTimeoutSet := filter (\<lambda>t. to_tcp t \<noteq> a_tcp) (tcpTimeoutSet s)\<rparr>"

definition addFintimeout :: "nat \<Rightarrow> timeval \<Rightarrow> TcpFragment \<Rightarrow> TcpFragment" where
  "addFintimeout a_tcp timeStamp s =
     s\<lparr>finTimeoutSet := set_insert (Timeout a_tcp (later_by 5 timeStamp)) (finTimeoutSet s)\<rparr>"

definition delFintimeout :: "nat \<Rightarrow> TcpFragment \<Rightarrow> TcpFragment" where
  "delFintimeout a_tcp s = s\<lparr>finTimeoutSet := filter (\<lambda>t. to_tcp t \<noteq> a_tcp) (finTimeoutSet s)\<rparr>"

definition updateTcptimeout :: "nat \<Rightarrow> timeval \<Rightarrow> TcpFragment \<Rightarrow> TcpFragment" where
  "updateTcptimeout a_tcp timeStamp s = addTcptimeout a_tcp timeStamp (delTcptimeout a_tcp s)"

section \<open>Streams\<close>

definition stream_at :: "TcpFragment \<Rightarrow> nat \<Rightarrow> TcpStream option" where
  "stream_at s a_tcp = find (\<lambda>x. s_id x = a_tcp) (tcphashmap s)"

definition put_stream :: "TcpStream \<Rightarrow> TcpFragment \<Rightarrow> TcpFragment" where
  "put_stream x s = s\<lparr>tcphashmap := map (\<lambda>y. if s_id y = s_id x then x else y) (tcphashmap s)\<rparr>"

text \<open>
  \<open>freeTcpData\<close> purges the queues in place (observable only through the account of the
  stream, which is removed next); \<open>freeTcpstream\<close> also erases the stream.
\<close>

definition freeTcpData :: "nat \<Rightarrow> TcpFragment \<Rightarrow> TcpFragment" where
  "freeTcpData a_tcp s =
     (let s1 = delFintimeout a_tcp (delTcptimeout a_tcp s)
      in case stream_at s1 a_tcp of None \<Rightarrow> s1
         | Some x \<Rightarrow> put_stream (x\<lparr>client := purgeQueue (client x), server := purgeQueue (server x)\<rparr>) s1)"

definition freeTcpstream :: "nat \<Rightarrow> TcpFragment \<Rightarrow> TcpFragment" where
  "freeTcpstream a_tcp s =
     (let s1 = freeTcpData a_tcp s
      in s1\<lparr>tcphashmap := filter (\<lambda>x. s_id x \<noteq> a_tcp) (tcphashmap s1)\<rparr>)"

definition tcpExit :: "TcpFragment \<Rightarrow> TcpFragment" where
  "tcpExit s = (if tcphashmap s = [] then s
     else (fold freeTcpData (map s_id (tcphashmap s)) s)
            \<lparr>tcphashmap := [], finTimeoutSet := [], tcpTimeoutSet := []\<rparr>)"

definition clearAllStream :: "TcpFragment \<Rightarrow> tcp_event list \<times> TcpFragment" where
  "clearAllStream s =
     (map (\<lambda>x. TcpTimedOut (s_id x) (addr x)) (filter isconnnection (tcphashmap s)), tcpExit s)"

definition stream_key :: "TcpFragment \<Rightarrow> tuple4 \<Rightarrow> nat" where
  "stream_key s a = get_key (tf_xors s) (tf_perm s) (saddr a) (source a) (daddr a) (dest a) (tcpStreamTableSize s)"

text \<open>The last match of the bucket.\<close>

definition findStream_aux :: "tuple4 \<Rightarrow> TcpFragment \<Rightarrow> TcpStream option" where
  "findStream_aux a s =
     (let bucket = filter (\<lambda>x. hash_index x = stream_key s a) (tcphashmap s)
      in find (\<lambda>x. tuple4_eq (addr x) a) (rev bucket))"

definition seg_addr :: "tcphdr \<Rightarrow> iphdr \<Rightarrow> tuple4" where
  "seg_addr hdr iph = \<lparr>source = th_sport hdr, dest = th_dport hdr, saddr = ip_src iph, daddr = ip_dst iph\<rparr>"

definition findStream :: "tcphdr \<Rightarrow> iphdr \<Rightarrow> TcpFragment \<Rightarrow> (TcpStream \<times> bool) option" where
  "findStream hdr iph s = (case findStream_aux (seg_addr hdr iph) s of
     Some x \<Rightarrow> Some (x, True)
   | None \<Rightarrow> (case findStream_aux (t4_reversed (seg_addr hdr iph)) s of
       Some x \<Rightarrow> Some (x, False) | None \<Rightarrow> None))"

text \<open>The window scale option of a segment; \<open>opts\<close> are the bytes behind the fixed header.\<close>

definition wscale_of :: "bytes \<Rightarrow> tcphdr \<Rightarrow> bool \<times> u32" where
  "wscale_of opts hdr = (case getWscale opts (th_off hdr) of Some r \<Rightarrow> r | None \<Rightarrow> (False, 1))"

definition new_stream :: "tcphdr \<Rightarrow> iphdr \<Rightarrow> bytes \<Rightarrow> timeval \<Rightarrow> TcpFragment \<Rightarrow> TcpStream" where
  "new_stream hdr iph opts timeStamp s =
     (let (jc, js) = stack_junk s (next_sid s); (on, ws) = wscale_of opts hdr
      in \<lparr>s_id = next_sid s, hash_index = stream_key s (seg_addr hdr iph), addr = seg_addr hdr iph,
          client = jc\<lparr>h_count := 0, h_rmem_alloc := 0, h_ack_seq := 0, h_urg_count := 0,
                      h_state := TCP_SYN_SENT, h_seq := th_seq hdr + 1, h_first_data_seq := th_seq hdr + 1,
                      h_window := th_win hdr, h_wscale_on := on, h_wscale := ws, h_fraglist := []\<rparr>,
          server = js\<lparr>h_count := 0, h_rmem_alloc := 0, h_ack_seq := 0, h_urg_count := 0,
                      h_state := TCP_CLOSE, h_fraglist := []\<rparr>,
          isconnnection = False, s_ts = tv_sec timeStamp\<rparr>)"

definition addNewtcp :: "tcphdr \<Rightarrow> iphdr \<Rightarrow> bytes \<Rightarrow> timeval \<Rightarrow> TcpFragment \<Rightarrow> tcp_event list \<times> TcpFragment" where
  "addNewtcp hdr iph opts timeStamp s =
     (let (ev, s1) = (if length (tcphashmap s) \<ge> tcpStreamTableSize s then clearAllStream s else ([], s));
          x = new_stream hdr iph opts timeStamp s1;
          s2 = s1\<lparr>tcphashmap := tcphashmap s1 @ [x], next_sid := next_sid s1 + 1\<rparr>
      in (ev, case findStream_aux (seg_addr hdr iph) s2 of
                Some temp \<Rightarrow> addTcptimeout (s_id temp) timeStamp s2 | None \<Rightarrow> s2))"

section \<open>Expiry\<close>

lemma freeTcpstream_sets [simp]:
  "tcpTimeoutSet (freeTcpstream a s) = filter (\<lambda>t. to_tcp t \<noteq> a) (tcpTimeoutSet s)"
  "finTimeoutSet (freeTcpstream a s) = filter (\<lambda>t. to_tcp t \<noteq> a) (finTimeoutSet s)"
  by (auto simp: freeTcpstream_def freeTcpData_def Let_def delTcptimeout_def delFintimeout_def put_stream_def
      split: option.split)

definition connected_event :: "(nat \<Rightarrow> tuple4 \<Rightarrow> tcp_event) \<Rightarrow> nat \<Rightarrow> TcpFragment \<Rightarrow> tcp_event list" where
  "connected_event ev a_tcp s = (case stream_at s a_tcp of None \<Rightarrow> []
     | Some x \<Rightarrow> if isconnnection x then [ev (s_id x) (addr x)] else [])"

function expire_tcp :: "timeval \<Rightarrow> TcpFragment \<Rightarrow> tcp_event list \<times> TcpFragment" where
  "expire_tcp timeStamp s = (case tcpTimeoutSet s of
     [] \<Rightarrow> ([], s)
   | it # _ \<Rightarrow>
       if tv_sec timeStamp < tv_sec (to_time it) then ([], s)
       else let (ev, s') = expire_tcp timeStamp (freeTcpstream (to_tcp it) s)
            in (connected_event TcpTimedOut (to_tcp it) s @ ev, s'))"
  by auto
termination
  by (relation "measure (\<lambda>(t, s). length (tcpTimeoutSet s))") (auto intro: le_imp_less_Suc)

function expire_fin :: "timeval \<Rightarrow> TcpFragment \<Rightarrow> tcp_event list \<times> TcpFragment" where
  "expire_fin timeStamp s = (case finTimeoutSet s of
     [] \<Rightarrow> ([], s)
   | it # _ \<Rightarrow>
       if tv_sec timeStamp < tv_sec (to_time it) then ([], s)
       else let (ev, s') = expire_fin timeStamp (freeTcpstream (to_tcp it) s)
            in (connected_event TcpClosed (to_tcp it) s @ ev, s'))"
  by auto
termination
  by (relation "measure (\<lambda>(t, s). length (finTimeoutSet s))") (auto intro: le_imp_less_Suc)

declare expire_tcp.simps [simp del] expire_fin.simps [simp del]

definition tcpChecktimeouts :: "timeval \<Rightarrow> TcpFragment \<Rightarrow> tcp_event list \<times> TcpFragment" where
  "tcpChecktimeouts timeStamp s =
     (let (e1, s1) = expire_tcp timeStamp s; (e2, s2) = expire_fin timeStamp s1 in (e1 @ e2, s2))"

section \<open>A segment\<close>

text \<open>The actions of the stream code, performed on the timeout sets and the data callbacks.\<close>

fun perform :: "nat \<Rightarrow> tuple4 \<Rightarrow> int \<Rightarrow> timeval \<Rightarrow> tcp_act list \<Rightarrow> TcpFragment \<Rightarrow> tcp_event list \<times> TcpFragment" where
  "perform a_tcp ad dir timeStamp [] s = ([], s)"
| "perform a_tcp ad dir timeStamp (Notify d # acts) s =
     (let (ev, s') = perform a_tcp ad dir timeStamp acts s in (TcpData a_tcp ad d dir # ev, s'))"
| "perform a_tcp ad dir timeStamp (UpdateTcpTimeout # acts) s =
     perform a_tcp ad dir timeStamp acts (updateTcptimeout a_tcp timeStamp s)"
| "perform a_tcp ad dir timeStamp (AddFinTimeout # acts) s =
     perform a_tcp ad dir timeStamp acts (addFintimeout a_tcp timeStamp s)"

definition snd_half :: "bool \<Rightarrow> TcpStream \<Rightarrow> HalfStream" where
  "snd_half from_client x = (if from_client then client x else server x)"

definition rcv_half :: "bool \<Rightarrow> TcpStream \<Rightarrow> HalfStream" where
  "rcv_half from_client x = (if from_client then server x else client x)"

definition with_halves :: "bool \<Rightarrow> HalfStream \<Rightarrow> HalfStream \<Rightarrow> TcpStream \<Rightarrow> TcpStream" where
  "with_halves from_client sn rc x =
     (if from_client then x\<lparr>client := sn, server := rc\<rparr> else x\<lparr>client := rc, server := sn\<rparr>)"

text \<open>The answer of the server (lines 222 to 253).\<close>

definition syn_ack :: "tcphdr \<Rightarrow> bytes \<Rightarrow> timeval \<Rightarrow> TcpStream \<Rightarrow> TcpStream" where
  "syn_ack hdr opts timeStamp x =
     (if h_state (client x) \<noteq> TCP_SYN_SENT \<or> h_state (server x) \<noteq> TCP_CLOSE \<or>
         \<not> has_flag (th_flags hdr) TH_ACK \<or> h_seq (client x) \<noteq> th_ack hdr then x
      else let srv = (server x)\<lparr>h_state := TCP_SYN_RECV, h_seq := th_seq hdr + 1,
                       h_first_data_seq := th_seq hdr + 1, h_ack_seq := th_ack hdr, h_window := th_win hdr\<rparr>;
               x1 = x\<lparr>s_ts := tv_sec timeStamp\<rparr>
           in if h_wscale_on (client x)
              then let (on, ws) = wscale_of opts hdr
                   in if on then x1\<lparr>server := srv\<lparr>h_wscale_on := True, h_wscale := ws\<rparr>\<rparr>
                      else x1\<lparr>server := srv\<lparr>h_wscale_on := False, h_wscale := 1\<rparr>,
                              client := (client x)\<lparr>h_wscale_on := False, h_wscale := 1\<rparr>\<rparr>
              else x1\<lparr>server := srv\<lparr>h_wscale_on := False, h_wscale := 1\<rparr>\<rparr>)"

definition outside_window :: "tcphdr \<Rightarrow> int \<Rightarrow> HalfStream \<Rightarrow> bool" where
  "outside_window hdr datalen rcv \<longleftrightarrow>
     \<not> (datalen = 0 \<and> th_seq hdr = h_ack_seq rcv) \<and>
     (\<not> before (th_seq hdr) (h_ack_seq rcv + ucast (h_window rcv) * h_wscale rcv) \<or>
      before (th_seq hdr + word_of_int datalen) (h_ack_seq rcv))"

text \<open>The third step of the handshake (lines 278 to 300).\<close>

definition establish :: "tcphdr \<Rightarrow> bool \<Rightarrow> timeval \<Rightarrow> TcpStream \<Rightarrow> tcp_event list \<times> TcpStream" where
  "establish hdr from_client timeStamp x =
     (if has_flag (th_flags hdr) TH_ACK \<and> from_client \<and> h_state (client x) = TCP_SYN_SENT \<and>
         h_state (server x) = TCP_SYN_RECV \<and> th_ack hdr = h_seq (server x)
      then ([TcpConnected (s_id x) (addr x)],
            x\<lparr>client := (client x)\<lparr>h_state := TCP_ESTABLISHED, h_ack_seq := th_ack hdr\<rparr>,
              server := (server x)\<lparr>h_state := TCP_ESTABLISHED\<rparr>, s_ts := tv_sec timeStamp, isconnnection := True\<rparr>)
      else ([], x))"

text \<open>Acknowledgement and closing (lines 308 to 327); the flag says that both sides are closed.\<close>

definition acknowledge :: "tcphdr \<Rightarrow> bool \<Rightarrow> TcpStream \<Rightarrow> bool \<times> TcpStream" where
  "acknowledge hdr from_client x =
     (if has_flag (th_flags hdr) TH_ACK
      then let sn = handleAck (snd_half from_client x) (th_ack hdr); rc = rcv_half from_client x;
               rc' = (if h_state rc = FIN_SENT then rc\<lparr>h_state := FIN_CONFIRMED\<rparr> else rc)
           in (h_state rc' = FIN_CONFIRMED \<and> h_state sn = FIN_CONFIRMED, with_halves from_client sn rc' x)
      else (False, x))"

text \<open>Queueing the data and the window update (lines 333 to 345).\<close>

definition take_data ::
  "tcphdr \<Rightarrow> bool \<Rightarrow> bytes \<Rightarrow> int \<Rightarrow> int \<Rightarrow> timeval \<Rightarrow> TcpStream \<Rightarrow> TcpFragment \<Rightarrow> tcp_event list \<times> TcpFragment" where
  "take_data hdr from_client data datalen skblen timeStamp x s =
     (let (acts, sn, rc) =
            (if datalen + of_bool (has_flag (th_flags hdr) TH_FIN) > 0
             then tcpQueue (isconnnection x) hdr (snd_half from_client x) (rcv_half from_client x) data datalen skblen
             else ([], snd_half from_client x, rcv_half from_client x));
          x' = with_halves from_client (sn\<lparr>h_window := th_win hdr\<rparr>) rc x;
          (ev, s1) = perform (s_id x) (addr x) (if from_client then FROMCLIENT else FROMSERVER) timeStamp acts s;
          s2 = put_stream x' s1
      in (ev, if h_rmem_alloc rc > 65535 then freeTcpstream (s_id x) s2 else s2))"

text \<open>A segment of a known stream, SYN without ACK and RST excepted (lines 185 to 345).\<close>

definition known_segment ::
  "tcphdr \<Rightarrow> iphdr \<Rightarrow> bytes \<Rightarrow> bool \<Rightarrow> bytes \<Rightarrow> int \<Rightarrow> int \<Rightarrow> timeval \<Rightarrow> TcpStream \<Rightarrow> TcpFragment \<Rightarrow> tcp_event list \<times> TcpFragment" where
  "known_segment hdr iph opts from_client data datalen skblen timeStamp x s =
     (if has_flag (th_flags hdr) TH_SYN then
        (if from_client
         then (if s_ts x + 1800 < tv_sec timeStamp \<and> \<not> has_flag (th_flags hdr) TH_ACK \<and> \<not> has_flag (th_flags hdr) TH_RST
               then addNewtcp hdr iph opts timeStamp (freeTcpstream (s_id x) s) else ([], s))
         else ([], put_stream (syn_ack hdr opts timeStamp x) s))
      else if outside_window hdr datalen (rcv_half from_client x) then ([], s)
      else if has_flag (th_flags hdr) TH_RST then
        (if isconnnection x then [TcpRst (s_id x) (addr x)] else [], freeTcpstream (s_id x) s)
      else
        (let (e1, x1) = establish hdr from_client timeStamp x;
             (closed, x2) = acknowledge hdr from_client x1
         in if closed then (e1 @ (if isconnnection x2 then [TcpClosed (s_id x2) (addr x2)] else []), freeTcpstream (s_id x2) s)
            else let (e2, s') = take_data hdr from_client data datalen skblen timeStamp x2 s in (e1 @ e2, s')))"

text \<open>
  \<open>processTcp\<close>: \<open>data\<close> is the IP packet. A packet shorter than its claimed length would be
  read out of bounds; \<open>startIpfragProc\<close> only passes complete ones.
\<close>

definition processTcp :: "bytes \<Rightarrow> int \<Rightarrow> timeval \<Rightarrow> TcpFragment \<Rightarrow> tcp_event list \<times> TcpFragment" where
  "processTcp data skblen timeStamp s0 =
     (let (e0, s) = tcpChecktimeouts timeStamp s0
      in case ip_view data of None \<Rightarrow> (e0, s) | Some iph \<Rightarrow>
         if ip_len iph < 4 * ip_hl iph + 20 then (e0, s)
         else (case tcp_view data (4 * ip_hl iph) of None \<Rightarrow> (e0, s) | Some hdr \<Rightarrow>
           let datalen = int (ip_len iph) - 4 * int (ip_hl iph) - 4 * int (th_off hdr);
               opts = drop (4 * ip_hl iph + 20) data;
               payload = drop (4 * ip_hl iph + 4 * th_off hdr) data;
               opening = has_flag (th_flags hdr) TH_SYN \<and> \<not> has_flag (th_flags hdr) TH_ACK \<and> \<not> has_flag (th_flags hdr) TH_RST
           in if datalen < 0 then (e0, s)
              else if ip_src iph OR ip_dst iph = 0 then (e0, s)
              else (case findStream hdr iph s of
                None \<Rightarrow> if opening then (let (e, s') = addNewtcp hdr iph opts timeStamp s in (e0 @ e, s')) else (e0, s)
              | Some (x, from_client) \<Rightarrow>
                  let (e, s') = (if opening then addNewtcp hdr iph opts timeStamp (freeTcpstream (s_id x) s)
                                 else known_segment hdr iph opts from_client payload datalen skblen timeStamp x s)
                  in (e0 @ e, s'))))"

section \<open>The invariant\<close>

definition table_ok :: "TcpFragment \<Rightarrow> bool" where
  "table_ok s \<longleftrightarrow> distinct (map s_id (tcphashmap s)) \<and> distinct (map addr (tcphashmap s)) \<and>
     (\<forall>x \<in> set (tcphashmap s). s_id x < next_sid s \<and> hash_index x = stream_key s (addr x) \<and>
        (isconnnection x \<longrightarrow> h_state (client x) \<noteq> TCP_SYN_SENT) \<and>
        (\<forall>y \<in> set (tcphashmap s). addr y = t4_reversed (addr x) \<longrightarrow> y = x)) \<and>
     length (tcphashmap s) \<le> tcpStreamTableSize s \<and> 0 < tcpStreamTableSize s"

definition timeouts_ok :: "TcpFragment \<Rightarrow> bool" where
  "timeouts_ok s \<longleftrightarrow> sorted_wrt (<) (tcpTimeoutSet s) \<and> sorted_wrt (<) (finTimeoutSet s) \<and>
     distinct (map to_tcp (tcpTimeoutSet s)) \<and>
     to_tcp ` set (tcpTimeoutSet s) \<subseteq> s_id ` set (tcphashmap s) \<and>
     to_tcp ` set (finTimeoutSet s) \<subseteq> s_id ` set (tcphashmap s)"

text \<open>The life of one stream object as its callbacks see it.\<close>

datatype phase = Fresh | Open | Done | Bad

fun event_id :: "tcp_event \<Rightarrow> nat" where
  "event_id (TcpConnected i a) = i"
| "event_id (TcpData i a d dir) = i"
| "event_id (TcpClosed i a) = i"
| "event_id (TcpRst i a) = i"
| "event_id (TcpTimedOut i a) = i"

fun next_phase :: "tcp_event \<Rightarrow> phase \<Rightarrow> phase" where
  "next_phase (TcpConnected i a) p = (if p = Fresh then Open else Bad)"
| "next_phase (TcpData i a d dir) p = (if p = Open then Open else Bad)"
| "next_phase (TcpClosed i a) p = (if p = Open then Done else Bad)"
| "next_phase (TcpRst i a) p = (if p = Open then Done else Bad)"
| "next_phase (TcpTimedOut i a) p = (if p = Open then Done else Bad)"

definition advance :: "tcp_event list \<Rightarrow> (nat \<Rightarrow> phase) \<Rightarrow> nat \<Rightarrow> phase" where
  "advance evs \<phi> i = fold (\<lambda>e p. if event_id e = i then next_phase e p else p) evs (\<phi> i)"

definition phases_ok :: "(nat \<Rightarrow> phase) \<Rightarrow> TcpFragment \<Rightarrow> bool" where
  "phases_ok \<phi> s \<longleftrightarrow> (\<forall>i. \<phi> i \<noteq> Bad) \<and> (\<forall>i \<ge> next_sid s. \<phi> i = Fresh) \<and>
     (\<forall>x \<in> set (tcphashmap s). \<phi> (s_id x) = (if isconnnection x then Open else Fresh))"

definition tcp_ok :: "(nat \<Rightarrow> phase) \<Rightarrow> TcpFragment \<Rightarrow> bool" where
  "tcp_ok \<phi> s \<longleftrightarrow> table_ok s \<and> timeouts_ok s \<and> phases_ok \<phi> s"

lemma advance_simps [simp]:
  "advance [] \<phi> = \<phi>" "advance (a @ b) \<phi> = advance b (advance a \<phi>)"
  by (simp_all add: advance_def fun_eq_iff)

lemma advance_one: "advance [e] \<phi> = \<phi>(event_id e := next_phase e (\<phi> (event_id e)))"
  by (auto simp: advance_def fun_eq_iff)

lemmas ok_defs = tcp_ok_def table_ok_def timeouts_ok_def phases_ok_def

text \<open>Timeout sets.\<close>

lemma set_insert_set: "set (set_insert t us) \<subseteq> insert t (set us)"
  by (induction us) auto

lemma set_insert_sorted: "sorted_wrt (<) us \<Longrightarrow> sorted_wrt (<) (set_insert t us)"
proof (induction us)
  case (Cons u us)
  then show ?case
    using set_insert_set[of t us] by (auto simp: less_Timeout_def timeout_less_def)
qed simp

lemma set_insert_distinct:
  "\<lbrakk>distinct (map to_tcp us); to_tcp t \<notin> to_tcp ` set us\<rbrakk> \<Longrightarrow> distinct (map to_tcp (set_insert t us))"
proof (induction us)
  case (Cons u us)
  then show ?case
    using set_insert_set[of t us] by auto
qed simp

text \<open>An entry of the same second keeps a new one out.\<close>

lemma set_insert_full:
  "\<lbrakk>sorted_wrt (<) us; u \<in> set us; tv_sec (to_time u) = tv_sec (to_time t)\<rbrakk> \<Longrightarrow> set_insert t us = us"
  by (induction us) (auto simp: less_Timeout_def timeout_less_def)

lemma timeout_sel [simp]:
  "tcphashmap (addTcptimeout a t s) = tcphashmap s" "next_sid (addTcptimeout a t s) = next_sid s"
  "tcphashmap (delTcptimeout a s) = tcphashmap s" "next_sid (delTcptimeout a s) = next_sid s"
  "tcphashmap (addFintimeout a t s) = tcphashmap s" "next_sid (addFintimeout a t s) = next_sid s"
  "tcphashmap (delFintimeout a s) = tcphashmap s" "next_sid (delFintimeout a s) = next_sid s"
  "tcphashmap (updateTcptimeout a t s) = tcphashmap s" "next_sid (updateTcptimeout a t s) = next_sid s"
  "tcpStreamTableSize (addTcptimeout a t s) = tcpStreamTableSize s" "tcpStreamTableSize (delTcptimeout a s) = tcpStreamTableSize s"
  "tcpStreamTableSize (addFintimeout a t s) = tcpStreamTableSize s" "tcpStreamTableSize (delFintimeout a s) = tcpStreamTableSize s"
  "tcpStreamTableSize (updateTcptimeout a t s) = tcpStreamTableSize s"
  "stream_key (addTcptimeout a t s) = stream_key s" "stream_key (delTcptimeout a s) = stream_key s"
  "stream_key (addFintimeout a t s) = stream_key s" "stream_key (delFintimeout a s) = stream_key s"
  "stream_key (updateTcptimeout a t s) = stream_key s"
  by (simp_all add: addTcptimeout_def delTcptimeout_def addFintimeout_def delFintimeout_def updateTcptimeout_def
      stream_key_def fun_eq_iff)

lemma timeouts_add:
  assumes ok: "timeouts_ok s" and a: "a \<in> s_id ` set (tcphashmap s)" "a \<notin> to_tcp ` set (tcpTimeoutSet s)"
  shows "timeouts_ok (addTcptimeout a t s)"
proof -
  let ?t = "Timeout a (later_by 30 t)"
  have "to_tcp ` set (set_insert ?t (tcpTimeoutSet s)) \<subseteq> insert a (to_tcp ` set (tcpTimeoutSet s))"
    using set_insert_set[of ?t "tcpTimeoutSet s"] by auto
  also have "\<dots> \<subseteq> s_id ` set (tcphashmap s)"
    using ok a(1) by (simp add: timeouts_ok_def)
  finally show ?thesis
    using ok a(2) by (simp add: timeouts_ok_def addTcptimeout_def set_insert_sorted set_insert_distinct)
qed

lemma timeouts_update:
  assumes "timeouts_ok s" and "a \<in> s_id ` set (tcphashmap s)"
  shows "timeouts_ok (updateTcptimeout a t s)" and "timeouts_ok (addFintimeout a t s)"
proof -
  let ?us = "filter (\<lambda>u. to_tcp u \<noteq> a) (tcpTimeoutSet s)" and ?t = "Timeout a (later_by 30 t)"
  have "sorted_wrt (<) ?us" "distinct (map to_tcp ?us)" "to_tcp ?t \<notin> to_tcp ` set ?us"
    using assms(1) by (auto simp: timeouts_ok_def sorted_wrt_filter distinct_map_filter)
  moreover from this have "sorted_wrt (<) (set_insert ?t ?us)" "distinct (map to_tcp (set_insert ?t ?us))"
    by (simp_all add: set_insert_sorted set_insert_distinct)
  moreover have "to_tcp ` set (set_insert ?t ?us) \<subseteq> s_id ` set (tcphashmap s)"
    using set_insert_set[of ?t ?us] assms by (force simp: timeouts_ok_def)
  ultimately show "timeouts_ok (updateTcptimeout a t s)"
    using assms(1) by (simp add: timeouts_ok_def updateTcptimeout_def addTcptimeout_def delTcptimeout_def)
  let ?f = "Timeout a (later_by 5 t)"
  have "to_tcp ` set (set_insert ?f (finTimeoutSet s)) \<subseteq> s_id ` set (tcphashmap s)"
    using set_insert_set[of ?f "finTimeoutSet s"] assms by (force simp: timeouts_ok_def)
  then show "timeouts_ok (addFintimeout a t s)"
    using assms(1) by (simp add: timeouts_ok_def addFintimeout_def set_insert_sorted)
qed

text \<open>Freeing a stream.\<close>

lemma freeTcpstream_table [simp]:
  "tcphashmap (freeTcpstream a s) = filter (\<lambda>x. s_id x \<noteq> a) (tcphashmap s)"
proof -
  have put: "filter (\<lambda>x. s_id x \<noteq> a) (map (\<lambda>y. if s_id y = a then z else y) xs) = filter (\<lambda>x. s_id x \<noteq> a) xs"
    if "s_id z = a" for z :: TcpStream and xs
    using that by (induction xs) auto
  have "s_id x = a" if "stream_at s1 a = Some x" for s1 x
    using that by (auto simp: stream_at_def find_Some_iff)
  then show ?thesis
    by (auto simp: freeTcpstream_def freeTcpData_def Let_def put_stream_def put split: option.split)
qed

lemma freeTcpData_sel [simp]:
  "next_sid (freeTcpData a s) = next_sid s" "tcpStreamTableSize (freeTcpData a s) = tcpStreamTableSize s"
  "stream_key (freeTcpData a s) = stream_key s"
  by (auto simp: freeTcpData_def Let_def put_stream_def stream_key_def delTcptimeout_def delFintimeout_def fun_eq_iff
      split: option.split)

lemma freeTcpstream_sel [simp]:
  "next_sid (freeTcpstream a s) = next_sid s" "tcpStreamTableSize (freeTcpstream a s) = tcpStreamTableSize s"
  "stream_key (freeTcpstream a s) = stream_key s"
proof -
  have "stream_key (s1\<lparr>tcphashmap := h\<rparr>) = stream_key s1" for s1 h
    by (simp add: stream_key_def fun_eq_iff)
  then show "next_sid (freeTcpstream a s) = next_sid s" "tcpStreamTableSize (freeTcpstream a s) = tcpStreamTableSize s"
    "stream_key (freeTcpstream a s) = stream_key s"
    by (simp_all add: freeTcpstream_def Let_def)
qed

lemma free_ok:
  assumes "tcp_ok \<phi> s"
  shows "tcp_ok \<phi> (freeTcpstream a s)"
proof -
  have "table_ok (freeTcpstream a s)"
    using assms by (auto simp: tcp_ok_def table_ok_def distinct_map_filter intro: le_trans[OF length_filter_le])
  moreover have "timeouts_ok (freeTcpstream a s)"
    using assms by (auto simp: tcp_ok_def timeouts_ok_def distinct_map_filter sorted_wrt_filter)
  moreover have "phases_ok \<phi> (freeTcpstream a s)"
    using assms by (auto simp: tcp_ok_def phases_ok_def)
  ultimately show ?thesis
    by (simp add: tcp_ok_def)
qed

text \<open>Freeing after the last callback of the stream.\<close>

lemma free_after_ok:
  assumes "tcp_ok \<phi> s" and x: "x \<in> set (tcphashmap s)" "isconnnection x"
    and e: "event_id e = s_id x" "next_phase e Open = Done"
  shows "tcp_ok (advance [e] \<phi>) (freeTcpstream (s_id x) s)"
proof -
  have "\<phi> (s_id x) = Open" "s_id x < next_sid s"
    using assms by (auto simp: ok_defs)
  then have "phases_ok (advance [e] \<phi>) (freeTcpstream (s_id x) s)"
    using assms(1) e by (auto simp: advance_one ok_defs)
  then show ?thesis
    using free_ok[OF assms(1), of "s_id x"] by (simp add: tcp_ok_def)
qed

lemma stream_at_mem: "stream_at s a = Some x \<Longrightarrow> x \<in> set (tcphashmap s) \<and> s_id x = a"
  by (auto simp: stream_at_def find_Some_iff)

lemma free_connected_ok:
  assumes ok: "tcp_ok \<phi> s" and ev: "\<And>i a. event_id (ev i a) = i" "\<And>i a. next_phase (ev i a) Open = Done"
  shows "tcp_ok (advance (connected_event ev a s) \<phi>) (freeTcpstream a s)"
proof (cases "stream_at s a")
  case None
  then show ?thesis
    using free_ok[OF ok] by (simp add: connected_event_def)
next
  case (Some x)
  then have x: "x \<in> set (tcphashmap s)" "s_id x = a"
    using stream_at_mem by auto
  show ?thesis
  proof (cases "isconnnection x")
    case True
    then show ?thesis
      using free_after_ok[OF ok x(1) True, of "ev (s_id x) (addr x)"] ev Some x(2) by (simp add: connected_event_def)
  next
    case False
    then show ?thesis
      using free_ok[OF ok] Some by (simp add: connected_event_def)
  qed
qed

lemma expire_tcp_ok:
  "\<lbrakk>tcp_ok \<phi> s; expire_tcp t s = (ev, s')\<rbrakk> \<Longrightarrow> tcp_ok (advance ev \<phi>) s'"
proof (induction t s arbitrary: \<phi> ev rule: expire_tcp.induct)
  case (1 t s)
  show ?case
  proof (cases "tcpTimeoutSet s")
    case Nil
    then show ?thesis
      using 1(2,3) by (simp add: expire_tcp.simps)
  next
    case (Cons it us)
    show ?thesis
    proof (cases "tv_sec t < tv_sec (to_time it)")
      case True
      then show ?thesis
        using 1(2,3) Cons by (simp add: expire_tcp.simps)
    next
      case False
      obtain ev1 where r: "expire_tcp t (freeTcpstream (to_tcp it) s) = (ev1, s')"
        "ev = connected_event TcpTimedOut (to_tcp it) s @ ev1"
        using 1(3) Cons False by (subst (asm) expire_tcp.simps) (auto split: prod.splits)
      have "tcp_ok (advance (connected_event TcpTimedOut (to_tcp it) s) \<phi>) (freeTcpstream (to_tcp it) s)"
        by (rule free_connected_ok[OF 1(2)]) simp_all
      from 1(1)[OF Cons False this r(1)] show ?thesis
        by (simp add: r(2))
    qed
  qed
qed

lemma expire_fin_ok:
  "\<lbrakk>tcp_ok \<phi> s; expire_fin t s = (ev, s')\<rbrakk> \<Longrightarrow> tcp_ok (advance ev \<phi>) s'"
proof (induction t s arbitrary: \<phi> ev rule: expire_fin.induct)
  case (1 t s)
  show ?case
  proof (cases "finTimeoutSet s")
    case Nil
    then show ?thesis
      using 1(2,3) by (simp add: expire_fin.simps)
  next
    case (Cons it us)
    show ?thesis
    proof (cases "tv_sec t < tv_sec (to_time it)")
      case True
      then show ?thesis
        using 1(2,3) Cons by (simp add: expire_fin.simps)
    next
      case False
      obtain ev1 where r: "expire_fin t (freeTcpstream (to_tcp it) s) = (ev1, s')"
        "ev = connected_event TcpClosed (to_tcp it) s @ ev1"
        using 1(3) Cons False by (subst (asm) expire_fin.simps) (auto split: prod.splits)
      have "tcp_ok (advance (connected_event TcpClosed (to_tcp it) s) \<phi>) (freeTcpstream (to_tcp it) s)"
        by (rule free_connected_ok[OF 1(2)]) simp_all
      from 1(1)[OF Cons False this r(1)] show ?thesis
        by (simp add: r(2))
    qed
  qed
qed

lemma checktimeouts_ok:
  "\<lbrakk>tcp_ok \<phi> s; tcpChecktimeouts t s = (ev, s')\<rbrakk> \<Longrightarrow> tcp_ok (advance ev \<phi>) s'"
  by (auto simp: tcpChecktimeouts_def split: prod.splits) (metis expire_tcp_ok expire_fin_ok)

section \<open>Every step keeps the invariant\<close>

lemma fold_freeTcpData_sel [simp]:
  "next_sid (fold freeTcpData is s) = next_sid s" "tcpStreamTableSize (fold freeTcpData is s) = tcpStreamTableSize s"
  "stream_key (fold freeTcpData is s) = stream_key s"
  by (induction "is" arbitrary: s) simp_all

lemma tcpExit_sel [simp]:
  "next_sid (tcpExit s) = next_sid s" "tcpStreamTableSize (tcpExit s) = tcpStreamTableSize s"
  "stream_key (tcpExit s) = stream_key s" "tcphashmap (tcpExit s) = []"
proof -
  have "stream_key (s1\<lparr>tcphashmap := h, finTimeoutSet := f, tcpTimeoutSet := g\<rparr>) = stream_key s1" for s1 h f g
    by (simp add: stream_key_def fun_eq_iff)
  then show "next_sid (tcpExit s) = next_sid s" "tcpStreamTableSize (tcpExit s) = tcpStreamTableSize s"
    "stream_key (tcpExit s) = stream_key s" "tcphashmap (tcpExit s) = []"
    by (auto simp: tcpExit_def)
qed

lemma advance_map:
  assumes "distinct (map s_id xs)" and "\<And>i a. event_id (ev i a) = i"
  shows "advance (map (\<lambda>x. ev (s_id x) (addr x)) xs) \<phi> i =
    (case find (\<lambda>x. s_id x = i) xs of None \<Rightarrow> \<phi> i | Some x \<Rightarrow> next_phase (ev i (addr x)) (\<phi> i))"
  using assms(1)
proof (induction xs arbitrary: \<phi>)
  case Nil
  then show ?case by simp
next
  case (Cons x xs)
  have "advance (map (\<lambda>x. ev (s_id x) (addr x)) (x # xs)) \<phi> =
      advance (map (\<lambda>x. ev (s_id x) (addr x)) xs) (advance [ev (s_id x) (addr x)] \<phi>)"
    using advance_simps(2)[of "[ev (s_id x) (addr x)]" "map (\<lambda>x. ev (s_id x) (addr x)) xs" \<phi>] by simp
  moreover have "find (\<lambda>x. s_id x = i) xs = None" if "s_id x = i"
    using Cons.prems that by (auto simp: find_None_iff) (metis image_eqI)
  ultimately show ?case
    using Cons assms(2) by (auto simp: advance_one split: option.split)
qed

lemma clearAllStream_ok:
  assumes ok: "tcp_ok \<phi> s" and eq: "clearAllStream s = (ev, s')"
  shows "tcp_ok (advance ev \<phi>) s'" and "tcphashmap s' = []" and "stream_key s' = stream_key s" and "next_sid s' = next_sid s"
    and "tcpStreamTableSize s' = tcpStreamTableSize s"
proof -
  have s': "s' = tcpExit s" and ev: "ev = map (\<lambda>x. TcpTimedOut (s_id x) (addr x)) (filter isconnnection (tcphashmap s))"
    using eq by (simp_all add: clearAllStream_def)
  show h: "tcphashmap s' = []" "stream_key s' = stream_key s" "next_sid s' = next_sid s"
    "tcpStreamTableSize s' = tcpStreamTableSize s"
    by (simp_all add: s')
  have d: "distinct (map s_id (filter isconnnection (tcphashmap s)))"
    using ok by (simp add: ok_defs distinct_map_filter)
  have adv: "advance ev \<phi> i = (case find (\<lambda>x. s_id x = i) (filter isconnnection (tcphashmap s)) of
      None \<Rightarrow> \<phi> i | Some x \<Rightarrow> if \<phi> i = Open then Done else Bad)" for i
    unfolding ev by (subst advance_map[OF d]) (auto split: option.split)
  have found: "\<phi> i = Open \<and> i < next_sid s" if "find (\<lambda>x. s_id x = i) (filter isconnnection (tcphashmap s)) = Some x" for i x
    using ok find_mem[OF that] by (auto simp: ok_defs)
  have "advance ev \<phi> i \<noteq> Bad \<and> (next_sid s \<le> i \<longrightarrow> advance ev \<phi> i = Fresh)" for i
    using ok found[of i] by (cases "find (\<lambda>x. s_id x = i) (filter isconnnection (tcphashmap s))")
      (auto simp: adv tcp_ok_def phases_ok_def)
  then have "phases_ok (advance ev \<phi>) s'"
    using h by (simp add: phases_ok_def)
  moreover have "timeouts_ok s'"
    using ok h(1) by (auto simp: s' tcpExit_def ok_defs)
  moreover have "table_ok s'"
    using ok h by (simp add: ok_defs)
  ultimately show "tcp_ok (advance ev \<phi>) s'"
    by (simp add: tcp_ok_def)
qed

lemma findStream_aux_Some:
  assumes "findStream_aux a s = Some x"
  shows "x \<in> set (tcphashmap s)" and "addr x = a"
  using assms by (auto simp: findStream_aux_def Let_def dest!: find_mem)

lemma findStream_aux_None:
  assumes "table_ok s" and "findStream_aux a s = None"
  shows "\<forall>x \<in> set (tcphashmap s). addr x \<noteq> a"
  using assms by (auto simp: findStream_aux_def Let_def find_None_iff table_ok_def)

lemma new_stream_sel [simp]:
  "s_id (new_stream hdr iph opts t s) = next_sid s" "addr (new_stream hdr iph opts t s) = seg_addr hdr iph"
  "hash_index (new_stream hdr iph opts t s) = stream_key s (seg_addr hdr iph)"
  "\<not> isconnnection (new_stream hdr iph opts t s)"
  by (simp_all add: new_stream_def Let_def split: prod.split)

lemma append_ok:
  assumes ok: "tcp_ok \<phi> s" and room: "length (tcphashmap s) < tcpStreamTableSize s"
    and new: "\<forall>x \<in> set (tcphashmap s). addr x \<noteq> addr z \<and> addr x \<noteq> t4_reversed (addr z)"
    and z: "s_id z = next_sid s" "hash_index z = stream_key s (addr z)" "\<not> isconnnection z"
  defines "s2 \<equiv> s\<lparr>tcphashmap := tcphashmap s @ [z], next_sid := next_sid s + 1\<rparr>"
  shows "tcp_ok \<phi> s2" and "findStream_aux (addr z) s2 = Some z" and "tcp_ok \<phi> (addTcptimeout (s_id z) t s2)"
proof -
  have key: "stream_key s2 = stream_key s"
    by (simp add: s2_def stream_key_def fun_eq_iff)
  have fresh: "next_sid s \<notin> s_id ` set (tcphashmap s)"
    using ok by (auto simp: ok_defs)
  have rev: "addr x = t4_reversed a \<longleftrightarrow> a = t4_reversed (addr x)" for x a
    by (metis t4_reversed_twice)
  have "addr y = t4_reversed (addr x) \<longrightarrow> y = x" if "x \<in> set (tcphashmap s2)" "y \<in> set (tcphashmap s2)" for x y
    using ok new rev[of x "addr y"] rev[of y "addr x"] that by (auto simp: s2_def ok_defs)
  then have tab: "table_ok s2"
    using ok room fresh new z key by (auto simp: s2_def ok_defs less_Suc_eq)
  have tmo: "timeouts_ok s2"
    using ok by (auto simp: s2_def ok_defs)
  have ph: "phases_ok \<phi> s2"
    using ok z by (auto simp: s2_def ok_defs)
  show "tcp_ok \<phi> s2"
    using tab tmo ph by (simp add: tcp_ok_def)
  show "findStream_aux (addr z) s2 = Some z"
    using z key by (simp add: findStream_aux_def s2_def)
  have "to_tcp ` set (tcpTimeoutSet s2) \<subseteq> s_id ` set (tcphashmap s)"
    using ok by (auto simp: s2_def ok_defs)
  then have "s_id z \<notin> to_tcp ` set (tcpTimeoutSet s2)" "s_id z \<in> s_id ` set (tcphashmap s2)"
    using fresh z(1) by (auto simp: s2_def)
  then have "timeouts_ok (addTcptimeout (s_id z) t s2)"
    by (intro timeouts_add[OF tmo])
  then show "tcp_ok \<phi> (addTcptimeout (s_id z) t s2)"
    using tab ph by (simp add: tcp_ok_def table_ok_def phases_ok_def)
qed

lemma addNewtcp_ok:
  assumes ok: "tcp_ok \<phi> s" and eq: "addNewtcp hdr iph opts t s = (ev, s')"
    and new: "\<forall>x \<in> set (tcphashmap s). addr x \<noteq> seg_addr hdr iph \<and> addr x \<noteq> t4_reversed (seg_addr hdr iph)"
  shows "tcp_ok (advance ev \<phi>) s'"
proof -
  define c where "c = (if length (tcphashmap s) \<ge> tcpStreamTableSize s then clearAllStream s else ([], s))"
  obtain ev1 s1 where c1: "c = (ev1, s1)" by fastforce
  have s1: "tcp_ok (advance ev1 \<phi>) s1" "length (tcphashmap s1) < tcpStreamTableSize s1"
    "\<forall>x \<in> set (tcphashmap s1). addr x \<noteq> seg_addr hdr iph \<and> addr x \<noteq> t4_reversed (seg_addr hdr iph)"
  proof (atomize (full), cases "length (tcphashmap s) \<ge> tcpStreamTableSize s")
    case True
    then have cl: "clearAllStream s = (ev1, s1)"
      using c1 by (simp add: c_def)
    have "0 < tcpStreamTableSize s"
      using ok by (simp add: tcp_ok_def table_ok_def)
    then show "tcp_ok (advance ev1 \<phi>) s1 \<and> length (tcphashmap s1) < tcpStreamTableSize s1 \<and>
      (\<forall>x \<in> set (tcphashmap s1). addr x \<noteq> seg_addr hdr iph \<and> addr x \<noteq> t4_reversed (seg_addr hdr iph))"
      using clearAllStream_ok[OF ok cl] by simp
  next
    case False
    then show "tcp_ok (advance ev1 \<phi>) s1 \<and> length (tcphashmap s1) < tcpStreamTableSize s1 \<and>
      (\<forall>x \<in> set (tcphashmap s1). addr x \<noteq> seg_addr hdr iph \<and> addr x \<noteq> t4_reversed (seg_addr hdr iph))"
      using c1 ok new by (simp add: c_def)
  qed
  let ?z = "new_stream hdr iph opts t s1"
  note a = append_ok(2)[OF s1(1,2), of ?z] append_ok(3)[OF s1(1,2), of ?z t]
  have "ev = ev1" "s' = addTcptimeout (s_id ?z) t (s1\<lparr>tcphashmap := tcphashmap s1 @ [?z], next_sid := next_sid s1 + 1\<rparr>)"
    using eq c1 a(1) s1(3) by (auto simp: addNewtcp_def c_def Let_def)
  then show ?thesis
    using a(2) s1(3) by simp
qed

text \<open>Updating a stream in place, with its events.\<close>

lemma put_stream_ok:
  assumes ok: "tcp_ok \<phi> s" and x: "x \<in> set (tcphashmap s)" "s_id x' = s_id x" "addr x' = addr x" "hash_index x' = hash_index x"
    and conn: "isconnnection x' \<longrightarrow> h_state (client x') \<noteq> TCP_SYN_SENT"
    and ev: "\<forall>e \<in> set ev. event_id e = s_id x" "advance ev \<phi> (s_id x) = (if isconnnection x' then Open else Fresh)"
  shows "tcp_ok (advance ev \<phi>) (put_stream x' s)"
proof -
  let ?f = "\<lambda>y. if s_id y = s_id x' then x' else y"
  have key: "stream_key (put_stream x' s) = stream_key s"
    by (simp add: put_stream_def stream_key_def fun_eq_iff)
  have d: "distinct (map s_id (tcphashmap s))" "distinct (map addr (tcphashmap s))"
    using ok by (simp_all add: ok_defs)
  have same: "y = x" if "y \<in> set (tcphashmap s)" "s_id y = s_id x" for y
    using d(1) x(1) that by (auto simp: distinct_map dest: inj_onD)
  have ids: "map s_id (map ?f (tcphashmap s)) = map s_id (tcphashmap s)"
    "map addr (map ?f (tcphashmap s)) = map addr (tcphashmap s)"
    using same x by (auto simp: fun_eq_iff)
  have mem: "y \<in> set (tcphashmap (put_stream x' s)) \<longleftrightarrow> y = x' \<or> y \<in> set (tcphashmap s) \<and> s_id y \<noteq> s_id x" for y
    using x(1,2) by (auto simp: put_stream_def)
  have old: "s_id y < next_sid s \<and> hash_index y = stream_key s (addr y) \<and> (isconnnection y \<longrightarrow> h_state (client y) \<noteq> TCP_SYN_SENT)"
    if "y \<in> set (tcphashmap s)" for y
    using ok that unfolding tcp_ok_def table_ok_def by blast
  have old_rev: "z = y" if "y \<in> set (tcphashmap s)" "z \<in> set (tcphashmap s)" "addr z = t4_reversed (addr y)" for y z
    using ok that unfolding tcp_ok_def table_ok_def by blast
  have tabl: "tcphashmap (put_stream x' s) = map ?f (tcphashmap s)"
    by (simp add: put_stream_def)
  have orig: "\<exists>y0 \<in> set (tcphashmap s). addr y0 = addr y \<and> (y0 = y \<or> y0 = x \<and> y = x')"
    if "y \<in> set (tcphashmap (put_stream x' s))" for y
    using that x(1,3) unfolding mem by auto
  have "addr z = t4_reversed (addr y) \<longrightarrow> z = y"
    if y: "y \<in> set (tcphashmap (put_stream x' s))" and z: "z \<in> set (tcphashmap (put_stream x' s))" for y z
  proof
    assume rev: "addr z = t4_reversed (addr y)"
    obtain y0 z0 where "y0 \<in> set (tcphashmap s)" "addr y0 = addr y" "y0 = y \<or> y0 = x \<and> y = x'"
      "z0 \<in> set (tcphashmap s)" "addr z0 = addr z" "z0 = z \<or> z0 = x \<and> z = x'"
      using orig[OF y] orig[OF z] by blast
    moreover from this have "z0 = y0"
      using old_rev[of y0 z0] rev by simp
    ultimately show "z = y"
      using y z x(2) unfolding mem by auto
  qed
  moreover have "s_id y < next_sid s \<and> hash_index y = stream_key s (addr y) \<and> (isconnnection y \<longrightarrow> h_state (client y) \<noteq> TCP_SYN_SENT)"
    if "y \<in> set (tcphashmap (put_stream x' s))" for y
    using that old[OF x(1)] old[of y] x(2-4) conn unfolding mem by auto
  moreover have "length (tcphashmap s) \<le> tcpStreamTableSize s \<and> 0 < tcpStreamTableSize s"
    using ok by (simp add: tcp_ok_def table_ok_def)
  moreover have "distinct (map s_id (tcphashmap (put_stream x' s)))" "distinct (map addr (tcphashmap (put_stream x' s)))"
    using d unfolding tabl ids by simp_all
  moreover have "length (tcphashmap (put_stream x' s)) = length (tcphashmap s)" "next_sid (put_stream x' s) = next_sid s"
    "tcpStreamTableSize (put_stream x' s) = tcpStreamTableSize s"
    by (simp_all add: put_stream_def)
  ultimately have "table_ok (put_stream x' s)"
    unfolding table_ok_def key by (metis (no_types, lifting))
  moreover have "s_id ` set (tcphashmap (put_stream x' s)) = s_id ` set (tcphashmap s)"
    using arg_cong[OF ids(1), of set] unfolding tabl set_map .
  then have "timeouts_ok (put_stream x' s)"
    using ok unfolding tcp_ok_def timeouts_ok_def by (simp add: put_stream_def)
  moreover have other: "advance ev \<phi> i = \<phi> i" if "i \<noteq> s_id x" for i
  proof -
    have "fold (\<lambda>e p. if event_id e = i then next_phase e p else p) es p = p" if "\<forall>e \<in> set es. event_id e = s_id x" for es p
      using that \<open>i \<noteq> s_id x\<close> by (induction es arbitrary: p) auto
    then show ?thesis
      using ev(1) by (simp add: advance_def)
  qed
  have "phases_ok (advance ev \<phi>) (put_stream x' s)"
    unfolding phases_ok_def
  proof (intro conjI allI ballI impI)
    show "advance ev \<phi> i \<noteq> Bad" for i
      using ok ev(2) other[of i] by (cases "i = s_id x") (auto simp: ok_defs)
    show "advance ev \<phi> i = Fresh" if "next_sid (put_stream x' s) \<le> i" for i
      using ok x(1) that other[of i] by (auto simp: ok_defs put_stream_def)
    show "advance ev \<phi> (s_id y) = (if isconnnection y then Open else Fresh)" if "y \<in> set (tcphashmap (put_stream x' s))" for y
      using ok that x(2) ev(2) other[of "s_id y"] unfolding mem by (auto simp: ok_defs)
  qed
  ultimately show ?thesis
    by (simp add: tcp_ok_def)
qed

text \<open>A stream is the only one of its connection, in either direction.\<close>

lemma unique_addr:
  assumes "tcp_ok \<phi> s" and "x \<in> set (tcphashmap s)" and "y \<in> set (tcphashmap s)"
    and "addr y = addr x \<or> addr y = t4_reversed (addr x)"
  shows "y = x"
  using assms by (auto simp: ok_defs distinct_map dest: inj_onD)

text \<open>Performing the actions of a stream.\<close>

lemma timeouts_only_ok:
  assumes "tcp_ok \<phi> s" and "timeouts_ok s'" and "tcphashmap s' = tcphashmap s" and "next_sid s' = next_sid s"
    and "stream_key s' = stream_key s" and "tcpStreamTableSize s' = tcpStreamTableSize s"
  shows "tcp_ok \<phi> s'"
  using assms by (simp add: tcp_ok_def table_ok_def phases_ok_def)

lemma perform_ok:
  "\<lbrakk>tcp_ok \<phi> s; a \<in> s_id ` set (tcphashmap s); perform a ad dir t acts s = (ev, s')\<rbrakk> \<Longrightarrow>
   tcp_ok \<phi> s' \<and> tcphashmap s' = tcphashmap s \<and> (\<forall>e \<in> set ev. \<exists>d. e = TcpData a ad d dir) \<and> (silent acts \<longrightarrow> ev = [])"
proof (induction a ad dir t acts s arbitrary: ev rule: perform.induct)
  case (2 a ad dir t d acts s)
  then show ?case by (auto split: prod.splits)
next
  case (3 a ad dir t acts s)
  have "tcp_ok \<phi> (updateTcptimeout a t s)"
    by (rule timeouts_only_ok[OF 3(2) timeouts_update(1)[OF _ 3(3)]]) (use 3(2) in \<open>simp_all add: tcp_ok_def\<close>)
  with 3 show ?case by simp
next
  case (4 a ad dir t acts s)
  have "tcp_ok \<phi> (addFintimeout a t s)"
    by (rule timeouts_only_ok[OF 4(2) timeouts_update(2)[OF _ 4(3)]]) (use 4(2) in \<open>simp_all add: tcp_ok_def\<close>)
  with 4 show ?case by simp
qed simp

lemma free_put: "s_id x = a \<Longrightarrow> freeTcpstream a (put_stream x s) = freeTcpstream a s"
proof -
  assume x: "s_id x = a"
  have f: "freeTcpstream a s1 = s1\<lparr>tcphashmap := filter (\<lambda>y. s_id y \<noteq> a) (tcphashmap s1),
      tcpTimeoutSet := filter (\<lambda>t. to_tcp t \<noteq> a) (tcpTimeoutSet s1),
      finTimeoutSet := filter (\<lambda>t. to_tcp t \<noteq> a) (finTimeoutSet s1)\<rparr>" for s1
  proof (rule TcpFragment.equality)
    show "tcphashmap (freeTcpstream a s1) = tcphashmap (s1\<lparr>tcphashmap := filter (\<lambda>y. s_id y \<noteq> a) (tcphashmap s1),
      tcpTimeoutSet := filter (\<lambda>t. to_tcp t \<noteq> a) (tcpTimeoutSet s1),
      finTimeoutSet := filter (\<lambda>t. to_tcp t \<noteq> a) (finTimeoutSet s1)\<rparr>)"
      by simp
  qed (auto simp: freeTcpstream_def freeTcpData_def Let_def put_stream_def delTcptimeout_def delFintimeout_def split: option.split)
  have "filter (\<lambda>y. s_id y \<noteq> a) (map (\<lambda>y. if s_id y = a then x else y) ys) = filter (\<lambda>y. s_id y \<noteq> a) ys" for ys
    using x by (induction ys) auto
  then show ?thesis
    unfolding f by (simp add: put_stream_def x)
qed

lemma with_halves_sel [simp]:
  "s_id (with_halves fc sn rc x) = s_id x" "addr (with_halves fc sn rc x) = addr x"
  "hash_index (with_halves fc sn rc x) = hash_index x" "isconnnection (with_halves fc sn rc x) = isconnnection x"
  "client (with_halves fc sn rc x) = (if fc then sn else rc)"
  by (simp_all add: with_halves_def)

text \<open>A stream whose update and events so far are consistent: what the rest of a step starts from.\<close>

definition pending :: "(nat \<Rightarrow> phase) \<Rightarrow> TcpFragment \<Rightarrow> TcpStream \<Rightarrow> tcp_event list \<Rightarrow> TcpStream \<Rightarrow> bool" where
  "pending \<phi> s x ev x' \<longleftrightarrow> tcp_ok \<phi> s \<and> x \<in> set (tcphashmap s) \<and> s_id x' = s_id x \<and> addr x' = addr x \<and>
     hash_index x' = hash_index x \<and> (isconnnection x' \<longrightarrow> h_state (client x') \<noteq> TCP_SYN_SENT) \<and>
     (\<forall>e \<in> set ev. event_id e = s_id x) \<and> advance ev \<phi> (s_id x) = (if isconnnection x' then Open else Fresh)"

lemma pending_put: "pending \<phi> s x ev x' \<Longrightarrow> tcp_ok (advance ev \<phi>) (put_stream x' s)"
  unfolding pending_def by (blast intro: put_stream_ok)

lemma pending_start: "\<lbrakk>tcp_ok \<phi> s; x \<in> set (tcphashmap s)\<rbrakk> \<Longrightarrow> pending \<phi> s x [] x"
  by (auto simp: pending_def tcp_ok_def table_ok_def phases_ok_def)

lemma put_mem: "x \<in> set (tcphashmap s) \<Longrightarrow> s_id x' = s_id x \<Longrightarrow> x' \<in> set (tcphashmap (put_stream x' s))"
  by (force simp: put_stream_def)

lemma pending_free:
  assumes p: "pending \<phi> s x ev x'" and e: "\<forall>i a. event_id (f i a) = i \<and> next_phase (f i a) Open = Done"
  shows "tcp_ok (advance (ev @ (if isconnnection x' then [f (s_id x') (addr x')] else [])) \<phi>) (freeTcpstream (s_id x') s)"
proof -
  have ok: "tcp_ok (advance ev \<phi>) (put_stream x' s)"
    by (rule pending_put[OF p])
  have "x \<in> set (tcphashmap s)" "s_id x' = s_id x"
    using p by (simp_all add: pending_def)
  then have x: "x' \<in> set (tcphashmap (put_stream x' s))"
    by (rule put_mem)
  have fr: "freeTcpstream (s_id x') (put_stream x' s) = freeTcpstream (s_id x') s"
    by (rule free_put) simp
  show ?thesis
    using free_after_ok[OF ok x, of "f (s_id x') (addr x')"] free_ok[OF ok, of "s_id x'"] e fr by simp
qed

lemma establish_pending:
  assumes "tcp_ok \<phi> s" and "x \<in> set (tcphashmap s)" and "establish hdr fc t x = (e, x')"
  shows "pending \<phi> s x e x'"
proof (cases "e = []")
  case True
  then have "x' = x"
    using assms(3) by (auto simp: establish_def split: if_splits)
  then show ?thesis
    using pending_start[OF assms(1,2)] True by simp
next
  case False
  then have e: "e = [TcpConnected (s_id x) (addr x)]" "h_state (client x) = TCP_SYN_SENT"
    "s_id x' = s_id x" "addr x' = addr x" "hash_index x' = hash_index x" "isconnnection x'"
    "h_state (client x') = TCP_ESTABLISHED"
    using assms(3) by (auto simp: establish_def split: if_splits)
  have "\<phi> (s_id x) = Fresh"
    using assms(1,2) e(2) by (auto simp: ok_defs)
  then show ?thesis
    using assms(1,2) e by (simp add: pending_def advance_one)
qed

lemma pending_ack:
  assumes "pending \<phi> s x ev x'" and "acknowledge hdr fc x' = (closed, x'')"
  shows "pending \<phi> s x ev x''"
  using assms by (auto simp: pending_def acknowledge_def Let_def handleAck_def snd_half_def rcv_half_def split: if_splits)

lemma data_phase: "\<lbrakk>\<forall>e \<in> set ev. \<exists>d. e = TcpData a ad d dir; \<phi> a = Open\<rbrakk> \<Longrightarrow> advance ev \<phi> a = Open"
proof (induction ev arbitrary: \<phi>)
  case (Cons e ev)
  obtain d where "e = TcpData a ad d dir"
    using Cons.prems by auto
  moreover have "advance (e # ev) \<phi> = advance ev (advance [e] \<phi>)"
    using advance_simps(2)[of "[e]" ev \<phi>] by simp
  ultimately show ?case
    using Cons by (simp add: advance_one)
qed simp

lemma take_data_ok:
  assumes p: "pending \<phi> s x ev x'" and eq: "take_data hdr fc data n k t x' s = (ev', s')"
  shows "tcp_ok (advance (ev @ ev') \<phi>) s'"
proof -
  obtain acts sn rc where q: "(if n + of_bool (has_flag (th_flags hdr) TH_FIN) > 0
             then tcpQueue (isconnnection x') hdr (snd_half fc x') (rcv_half fc x') data n k
             else ([], snd_half fc x', rcv_half fc x')) = (acts, sn, rc)"
    by (metis prod_cases3)
  have st: "halves_step (isconnnection x') (snd_half fc x') (rcv_half fc x') acts sn rc"
    using q by (auto intro: tcpQueue_step halves_step_refl split: if_splits)
  let ?x = "with_halves fc (sn\<lparr>h_window := th_win hdr\<rparr>) rc x'"
  obtain ev1 s1 where pf: "perform (s_id x') (addr x') (if fc then FROMCLIENT else FROMSERVER) t acts s = (ev1, s1)"
    by fastforce
  have ok: "tcp_ok \<phi> s" and mem: "x \<in> set (tcphashmap s)" "s_id x' = s_id x"
    using p by (auto simp: pending_def)
  have "s_id x' \<in> s_id ` set (tcphashmap s)"
    using mem by simp
  note s1 = perform_ok[OF ok this pf]
  have res: "ev' = ev1" "s' = (if h_rmem_alloc rc > 65535 then freeTcpstream (s_id x') (put_stream ?x s1) else put_stream ?x s1)"
    using eq q pf by (auto simp: take_data_def Let_def)
  have conn: "isconnnection x' \<longrightarrow> h_state (client ?x) \<noteq> TCP_SYN_SENT"
    using st p by (auto simp: halves_step_def pending_def snd_half_def rcv_half_def split: if_splits)
  have "advance (ev @ ev1) \<phi> (s_id x) = (if isconnnection ?x then Open else Fresh)"
  proof (cases "isconnnection x'")
    case True
    then show ?thesis
      using s1 p data_phase[of ev1 "s_id x" "addr x'" _ "advance ev \<phi>"] mem(2) by (auto simp: pending_def)
  next
    case False
    then have "ev1 = []"
      using s1 st by (simp add: halves_step_def)
    then show ?thesis
      using False p by (simp add: pending_def)
  qed
  moreover have "\<forall>e \<in> set (ev @ ev1). event_id e = s_id x"
    using s1 p mem(2) by (auto simp: pending_def)
  ultimately have "pending \<phi> s1 x (ev @ ev1) ?x"
    using s1 p conn by (simp add: pending_def)
  note ok' = pending_put[OF this]
  show ?thesis
    using ok' free_ok[OF ok'] res by simp
qed

lemma syn_ack_sel:
  "s_id (syn_ack hdr opts t x) = s_id x \<and> addr (syn_ack hdr opts t x) = addr x \<and>
   hash_index (syn_ack hdr opts t x) = hash_index x \<and> isconnnection (syn_ack hdr opts t x) = isconnnection x \<and>
   h_state (client (syn_ack hdr opts t x)) = h_state (client x)"
  by (auto simp: syn_ack_def Let_def split: prod.split)

lemma known_segment_ok:
  assumes ok: "tcp_ok \<phi> s" and x: "x \<in> set (tcphashmap s)"
    and addr: "addr x = (if fc then seg_addr hdr iph else t4_reversed (seg_addr hdr iph))"
    and eq: "known_segment hdr iph opts fc data n k t x s = (ev, s')"
  shows "tcp_ok (advance ev \<phi>) s'"
proof -
  note start = pending_start[OF ok x]
  show ?thesis
  proof (cases "has_flag (th_flags hdr) TH_SYN")
    case True
    show ?thesis
    proof (cases "fc \<and> s_ts x + 1800 < tv_sec t \<and> \<not> has_flag (th_flags hdr) TH_ACK \<and> \<not> has_flag (th_flags hdr) TH_RST")
      case c: True
      have "\<forall>y \<in> set (tcphashmap (freeTcpstream (s_id x) s)). addr y \<noteq> seg_addr hdr iph \<and> addr y \<noteq> t4_reversed (seg_addr hdr iph)"
      proof
        fix y assume "y \<in> set (tcphashmap (freeTcpstream (s_id x) s))"
        then have y: "y \<in> set (tcphashmap s)" "y \<noteq> x"
          by auto
        then have "addr y \<noteq> addr x" "addr y \<noteq> t4_reversed (addr x)"
          using unique_addr[OF ok x] by blast+
        with addr c show "addr y \<noteq> seg_addr hdr iph \<and> addr y \<noteq> t4_reversed (seg_addr hdr iph)"
          by simp
      qed
      from addNewtcp_ok[OF free_ok[OF ok] _ this] show ?thesis
        using eq True c by (simp add: known_segment_def)
    next
      case False
      have "pending \<phi> s x [] (syn_ack hdr opts t x)"
        using start syn_ack_sel[of hdr opts t x] by (simp add: pending_def)
      from pending_put[OF this] have "tcp_ok \<phi> (put_stream (syn_ack hdr opts t x) s)"
        by simp
      moreover have "ev = [] \<and> (s' = s \<or> s' = put_stream (syn_ack hdr opts t x) s)"
        using eq True False by (cases fc) (auto simp: known_segment_def)
      ultimately show ?thesis
        using ok by auto
    qed
  next
    case nosyn: False
    show ?thesis
    proof (cases "outside_window hdr n (rcv_half fc x)")
      case True
      then show ?thesis
        using eq nosyn ok by (simp add: known_segment_def)
    next
      case inside: False
      show ?thesis
      proof (cases "has_flag (th_flags hdr) TH_RST")
        case True
        show ?thesis
        proof -
          have "ev = [] @ (if isconnnection x then [TcpRst (s_id x) (addr x)] else [])" "s' = freeTcpstream (s_id x) s"
            using eq nosyn inside True by (simp_all add: known_segment_def)
          moreover have "tcp_ok (advance ([] @ (if isconnnection x then [TcpRst (s_id x) (addr x)] else [])) \<phi>)
              (freeTcpstream (s_id x) s)"
            by (rule pending_free[OF start]) simp
          ultimately show ?thesis by simp
        qed
      next
        case norst: False
        obtain e1 x1 where e: "establish hdr fc t x = (e1, x1)" by fastforce
        obtain closed x2 where a: "acknowledge hdr fc x1 = (closed, x2)" by fastforce
        have p: "pending \<phi> s x e1 x2"
          by (rule pending_ack[OF establish_pending[OF ok x e] a])
        obtain e2 s2 where d: "take_data hdr fc data n k t x2 s = (e2, s2)" by fastforce
        have res: "(ev, s') = (if closed
            then (e1 @ (if isconnnection x2 then [TcpClosed (s_id x2) (addr x2)] else []), freeTcpstream (s_id x2) s)
            else (e1 @ e2, s2))"
          unfolding eq[symmetric] known_segment_def using nosyn inside norst e a d by simp
        show ?thesis
        proof (cases closed)
          case True
          have "tcp_ok (advance (e1 @ (if isconnnection x2 then [TcpClosed (s_id x2) (addr x2)] else [])) \<phi>)
              (freeTcpstream (s_id x2) s)"
            by (rule pending_free[OF p]) simp
          with res True show ?thesis by simp
        next
          case False
          with res take_data_ok[OF p d] show ?thesis by simp
        qed
      qed
    qed
  qed
qed

lemma findStream_None:
  assumes "table_ok s" and "findStream hdr iph s = None"
  shows "\<forall>x \<in> set (tcphashmap s). addr x \<noteq> seg_addr hdr iph \<and> addr x \<noteq> t4_reversed (seg_addr hdr iph)"
  using assms findStream_aux_None by (auto simp: findStream_def split: option.splits)

lemma findStream_Some:
  assumes "findStream hdr iph s = Some (x, fc)"
  shows "x \<in> set (tcphashmap s)" and "addr x = (if fc then seg_addr hdr iph else t4_reversed (seg_addr hdr iph))"
  using assms findStream_aux_Some by (auto simp: findStream_def split: option.splits)

lemma reopen_ok:
  assumes ok: "tcp_ok \<phi> s" and x: "x \<in> set (tcphashmap s)"
    and addr: "addr x = (if fc then seg_addr hdr iph else t4_reversed (seg_addr hdr iph))"
    and eq: "addNewtcp hdr iph opts t (freeTcpstream (s_id x) s) = (ev, s')"
  shows "tcp_ok (advance ev \<phi>) s'"
proof -
  have "\<forall>y \<in> set (tcphashmap (freeTcpstream (s_id x) s)). addr y \<noteq> seg_addr hdr iph \<and> addr y \<noteq> t4_reversed (seg_addr hdr iph)"
  proof
    fix y assume "y \<in> set (tcphashmap (freeTcpstream (s_id x) s))"
    then have y: "y \<in> set (tcphashmap s)" "y \<noteq> x"
      by auto
    then have "addr y \<noteq> addr x" "addr y \<noteq> t4_reversed (addr x)"
      using unique_addr[OF ok x] by blast+
    with addr show "addr y \<noteq> seg_addr hdr iph \<and> addr y \<noteq> t4_reversed (seg_addr hdr iph)"
      by (cases fc) auto
  qed
  from addNewtcp_ok[OF free_ok[OF ok] eq this] show ?thesis .
qed

lemma processTcp_ok:
  assumes ok: "tcp_ok \<phi> s0" and eq: "processTcp data k t s0 = (ev, s')"
  shows "tcp_ok (advance ev \<phi>) s'"
proof -
  obtain e0 s where c: "tcpChecktimeouts t s0 = (e0, s)" by fastforce
  have s: "tcp_ok (advance e0 \<phi>) s"
    by (rule checktimeouts_ok[OF ok c])
  consider "ev = e0" "s' = s" | hdr iph e where "findStream hdr iph s = None"
      "addNewtcp hdr iph (drop (4 * ip_hl iph + 20) data) t s = (e, s')" "ev = e0 @ e"
    | hdr iph x fc e where "findStream hdr iph s = Some (x, fc)"
      "addNewtcp hdr iph (drop (4 * ip_hl iph + 20) data) t (freeTcpstream (s_id x) s) = (e, s')" "ev = e0 @ e"
    | hdr iph x fc payload n e where "findStream hdr iph s = Some (x, fc)"
      "known_segment hdr iph (drop (4 * ip_hl iph + 20) data) fc payload n k t x s = (e, s')" "ev = e0 @ e"
    using eq c unfolding processTcp_def Let_def
    by (auto split: option.splits if_splits prod.splits)
  then show ?thesis
  proof cases
    case 1
    with s show ?thesis by simp
  next
    case 2
    have "table_ok s"
      using s by (simp add: tcp_ok_def)
    from addNewtcp_ok[OF s 2(2) findStream_None[OF this 2(1)]] 2(3) show ?thesis by simp
  next
    case 3
    from reopen_ok[OF s findStream_Some[OF 3(1)] 3(2)] 3(3) show ?thesis by simp
  next
    case 4
    from known_segment_ok[OF s findStream_Some[OF 4(1)] 4(2)] 4(3) show ?thesis by simp
  qed
qed

section \<open>Runs\<close>

fun tcp_run :: "(bytes \<times> int \<times> timeval) list \<Rightarrow> TcpFragment \<Rightarrow> tcp_event list \<times> TcpFragment" where
  "tcp_run [] s = ([], s)"
| "tcp_run ((data, skblen, t) # ps) s =
     (let (e, s1) = processTcp data skblen t s; (es, s2) = tcp_run ps s1 in (e @ es, s2))"

lemma tcp_run_ok: "tcp_ok \<phi> s \<Longrightarrow> tcp_ok (advance (fst (tcp_run ps s)) \<phi>) (snd (tcp_run ps s))"
proof (induction ps s arbitrary: \<phi> rule: tcp_run.induct)
  case (2 data k t ps s)
  obtain e s1 where p: "processTcp data k t s = (e, s1)" by fastforce
  from 2(1)[OF p[symmetric] refl processTcp_ok[OF 2(2) p]] show ?case
    using p by (simp add: split_beta)
qed simp

lemma init_ok: "tcp_ok (\<lambda>_. Fresh) (TcpFragment_init xors perm junk)"
  by (simp add: ok_defs TcpFragment_init_def tcpInit_def)

section \<open>Properties of the TCP engine\<close>

text \<open>
  C4: Callback protocol. For every packet sequence whatsoever, the callbacks a stream object
  causes are: at most one connection callback, then data callbacks, then at most one of the
  close, reset and timeout callbacks, and nothing for the object after that.
\<close>

theorem tcp_callback_protocol:
  "advance (fst (tcp_run ps (TcpFragment_init xors perm junk))) (\<lambda>_. Fresh) i \<noteq> Bad"
  using tcp_run_ok[OF init_ok, of ps xors perm junk] by (simp add: tcp_ok_def phases_ok_def)

text \<open>
  C20: Table consistency. After every packet sequence both timeout sets only refer to streams
  that are in the table (no callback or free through a dangling pointer), no connection has
  two streams in either direction, and the table never exceeds its capacity.
\<close>

theorem tcp_table_consistent:
  "let s = snd (tcp_run ps (TcpFragment_init xors perm junk))
   in to_tcp ` set (tcpTimeoutSet s) \<subseteq> s_id ` set (tcphashmap s) \<and>
      to_tcp ` set (finTimeoutSet s) \<subseteq> s_id ` set (tcphashmap s) \<and>
      distinct (map addr (tcphashmap s)) \<and>
      \<not> (\<exists>x \<in> set (tcphashmap s). \<exists>y \<in> set (tcphashmap s). x \<noteq> y \<and> addr y = t4_reversed (addr x)) \<and>
      length (tcphashmap s) \<le> tcpStreamTableSize s"
  using tcp_run_ok[OF init_ok, of ps xors perm junk] by (auto simp: ok_defs Let_def)

text \<open>
  The timeout set identifies entries by their second: when another stream already has an
  entry for the second at which a stream would expire, restarting that stream's timeout leaves
  it with none.
\<close>

theorem tcp_timeout_lost:
  assumes "sorted_wrt (<) (tcpTimeoutSet s)" and "u \<in> set (tcpTimeoutSet s)" and "to_tcp u \<noteq> a"
    and "tv_sec (to_time u) = tv_sec t + 30"
  shows "a \<notin> to_tcp ` set (tcpTimeoutSet (updateTcptimeout a t s))"
proof -
  let ?us = "filter (\<lambda>v. to_tcp v \<noteq> a) (tcpTimeoutSet s)"
  have "set_insert (Timeout a (later_by 30 t)) ?us = ?us"
    by (rule set_insert_full[of _ u]) (use assms in \<open>auto simp: sorted_wrt_filter later_by_def\<close>)
  then show ?thesis
    by (auto simp: updateTcptimeout_def addTcptimeout_def delTcptimeout_def)
qed

definition sample_timeouts :: TcpFragment where
  "sample_timeouts = addTcptimeout 0 \<lparr>tv_sec = 10, tv_usec = 0\<rparr>
     (TcpFragment_init [] [] (\<lambda>_. (sample_half, sample_half)))"

lemma tcp_timeout_lost_witness:
  "1 \<notin> to_tcp ` set (tcpTimeoutSet (updateTcptimeout 1 \<lparr>tv_sec = 10, tv_usec = 500\<rparr> sample_timeouts))"
  by (rule tcp_timeout_lost[where u = "Timeout 0 \<lparr>tv_sec = 40, tv_usec = 0\<rparr>"])
    (simp_all add: sample_timeouts_def TcpFragment_init_def tcpInit_def addTcptimeout_def later_by_def)

text \<open>
  The option scan ends and stays inside the TCP header: with the options the data offset
  announces in the buffer, \<open>getWscale\<close> never reads outside them, for any option bytes.
\<close>

theorem getWscale_in_bounds:
  assumes "4 * int doff - 20 \<le> int (length opts)"
  shows "\<exists>on ws. getWscale opts doff = Some (on, ws)"
  using wscale_loop_safe[OF assms, of 0 "(False, 1)"] by (auto simp: getWscale_def)

lemma getWscale_in_bounds_witness: "\<exists>on ws. getWscale [1, 3, 3, 7] 6 = Some (on, ws)"
  by (rule getWscale_in_bounds) simp

end
