(* ===== verification/Http_App.thy ===== *)
theory Http_App
  imports Http_Client Tcp_Fragment
begin

text \<open>
  \<open>app/http/Http.cc\<close>: the handler that feeds the data of TCP connections to port 80 to a parser
  per direction and reports every message whose headers are complete. The TCP engine calls it
  through \<open>http_event\<close>.

  The pointers \<open>currentHttpRequest\<close> and \<open>currentHttpResponse\<close> are the two records of the
  connection at hand. A failed assertion and \<open>LOG_FATAL\<close> end the process: \<open>aborted\<close> inside a
  callback, \<open>None\<close> outside. The byte counts are bounded by the size of the headers.
\<close>

section \<open>Messages\<close>

record HttpRequest =
  hq_t4 :: tuple4
  hq_method :: string
  hq_url :: bytes
  hq_headers :: "bytes \<rightharpoonup> bytes"
  hq_bytes :: int
  hq_currentHeaderField :: bytes
  hq_timeStamp :: timeval

record HttpResponse =
  hs_t4 :: tuple4
  hs_status :: bytes
  hs_statusCode :: int
  hs_headers :: "bytes \<rightharpoonup> bytes"
  hs_bytes :: int
  hs_currentHeaderField :: bytes
  hs_timeStamp :: timeval

definition HttpRequest_init :: "tuple4 \<Rightarrow> timeval \<Rightarrow> HttpRequest" where
  "HttpRequest_init t4 timeStamp = \<lparr>hq_t4 = t4, hq_method = '''', hq_url = [], hq_headers = Map.empty, hq_bytes = 0,
     hq_currentHeaderField = [], hq_timeStamp = timeStamp\<rparr>"

text \<open>The constructor leaves \<open>statusCode\<close> as the memory was: \<open>junk\<close>.\<close>

definition HttpResponse_init :: "int \<Rightarrow> tuple4 \<Rightarrow> timeval \<Rightarrow> HttpResponse" where
  "HttpResponse_init junk t4 timeStamp = \<lparr>hs_t4 = t4, hs_status = [], hs_statusCode = junk, hs_headers = Map.empty, hs_bytes = 0,
     hs_currentHeaderField = [], hs_timeStamp = timeStamp\<rparr>"

subsection \<open>Text\<close>

definition getVaule :: "(bytes \<rightharpoonup> bytes) \<Rightarrow> string \<Rightarrow> bytes" where
  "getVaule mp key = (case mp (bytes_of key) of Some v \<Rightarrow> v | None \<Rightarrow> [])"

definition text_of :: "bytes \<Rightarrow> string" where
  "text_of = map (\<lambda>b. char_of (unat b))"

text \<open>
  The columns that both messages begin with; \<open>toIp\<close> is that of muduo's \<open>InetAddress\<close>. The
  address of the destination is taken from \<open>srcAddr\<close>.
\<close>

definition onHttpCommon :: "(u32 \<Rightarrow> string) \<Rightarrow> timeval \<Rightarrow> int \<Rightarrow> tuple4 \<Rightarrow> string list" where
  "onHttpCommon toIp timeStamp n t4 = [dec_int (tv_sec timeStamp), dec_int n, toIp (saddr t4), dec_nat (unat (source t4)),
     toIp (saddr t4), dec_nat (unat (dest t4))]"

definition http_request_to_string :: "(u32 \<Rightarrow> string) \<Rightarrow> HttpRequest \<Rightarrow> string" where
  "http_request_to_string toIp r = tab_join (onHttpCommon toIp (hq_timeStamp r) (hq_bytes r) (hq_t4 r) @
     [hq_method r, text_of (getVaule (hq_headers r) ''host''), text_of (getVaule (hq_headers r) ''referer''),
      text_of (getVaule (hq_headers r) ''user-agent'')])"

definition http_response_to_string :: "(u32 \<Rightarrow> string) \<Rightarrow> HttpResponse \<Rightarrow> string" where
  "http_response_to_string toIp r = tab_join (onHttpCommon toIp (hs_timeStamp r) (hs_bytes r) (hs_t4 r) @
     [dec_int (hs_statusCode r), text_of (getVaule (hs_headers r) ''content-type'')])"

section \<open>Callbacks of the parser\<close>

datatype http_output = RequestReport HttpRequest | ResponseReport HttpResponse | Logged string

record http_app =
  currentHttpRequest :: HttpRequest
  currentHttpResponse :: HttpResponse
  outputs :: "http_output list"
  aborted :: bool

definition on_request :: "(HttpRequest \<Rightarrow> HttpRequest) \<Rightarrow> http_app \<Rightarrow> http_app" where
  "on_request f a = a\<lparr>currentHttpRequest := f (currentHttpRequest a)\<rparr>"

definition on_response :: "(HttpResponse \<Rightarrow> HttpResponse) \<Rightarrow> http_app \<Rightarrow> http_app" where
  "on_response f a = a\<lparr>currentHttpResponse := f (currentHttpResponse a)\<rparr>"

definition abort_app :: "http_app \<Rightarrow> http_app" where
  "abort_app a = a\<lparr>aborted := True\<rparr>"

definition emit :: "http_output \<Rightarrow> http_app \<Rightarrow> http_app" where
  "emit e a = a\<lparr>outputs := outputs a @ [e]\<rparr>"

definition tolower :: "u8 \<Rightarrow> u8" where
  "tolower c = (if byte_of CHR ''A'' \<le> c \<and> c \<le> byte_of CHR ''Z'' then c + 32 else c)"

definition onHeaderFiled :: "http_app http_data_cb" where
  "onHeaderFiled parser data a =
     (case p_type parser of
        HTTP_REQUEST \<Rightarrow> (0, on_request (\<lambda>r. r\<lparr>hq_currentHeaderField := map tolower data, hq_bytes := hq_bytes r + int (length data)\<rparr>) a)
      | HTTP_RESPONSE \<Rightarrow> (0, on_response (\<lambda>r. r\<lparr>hs_currentHeaderField := map tolower data, hs_bytes := hs_bytes r + int (length data)\<rparr>) a)
      | HTTP_BOTH \<Rightarrow> (0, abort_app a))"

definition onHeaderValue :: "http_app http_data_cb" where
  "onHeaderValue parser data a =
     (case p_type parser of
        HTTP_REQUEST \<Rightarrow>
          (let headerField = hq_currentHeaderField (currentHttpRequest a)
           in if headerField = [] then (1, emit (Logged ''HTTP: onHeaderValue, no field before'') a)
              else (0, on_request (\<lambda>r. r\<lparr>hq_headers := (hq_headers r)(headerField \<mapsto> data), hq_bytes := hq_bytes r + int (length data)\<rparr>) a))
      | HTTP_RESPONSE \<Rightarrow>
          (let headerField = hs_currentHeaderField (currentHttpResponse a)
           in if headerField = [] then (1, emit (Logged ''HTTP: onHeaderValue, no field before'') a)
              else (0, on_response (\<lambda>r. r\<lparr>hs_headers := (hs_headers r)(headerField \<mapsto> data), hs_bytes := hs_bytes r + int (length data)\<rparr>) a))
      | HTTP_BOTH \<Rightarrow> (0, abort_app a))"

definition onUrl :: "http_app http_data_cb" where
  "onUrl parser data a =
     (if p_type parser \<noteq> HTTP_REQUEST then (0, abort_app a)
      else (0, on_request (\<lambda>r. r\<lparr>hq_url := data, hq_bytes := hq_bytes r + int (length data)\<rparr>) a))"

definition onStatus :: "http_app http_data_cb" where
  "onStatus parser data a =
     (if p_type parser \<noteq> HTTP_RESPONSE then (0, abort_app a)
      else (0, on_response (\<lambda>r. r\<lparr>hs_statusCode := uint (status_code parser), hs_status := data,
                                  hs_bytes := hs_bytes r + int (length data)\<rparr>) a))"

definition onHeadersComplete :: "http_app http_cb" where
  "onHeadersComplete parser a =
     (case p_type parser of
        HTTP_REQUEST \<Rightarrow>
          (let a = on_request (\<lambda>r. r\<lparr>hq_method := http_method_str (p_method parser)\<rparr>) a;
               a = emit (RequestReport (currentHttpRequest a)) a
           in (0, on_request (\<lambda>r. r\<lparr>hq_headers := Map.empty, hq_bytes := 0\<rparr>) a))
      | HTTP_RESPONSE \<Rightarrow>
          (let a = emit (ResponseReport (currentHttpResponse a)) a
           in (0, on_response (\<lambda>r. r\<lparr>hs_headers := Map.empty, hs_bytes := 0\<rparr>) a))
      | HTTP_BOTH \<Rightarrow> (0, abort_app a))"

definition settings :: "http_app http_parser_settings" where
  "settings = \<lparr>on_message_begin = None, on_url = Some onUrl, on_status = Some onStatus, on_header_field = Some onHeaderFiled,
     on_header_value = Some onHeaderValue, on_headers_complete = Some onHeadersComplete, on_body = None,
     on_message_complete = None, on_chunk_header = None, on_chunk_complete = None\<rparr>"

section \<open>Connections\<close>

record HttpDetail =
  requestData :: HttpRequest
  responseData :: HttpResponse
  requestParser :: HttpParser
  responseParser :: HttpParser

definition HttpDetail_init :: "int \<Rightarrow> tuple4 \<Rightarrow> timeval \<Rightarrow> HttpDetail" where
  "HttpDetail_init junk t4 timeStamp = \<lparr>requestData = HttpRequest_init t4 timeStamp, responseData = HttpResponse_init junk t4 timeStamp,
     requestParser = http_parser_init HTTP_REQUEST, responseParser = http_parser_init HTTP_RESPONSE\<rparr>"

text \<open>\<open>memory\<close> is what the uninitialised status code of a new connection holds.\<close>

record Http =
  http_table :: "tuple4 \<rightharpoonup> HttpDetail"
  memory :: "tuple4 \<Rightarrow> int"

definition Http_init :: "(tuple4 \<Rightarrow> int) \<Rightarrow> Http" where
  "Http_init junk = \<lparr>http_table = Map.empty, memory = junk\<rparr>"

type_synonym http_result = "(http_output list \<times> Http) option"

definition onTcpConnection :: "tuple4 \<Rightarrow> timeval \<Rightarrow> Http \<Rightarrow> http_result" where
  "onTcpConnection t4 timeStamp h =
     (if dest t4 \<noteq> 80 then Some ([], h)
      else if http_table h t4 \<noteq> None then None
      else Some ([], h\<lparr>http_table := (http_table h)(t4 \<mapsto> HttpDetail_init (memory h t4) t4 timeStamp)\<rparr>))"

definition app_of :: "HttpDetail \<Rightarrow> http_app" where
  "app_of d = \<lparr>currentHttpRequest = requestData d, currentHttpResponse = responseData d, outputs = [], aborted = False\<rparr>"

text \<open>The call of a parser, with the function that puts it back.\<close>

definition run_parser :: "bytes \<Rightarrow> HttpParser \<Rightarrow> (HttpParser \<Rightarrow> HttpDetail \<Rightarrow> HttpDetail) \<Rightarrow> tuple4 \<Rightarrow> HttpDetail \<Rightarrow> Http \<Rightarrow> http_result" where
  "run_parser data parser put t4 d h =
     (case http_parser_execute settings data parser (app_of d) of
        None \<Rightarrow> None
      | Some (n, parser', a) \<Rightarrow>
          if aborted a then None
          else Some (outputs a, h\<lparr>http_table := (http_table h)(t4 \<mapsto>
            put parser' (d\<lparr>requestData := currentHttpRequest a, responseData := currentHttpResponse a\<rparr>))\<rparr>))"

definition http_onTcpData :: "tuple4 \<Rightarrow> bytes \<Rightarrow> int \<Rightarrow> Http \<Rightarrow> http_result" where
  "http_onTcpData t4 data flag h =
     (if dest t4 \<noteq> 80 then Some ([], h)
      else case http_table h t4 of None \<Rightarrow> Some ([Logged ''HTTP: TCP data without connection''], h)
      | Some d \<Rightarrow>
          if flag = FROMCLIENT then run_parser data (requestParser d) (\<lambda>p d. d\<lparr>requestParser := p\<rparr>) t4 d h
          else if flag = FROMSERVER then run_parser data (responseParser d) (\<lambda>p d. d\<lparr>responseParser := p\<rparr>) t4 d h
          else None)"

definition http_erase :: "tuple4 \<Rightarrow> Http \<Rightarrow> Http" where
  "http_erase t4 h = h\<lparr>http_table := (http_table h)(t4 := None)\<rparr>"

definition onTcpClose :: "tuple4 \<Rightarrow> Http \<Rightarrow> http_result" where
  "onTcpClose t4 h =
     (if dest t4 \<noteq> 80 then Some ([], h)
      else Some (if http_table h t4 = None then [Logged ''HTTP: TCP close without connection''] else [], http_erase t4 h))"

definition onTcpRst :: "tuple4 \<Rightarrow> Http \<Rightarrow> http_result" where
  "onTcpRst t4 h = (if dest t4 \<noteq> 80 then Some ([], h) else Some ([], http_erase t4 h))"

definition onTcpTimeout :: "tuple4 \<Rightarrow> Http \<Rightarrow> http_result" where
  "onTcpTimeout t4 h =
     (if dest t4 \<noteq> 80 then Some ([], h)
      else Some (if http_table h t4 = None then [Logged ''HTTP: TCP timeout without connection''] else [], http_erase t4 h))"

text \<open>The callbacks of the TCP engine as \<open>noff.cc\<close> registers them (\<open>setHttpInThread\<close>).\<close>

fun http_event :: "timeval \<Rightarrow> tcp_event \<Rightarrow> Http \<Rightarrow> http_result" where
  "http_event t (TcpConnected i t4) h = onTcpConnection t4 t h"
| "http_event t (TcpData i t4 data flag) h = http_onTcpData t4 data flag h"
| "http_event t (TcpClosed i t4) h = onTcpClose t4 h"
| "http_event t (TcpRst i t4) h = onTcpRst t4 h"
| "http_event t (TcpTimedOut i t4) h = onTcpTimeout t4 h"

fun http_run :: "(timeval \<times> tcp_event) list \<Rightarrow> Http \<Rightarrow> http_result" where
  "http_run [] h = Some ([], h)"
| "http_run ((t, e) # es) h =
     (case http_event t e h of None \<Rightarrow> None
      | Some (out, h') \<Rightarrow> map_option (\<lambda>(out', h''). (out @ out', h'')) (http_run es h'))"

section \<open>No assertion but one\<close>

lemmas app_defs = on_request_def on_response_def abort_app_def emit_def onHeaderFiled_def onHeaderValue_def onUrl_def onStatus_def
  onHeadersComplete_def Let_def

interpretation request_side: parser_client settings HTTP_REQUEST "\<lambda>a. \<not> aborted a \<and> currentHttpResponse a = r" for r
proof
  fix f g d and p :: HttpParser and a :: http_app
  assume "data_cb f settings = Some g" "field_type HTTP_REQUEST f" "same_type (p_type p) HTTP_REQUEST" "\<not> aborted a \<and> currentHttpResponse a = r"
  then show "\<not> aborted (snd (g p d a)) \<and> currentHttpResponse (snd (g p d a)) = r"
    by (cases f) (auto simp: settings_def app_defs same_type_def field_type_def is_response_def)
qed (auto simp: settings_def notify_keeps_def app_defs same_type_def is_request_def)

interpretation response_side: parser_client settings HTTP_RESPONSE "\<lambda>a. \<not> aborted a \<and> currentHttpRequest a = r" for r
proof
  fix f g d and p :: HttpParser and a :: http_app
  assume "data_cb f settings = Some g" "field_type HTTP_RESPONSE f" "same_type (p_type p) HTTP_RESPONSE" "\<not> aborted a \<and> currentHttpRequest a = r"
  then show "\<not> aborted (snd (g p d a)) \<and> currentHttpRequest (snd (g p d a)) = r"
    by (cases f) (auto simp: settings_def app_defs same_type_def field_type_def is_request_def)
qed (auto simp: settings_def notify_keeps_def app_defs same_type_def is_response_def)

definition parser_ok :: "http_parser_type \<Rightarrow> HttpParser \<Rightarrow> bool" where
  "parser_ok t p \<longleftrightarrow> typed t p \<and> (http_errno p = HPE_OK \<longrightarrow> wf 0 p)"

definition detail_ok :: "HttpDetail \<Rightarrow> bool" where
  "detail_ok d \<longleftrightarrow> parser_ok HTTP_REQUEST (requestParser d) \<and> parser_ok HTTP_RESPONSE (responseParser d)"

definition http_table_ok :: "Http \<Rightarrow> bool" where
  "http_table_ok h \<longleftrightarrow> (\<forall>t4 d. http_table h t4 = Some d \<longrightarrow> detail_ok d)"

lemma detail_init_ok: "detail_ok (HttpDetail_init junk t4 t)"
  by (simp add: detail_ok_def parser_ok_def HttpDetail_init_def typed_def same_type_def state_of_type_def http_parser_init_wf)
    (simp add: http_parser_init_def is_request_def is_response_def)

lemma request_data_ok:
  assumes "detail_ok d"
  shows "\<exists>out h'. run_parser data (requestParser d) (\<lambda>p d. d\<lparr>requestParser := p\<rparr>) t4 d h = Some (out, h') \<and>
     (http_table_ok h \<longrightarrow> http_table_ok h') \<and> dom (http_table h') = insert t4 (dom (http_table h))"
proof -
  have p: "typed HTTP_REQUEST (requestParser d)" "http_errno (requestParser d) = HPE_OK \<Longrightarrow> wf 0 (requestParser d)"
    using assms by (simp_all add: detail_ok_def parser_ok_def)
  obtain n p' a where r: "http_parser_execute settings data (requestParser d) (app_of d) = Some (n, p', a)"
      and w: "http_errno p' = HPE_OK \<Longrightarrow> wf 0 p'"
    using execute_safe[OF p(2)] by metis
  have "typed HTTP_REQUEST p'" "\<not> aborted a"
    using request_side.execute_keeps[OF p(1) _ r] by (auto simp: app_of_def)
  with r w assms show ?thesis
    by (auto simp: run_parser_def http_table_ok_def detail_ok_def parser_ok_def)
qed

lemma response_data_ok:
  assumes "detail_ok d"
  shows "\<exists>out h'. run_parser data (responseParser d) (\<lambda>p d. d\<lparr>responseParser := p\<rparr>) t4 d h = Some (out, h') \<and>
     (http_table_ok h \<longrightarrow> http_table_ok h') \<and> dom (http_table h') = insert t4 (dom (http_table h))"
proof -
  have p: "typed HTTP_RESPONSE (responseParser d)" "http_errno (responseParser d) = HPE_OK \<Longrightarrow> wf 0 (responseParser d)"
    using assms by (simp_all add: detail_ok_def parser_ok_def)
  obtain n p' a where r: "http_parser_execute settings data (responseParser d) (app_of d) = Some (n, p', a)"
      and w: "http_errno p' = HPE_OK \<Longrightarrow> wf 0 p'"
    using execute_safe[OF p(2)] by metis
  have "typed HTTP_RESPONSE p'" "\<not> aborted a"
    using response_side.execute_keeps[OF p(1) _ r] by (auto simp: app_of_def)
  with r w assms show ?thesis
    by (auto simp: run_parser_def http_table_ok_def detail_ok_def parser_ok_def)
qed

text \<open>A connection to port 80 that is opened while it is open, or data of neither direction.\<close>

fun breaks_protocol :: "tuple4 set \<Rightarrow> tcp_event \<Rightarrow> bool" where
  "breaks_protocol known (TcpConnected i t4) \<longleftrightarrow> t4 \<in> known"
| "breaks_protocol known (TcpData i t4 data flag) \<longleftrightarrow> t4 \<in> known \<and> flag \<noteq> FROMCLIENT \<and> flag \<noteq> FROMSERVER"
| "breaks_protocol known _ \<longleftrightarrow> False"

fun known_after :: "tuple4 set \<Rightarrow> tcp_event \<Rightarrow> tuple4 set" where
  "known_after known (TcpConnected i t4) = (if dest t4 = 80 then insert t4 known else known)"
| "known_after known (TcpData i t4 data flag) = known"
| "known_after known (TcpClosed i t4) = known - {t4}"
| "known_after known (TcpRst i t4) = known - {t4}"
| "known_after known (TcpTimedOut i t4) = known - {t4}"

fun protocol_broken :: "tuple4 set \<Rightarrow> (timeval \<times> tcp_event) list \<Rightarrow> bool" where
  "protocol_broken known [] \<longleftrightarrow> False"
| "protocol_broken known ((t, e) # es) \<longleftrightarrow> breaks_protocol known e \<or> protocol_broken (known_after known e) es"

definition http_ok :: "Http \<Rightarrow> bool" where
  "http_ok h \<longleftrightarrow> http_table_ok h \<and> (\<forall>t4 \<in> dom (http_table h). dest t4 = 80)"

lemma http_data_step:
  assumes "http_ok h"
  shows "if breaks_protocol (dom (http_table h)) (TcpData i t4 data flag) then http_onTcpData t4 data flag h = None
     else \<exists>out h'. http_onTcpData t4 data flag h = Some (out, h') \<and> http_ok h' \<and> dom (http_table h') = dom (http_table h)"
proof (cases "dest t4 = 80 \<and> t4 \<in> dom (http_table h)")
  case False
  then have "t4 \<notin> dom (http_table h)"
    using assms by (auto simp: http_ok_def)
  with False assms show ?thesis
    by (auto simp: http_onTcpData_def split: option.split)
next
  case True
  then obtain d where d: "http_table h t4 = Some d" by auto
  then have "detail_ok d"
    using assms by (simp add: http_ok_def http_table_ok_def)
  from request_data_ok[OF this, of data t4 h] response_data_ok[OF this, of data t4 h] obtain o1 h1 o2 h2 where
    "run_parser data (requestParser d) (\<lambda>p d. d\<lparr>requestParser := p\<rparr>) t4 d h = Some (o1, h1)"
    "run_parser data (responseParser d) (\<lambda>p d. d\<lparr>responseParser := p\<rparr>) t4 d h = Some (o2, h2)"
    "http_table_ok h1" "http_table_ok h2" "dom (http_table h1) = dom (http_table h)" "dom (http_table h2) = dom (http_table h)"
    using True assms by (auto simp: insert_absorb http_ok_def)
  with True d assms show ?thesis
    by (auto simp: http_onTcpData_def http_ok_def)
qed

lemma http_erase_step:
  assumes "http_ok h"
  shows "http_ok (http_erase t4 h)" and "dom (http_table (http_erase t4 h)) = dom (http_table h) - {t4}"
    and "dest t4 \<noteq> 80 \<Longrightarrow> dom (http_table h) - {t4} = dom (http_table h)"
  using assms by (auto simp: http_ok_def http_table_ok_def http_erase_def)

lemma http_step:
  assumes "http_ok h"
  shows "if breaks_protocol (dom (http_table h)) e then http_event t e h = None
     else \<exists>out h'. http_event t e h = Some (out, h') \<and> http_ok h' \<and> dom (http_table h') = known_after (dom (http_table h)) e"
proof (cases e)
  case (TcpConnected i t4)
  then show ?thesis
    using assms detail_init_ok[of "memory h t4" t4 t]
    by (auto simp: onTcpConnection_def http_ok_def http_table_ok_def)
next
  case (TcpData i t4 data flag)
  with http_data_step[OF assms] show ?thesis by simp
qed (use http_erase_step[OF assms] assms in \<open>auto simp: onTcpClose_def onTcpRst_def onTcpTimeout_def\<close>)

lemma http_run_aborts:
  "http_ok h \<Longrightarrow> http_run es h = None \<longleftrightarrow> protocol_broken (dom (http_table h)) es"
proof (induction es arbitrary: h)
  case (Cons te es)
  obtain t e where te: "te = (t, e)" by (cases te)
  show ?case
  proof (cases "breaks_protocol (dom (http_table h)) e")
    case True
    with http_step[OF Cons.prems, of e t] te show ?thesis by simp
  next
    case False
    with http_step[OF Cons.prems, of e t] obtain out h' where
      "http_event t e h = Some (out, h')" "http_ok h'" "dom (http_table h') = known_after (dom (http_table h)) e"
      by auto
    with False te Cons.IH[of h'] show ?thesis by simp
  qed
qed simp

text \<open>
  C14: The HTTP handler ends the process in exactly two cases, whatever bytes the connections
  carry: a connection to port 80 is opened while it is still in the table (the assertion of
  \<open>onTcpConnection\<close>), or data come with an unknown direction. No assertion of the parser or of a
  callback fails, and no \<open>LOG_FATAL\<close> of a callback is reached.
\<close>

theorem http_aborts_exactly:
  "http_run es (Http_init junk) = None \<longleftrightarrow> protocol_broken {} es"
proof -
  have "http_ok (Http_init junk)"
    by (simp add: http_ok_def http_table_ok_def Http_init_def)
  from http_run_aborts[OF this] show ?thesis
    by (simp add: Http_init_def)
qed


end
