(* ===== verification/Http_Tcp.thy ===== *)
theory Http_Tcp
  imports Http_App
begin

text \<open>
  The TCP engine and the HTTP handler together: the segments of one connection, their effect
  on the table of \<open>Tcp_Fragment\<close>, and the callbacks they cause.
\<close>

section \<open>Segments\<close>

text \<open>An IP packet with a TCP segment without options: its address, numbers, flags, window and payload.\<close>

definition tcp_segment :: "bytes \<Rightarrow> tuple4 \<Rightarrow> u32 \<Rightarrow> u32 \<Rightarrow> u8 \<Rightarrow> u16 \<Rightarrow> bytes \<Rightarrow> bool" where
  "tcp_segment d a sq ak fl win payload \<longleftrightarrow> (case ip_view d of None \<Rightarrow> False | Some iph \<Rightarrow>
     ip_hl iph = 5 \<and> ip_len iph = 40 + length payload \<and> ip_src iph OR ip_dst iph \<noteq> 0 \<and> drop 40 d = payload \<and>
     (case tcp_view d 20 of None \<Rightarrow> False | Some hdr \<Rightarrow> seg_addr hdr iph = a \<and> th_seq hdr = sq \<and> th_ack hdr = ak \<and>
        th_off hdr = 5 \<and> th_flags hdr = fl \<and> th_win hdr = win))"

text \<open>The numbers of the flags SYN, SYN and ACK, ACK, PUSH and ACK.\<close>

lemma segment_flags:
  "has_flag 2 TH_SYN" "\<not> has_flag 2 TH_ACK" "\<not> has_flag 2 TH_RST" "has_flag 18 TH_SYN" "has_flag 18 TH_ACK"
  "\<not> has_flag 16 TH_SYN" "has_flag 16 TH_ACK" "\<not> has_flag 16 TH_RST" "\<not> has_flag 16 TH_FIN"
  "\<not> has_flag 24 TH_SYN" "has_flag 24 TH_ACK" "\<not> has_flag 24 TH_RST" "\<not> has_flag 24 TH_FIN" "\<not> has_flag 24 TH_URG"
  by code_simp+

text \<open>No timeout is due before the second \<open>b\<close>.\<close>

definition quiet :: "int \<Rightarrow> TcpFragment \<Rightarrow> bool" where
  "quiet b s \<longleftrightarrow> (\<forall>u \<in> set (tcpTimeoutSet s) \<union> set (finTimeoutSet s). b \<le> tv_sec (to_time u))"

lemma quiet_check: "\<lbrakk>quiet b s; tv_sec t < b\<rbrakk> \<Longrightarrow> tcpChecktimeouts t s = ([], s)"
  by (cases "tcpTimeoutSet s"; cases "finTimeoutSet s")
    (simp_all add: quiet_def tcpChecktimeouts_def expire_tcp.simps[of t s] expire_fin.simps[of t s])

lemma quiet_add: "\<lbrakk>quiet b s; b \<le> tv_sec t + 30\<rbrakk> \<Longrightarrow> quiet b (addTcptimeout a t s)"
  using set_insert_set by (fastforce simp: quiet_def addTcptimeout_def later_by_def)

lemma quiet_update: "\<lbrakk>quiet b s; b \<le> tv_sec t + 30\<rbrakk> \<Longrightarrow> quiet b (updateTcptimeout a t s)"
  unfolding updateTcptimeout_def by (rule quiet_add) (auto simp: quiet_def delTcptimeout_def)

section \<open>One connection\<close>

text \<open>The table holds one stream.\<close>

definition alone :: "int \<Rightarrow> tuple4 \<Rightarrow> TcpStream \<Rightarrow> TcpFragment \<Rightarrow> bool" where
  "alone b a x s \<longleftrightarrow> tcphashmap s = [x] \<and> addr x = a \<and> hash_index x = stream_key s a \<and> quiet b s \<and> 1 < tcpStreamTableSize s"

definition empty_table :: "int \<Rightarrow> TcpFragment \<Rightarrow> bool" where
  "empty_table b s \<longleftrightarrow> tcphashmap s = [] \<and> quiet b s \<and> 1 < tcpStreamTableSize s"

lemma find_alone:
  assumes "alone b a x s" and "a \<noteq> t4_reversed a"
  shows "findStream_aux a s = Some x" and "findStream_aux (t4_reversed a) s = None"
  using assms by (auto simp: alone_def findStream_aux_def tuple4_eq_def t4_reversed_def Let_def)

lemma reversed_twice: "t4_reversed (t4_reversed a) = a"
  by (simp add: t4_reversed_def)

text \<open>What a segment does once its header is read and no timeout is due.\<close>

definition segment_effect :: "u8 \<Rightarrow> tcphdr \<Rightarrow> iphdr \<Rightarrow> bytes \<Rightarrow> bytes \<Rightarrow> int \<Rightarrow> timeval \<Rightarrow> TcpFragment \<Rightarrow> tcp_event list \<times> TcpFragment" where
  "segment_effect fl hdr iph opts payload k t s = (case findStream hdr iph s of
      None \<Rightarrow> if has_flag fl TH_SYN \<and> \<not> has_flag fl TH_ACK \<and> \<not> has_flag fl TH_RST then addNewtcp hdr iph opts t s else ([], s)
    | Some (x, fc) \<Rightarrow> if has_flag fl TH_SYN \<and> \<not> has_flag fl TH_ACK \<and> \<not> has_flag fl TH_RST
        then addNewtcp hdr iph opts t (freeTcpstream (s_id x) s) else known_segment hdr iph opts fc payload (int (length payload)) k t x s)"

lemma process_segment:
  assumes "tcp_segment d a sq ak fl win payload" and "quiet b s" and "tv_sec t < b"
  obtains hdr iph opts where "seg_addr hdr iph = a" and "th_seq hdr = sq" and "th_ack hdr = ak" and "th_flags hdr = fl"
    and "th_win hdr = win" and "th_off hdr = 5" and "processTcp d k t s = segment_effect fl hdr iph opts payload k t s"
proof -
  obtain iph where i: "ip_view d = Some iph" "ip_hl iph = 5" "ip_len iph = 40 + length payload" "ip_src iph OR ip_dst iph \<noteq> 0" "drop 40 d = payload"
    using assms(1) by (auto simp: tcp_segment_def split: option.splits)
  obtain hdr where h: "tcp_view d 20 = Some hdr" "seg_addr hdr iph = a" "th_seq hdr = sq" "th_ack hdr = ak" "th_off hdr = 5" "th_flags hdr = fl" "th_win hdr = win"
    using assms(1) i by (auto simp: tcp_segment_def split: option.splits)
  have "processTcp d k t s = segment_effect fl hdr iph payload payload k t s"
    using quiet_check[OF assms(2,3)] i h
    by (auto simp: processTcp_def segment_effect_def split_beta Let_def split: option.split)
  with that h show thesis by blast
qed

lemma no_wscale: "th_off hdr = 5 \<Longrightarrow> wscale_of opts hdr = (False, 1)"
  by (simp add: wscale_of_def getWscale_def wscale_loop.simps)

text \<open>The three stages of the handshake; \<open>c\<close> and \<open>v\<close> are the first numbers of client and server.\<close>

definition syn_sent :: "u32 \<Rightarrow> TcpStream \<Rightarrow> bool" where
  "syn_sent c x \<longleftrightarrow> h_state (client x) = TCP_SYN_SENT \<and> h_state (server x) = TCP_CLOSE \<and> h_seq (client x) = c + 1 \<and>
     h_first_data_seq (client x) = c + 1 \<and> \<not> h_wscale_on (client x) \<and> \<not> isconnnection x \<and> h_rmem_alloc (client x) = 0 \<and>
     h_count (server x) = 0 \<and> h_urg_count (server x) = 0 \<and> h_rmem_alloc (server x) = 0 \<and> h_fraglist (server x) = []"

definition syn_answered :: "u32 \<Rightarrow> u32 \<Rightarrow> u16 \<Rightarrow> TcpStream \<Rightarrow> bool" where
  "syn_answered c v win x \<longleftrightarrow> h_state (client x) = TCP_SYN_SENT \<and> h_state (server x) = TCP_SYN_RECV \<and> h_seq (server x) = v + 1 \<and>
     h_first_data_seq (client x) = c + 1 \<and> h_rmem_alloc (client x) = 0 \<and> h_ack_seq (server x) = c + 1 \<and> h_window (server x) = win \<and> h_wscale (server x) = 1 \<and>
     h_count (server x) = 0 \<and> h_urg_count (server x) = 0 \<and> h_rmem_alloc (server x) = 0 \<and> h_fraglist (server x) = []"

text \<open>The client has sent \<open>n\<close> bytes and the server has acknowledged \<open>k\<close> of them and gives a window of \<open>win\<close>.\<close>

definition established :: "u32 \<Rightarrow> u32 \<Rightarrow> nat \<Rightarrow> u16 \<Rightarrow> nat \<Rightarrow> TcpStream \<Rightarrow> bool" where
  "established c v k win n x \<longleftrightarrow> h_state (client x) = TCP_ESTABLISHED \<and> h_state (server x) = TCP_ESTABLISHED \<and> isconnnection x \<and>
     h_first_data_seq (client x) = c + 1 \<and> h_ack_seq (client x) = v + 1 \<and> h_ack_seq (server x) = c + 1 + of_nat k \<and> h_window (server x) = win \<and>
     h_wscale (server x) = 1 \<and> h_count (server x) = of_nat n \<and> h_urg_count (server x) = 0 \<and> h_rmem_alloc (server x) = 0 \<and> h_fraglist (server x) = [] \<and>
     h_rmem_alloc (client x) = 0 \<and> \<not> h_urg_seen (server x)"

text \<open>\<open>addNewtcp\<close> does not initialise \<open>urg_seen\<close>; it is what the memory held.\<close>

definition no_urgent :: "TcpFragment \<Rightarrow> bool" where
  "no_urgent s \<longleftrightarrow> (\<forall>i. \<not> h_urg_seen (snd (stack_junk s i)))"

lemma new_alone:
  assumes e: "empty_table b s" and t: "b \<le> tv_sec t + 30" and h: "seg_addr hdr iph = a" "th_seq hdr = c" "th_off hdr = 5"
  shows "\<exists>x s'. addNewtcp hdr iph opts t s = ([], s') \<and> alone b a x s' \<and> syn_sent c x \<and> s_id x = next_sid s \<and> next_sid s' = next_sid s + 1 \<and>
    stack_junk s' = stack_junk s \<and> (no_urgent s \<longrightarrow> \<not> h_urg_seen (server x))"
proof -
  let ?x = "new_stream hdr iph opts t s"
  let ?s = "s\<lparr>tcphashmap := [?x], next_sid := next_sid s + 1\<rparr>"
  have x: "addr ?x = a" "hash_index ?x = stream_key s a" "s_id ?x = next_sid s" "syn_sent c ?x" "no_urgent s \<longrightarrow> \<not> h_urg_seen (server ?x)"
    using h no_wscale[OF h(3)] by (auto simp: new_stream_def syn_sent_def no_urgent_def split_beta Let_def)
  have key: "stream_key ?s = stream_key s" "stream_key (addTcptimeout (s_id ?x) t ?s) = stream_key s"
    by (simp_all add: stream_key_def fun_eq_iff addTcptimeout_def)
  have "findStream_aux a ?s = Some ?x"
    using x key by (simp add: findStream_aux_def tuple4_eq_def)
  then have "addNewtcp hdr iph opts t s = ([], addTcptimeout (s_id ?x) t ?s)"
    using e h by (simp add: empty_table_def addNewtcp_def Let_def)
  moreover have "quiet b ?s"
    using e by (simp add: empty_table_def quiet_def)
  then have "quiet b (addTcptimeout (s_id ?x) t ?s)"
    by (rule quiet_add[OF _ t])
  then have "alone b a ?x (addTcptimeout (s_id ?x) t ?s)"
    using x key e by (simp add: alone_def empty_table_def)
  moreover have "stack_junk (addTcptimeout (s_id ?x) t ?s) = stack_junk s"
    by (simp add: addTcptimeout_def)
  ultimately show ?thesis
    using x by (intro exI[of _ ?x] exI[of _ "addTcptimeout (s_id ?x) t ?s"]) simp
qed

text \<open>A SYN, on an empty table or for the only stream.\<close>

lemma syn_step:
  assumes s: "empty_table b s \<or> alone b a y s" and d: "tcp_segment d a c ak 2 win []" and t: "tv_sec t < b" "b \<le> tv_sec t + 30"
    and a: "a \<noteq> t4_reversed a"
  shows "\<exists>x s'. processTcp d k t s = ([], s') \<and> alone b a x s' \<and> syn_sent c x \<and> (no_urgent s \<longrightarrow> \<not> h_urg_seen (server x))"
proof -
  have q: "quiet b s"
    using s by (auto simp: alone_def empty_table_def)
  obtain hdr iph opts where h: "seg_addr hdr iph = a" "th_seq hdr = c" "th_ack hdr = ak" "th_flags hdr = 2" "th_win hdr = win" "th_off hdr = 5" and
    p: "processTcp d k t s = segment_effect 2 hdr iph opts [] k t s"
    by (rule process_segment[OF d q t(1)])
  from s show ?thesis
  proof
    assume e: "empty_table b s"
    then have "findStream hdr iph s = None"
      by (simp add: findStream_def findStream_aux_def empty_table_def)
    with p new_alone[OF e t(2) h(1,2,6), of opts] show ?thesis
      by (auto simp: segment_effect_def segment_flags)
  next
    assume y: "alone b a y s"
    let ?s = "freeTcpstream (s_id y) s"
    have "findStream hdr iph s = Some (y, True)"
      using find_alone[OF y a] h by (simp add: findStream_def)
    moreover have "empty_table b ?s" "stack_junk ?s = stack_junk s"
      using y by (auto simp: alone_def empty_table_def quiet_def freeTcpstream_def freeTcpData_def put_stream_def delFintimeout_def
          delTcptimeout_def Let_def split: option.split)
    ultimately show ?thesis
      using p new_alone[of b ?s t hdr iph a c opts] t(2) h by (auto simp: segment_effect_def segment_flags no_urgent_def)
  qed
qed

lemma alone_put:
  assumes "alone b a x s" and "addr x' = addr x" and "hash_index x' = hash_index x" and "s_id x' = s_id x"
  shows "alone b a x' (put_stream x' s)"
  using assms by (simp add: alone_def put_stream_def stream_key_def quiet_def)

text \<open>The answer of the server and the last segment of the handshake.\<close>

lemma syn_ack_step:
  assumes s: "alone b a x s" and x: "syn_sent c x" and d: "tcp_segment d (t4_reversed a) v (c + 1) 18 win []" and t: "tv_sec t < b"
    and a: "a \<noteq> t4_reversed a"
  shows "\<exists>x' s'. processTcp d k t s = ([], s') \<and> alone b a x' s' \<and> syn_answered c v win x' \<and> h_urg_seen (server x') = h_urg_seen (server x)"
proof -
  have q: "quiet b s"
    using s by (simp add: alone_def)
  obtain hdr iph opts where h: "seg_addr hdr iph = t4_reversed a" "th_seq hdr = v" "th_ack hdr = c + 1" "th_flags hdr = 18" "th_win hdr = win" "th_off hdr = 5" and
    p: "processTcp d k t s = segment_effect 18 hdr iph opts [] k t s"
    by (rule process_segment[OF d q t])
  have f: "findStream hdr iph s = Some (x, False)"
    using find_alone[OF s a] h by (simp add: findStream_def reversed_twice)
  let ?x = "syn_ack hdr opts t x"
  have "processTcp d k t s = ([], put_stream ?x s)"
    using p f h by (simp add: segment_effect_def segment_flags known_segment_def)
  moreover have x': "addr ?x = addr x" "hash_index ?x = hash_index x" "s_id ?x = s_id x" "syn_answered c v win ?x"
      "h_urg_seen (server ?x) = h_urg_seen (server x)"
    using x h by (auto simp: syn_sent_def syn_answered_def syn_ack_def segment_flags Let_def)
  moreover have "alone b a ?x (put_stream ?x s)"
    by (rule alone_put[OF s x'(1-3)])
  ultimately show ?thesis by blast
qed

lemma ack_step:
  assumes s: "alone b a x s" and x: "syn_answered c v win x" and d: "tcp_segment d a (c + 1) (v + 1) 16 win' []" and t: "tv_sec t < b"
    and a: "a \<noteq> t4_reversed a"
  shows "\<exists>x' s'. processTcp d k t s = ([TcpConnected (s_id x) a], s') \<and> alone b a x' s' \<and> s_id x' = s_id x \<and>
    (\<not> h_urg_seen (server x) \<longrightarrow> established c v 0 win 0 x')"
proof -
  have q: "quiet b s"
    using s by (simp add: alone_def)
  obtain hdr iph opts where h: "seg_addr hdr iph = a" "th_seq hdr = c + 1" "th_ack hdr = v + 1" "th_flags hdr = 16" "th_win hdr = win'" "th_off hdr = 5" and
    p: "processTcp d k t s = segment_effect 16 hdr iph opts [] k t s"
    by (rule process_segment[OF d q t])
  have f: "findStream hdr iph s = Some (x, True)"
    using find_alone[OF s a] h by (simp add: findStream_def)
  have w: "\<not> outside_window hdr 0 (server x)"
    using x h by (simp add: outside_window_def syn_answered_def)
  let ?e = "x\<lparr>client := (client x)\<lparr>h_state := TCP_ESTABLISHED, h_ack_seq := v + 1\<rparr>, server := (server x)\<lparr>h_state := TCP_ESTABLISHED\<rparr>,
    s_ts := tv_sec t, isconnnection := True\<rparr>"
  have e: "establish hdr True t x = ([TcpConnected (s_id x) a], ?e)"
    using x h s by (simp add: establish_def segment_flags alone_def syn_answered_def)
  have k: "acknowledge hdr True ?e = (False, ?e)"
    using h by (simp add: acknowledge_def segment_flags snd_half_def rcv_half_def with_halves_def handleAck_def Let_def)
  let ?x = "?e\<lparr>client := (client ?e)\<lparr>h_window := th_win hdr\<rparr>, server := server ?e\<rparr>"
  have d: "take_data hdr True [] 0 k t ?e s = ([], put_stream ?x s)"
    using x h by (simp add: take_data_def segment_flags snd_half_def rcv_half_def with_halves_def syn_answered_def)
  have "processTcp d k t s = ([TcpConnected (s_id x) a], put_stream ?x s)"
    using p f h w e k d by (simp add: segment_effect_def segment_flags known_segment_def rcv_half_def)
  moreover have "alone b a ?x (put_stream ?x s)"
    by (rule alone_put[OF s]) simp_all
  moreover have "\<not> h_urg_seen (server x) \<longrightarrow> established c v 0 win 0 ?x"
    using x by (simp add: established_def syn_answered_def)
  ultimately show ?thesis
    by (intro exI[of _ ?x] exI[of _ "put_stream ?x s"]) simp
qed

text \<open>Segments of an established connection: the client's next bytes, and an acknowledgement of the server.\<close>

definition plain_flags :: "u8 \<Rightarrow> bool" where
  "plain_flags fl \<longleftrightarrow> \<not> has_flag fl TH_SYN \<and> \<not> has_flag fl TH_RST \<and> \<not> has_flag fl TH_FIN \<and> \<not> has_flag fl TH_URG"

lemma next_data:
  assumes "th_seq hdr = EXP_SEQ sn rc" and "plain_flags (th_flags hdr)" and "data \<noteq> []" and "length data < 2 ^ 31"
    and "\<not> h_urg_seen rc" and "h_fraglist rc = []"
  shows "\<exists>m. tcpQueue True hdr sn rc data (int (length data)) k =
    ([UpdateTcpTimeout, Notify data], sn, rc\<lparr>h_count_new := m, h_count := h_count rc + of_nat (length data), h_fraglist := []\<rparr>)"
proof -
  have n: "sint (word_of_nat (length data) :: u32) = int (length data)"
    using sint_of_int_small[of "int (length data)"] assms(4) by simp
  then have "(word_of_nat (length data) :: u32) \<noteq> 0"
    using assms(3) by force
  moreover have "after (EXP_SEQ sn rc + word_of_nat (length data)) (EXP_SEQ sn rc)" "\<not> after (EXP_SEQ sn rc) (EXP_SEQ sn rc)"
    using after_offset[of "int (length data)" 0 "EXP_SEQ sn rc"] assms(3,4) by (simp_all add: after_def)
  ultimately show ?thesis
    using assms n by (intro exI[of _ "if h_count_new_urg rc then int (length data) else 0"])
      (auto simp: tcpQueue_def addFromskb_def note_urgent_def deliver_def notify_def part_def plain_flags_def word_gt_0 Let_def)
qed

lemma within_window:
  assumes "h_ack_seq rc = c + 1 + of_nat k" and "h_window rc = win" and "h_wscale rc = 1" and "th_seq hdr = c + 1 + of_nat n"
    and "k \<le> n" and "n < k + unat win" and "n + m < 2 ^ 31"
  shows "\<not> outside_window hdr (int m) rc"
proof -
  obtain w where w: "unat win = w" "w < 2 ^ 16"
    using unsigned_less[of win, where 'a = nat] by simp
  then have "ucast win = (word_of_int (int w) :: u32)"
    by (simp add: unsigned_def flip: w(1))
  then have "(c + 1) + word_of_int (int k + int w) = c + 1 + of_nat k + ucast win"
    by simp
  moreover have "before ((c + 1) + word_of_int (int n)) ((c + 1) + word_of_int (int k + int w))"
    using assms(5-7) w by (subst before_offset) auto
  moreover have "\<not> before ((c + 1) + word_of_int (int n + int m)) ((c + 1) + word_of_int (int k))"
    using assms(5-7) by (subst before_offset) auto
  ultimately show ?thesis
    using assms(1-4) by (simp add: outside_window_def add.assoc)
qed

lemma data_step:
  assumes s: "alone b a x s" and x: "established c v k win n x" and d: "tcp_segment d a (c + 1 + of_nat n) (v + 1) fl win' data"
    and t: "tv_sec t < b" "b \<le> tv_sec t + 30" and a: "a \<noteq> t4_reversed a" and fl: "plain_flags fl" and data: "data \<noteq> []"
    and w: "k \<le> n" "n < k + unat win" "n + length data < 2 ^ 31"
  shows "\<exists>x' s'. processTcp d len t s = ([TcpData (s_id x) a data FROMCLIENT], s') \<and> alone b a x' s' \<and>
    established c v k win (n + length data) x' \<and> s_id x' = s_id x"
proof -
  have q: "quiet b s"
    using s by (simp add: alone_def)
  obtain hdr iph opts where h: "seg_addr hdr iph = a" "th_seq hdr = c + 1 + of_nat n" "th_ack hdr = v + 1" "th_flags hdr = fl" "th_win hdr = win'" "th_off hdr = 5" and
    p: "processTcp d len t s = segment_effect fl hdr iph opts data len t s"
    by (rule process_segment[OF d q t(1)])
  have f: "findStream hdr iph s = Some (x, True)"
    using find_alone[OF s a] h by (simp add: findStream_def)
  have short: "length data < 2 ^ 31"
    using w(3) by simp
  have w: "\<not> outside_window hdr (int (length data)) (server x)"
    by (rule within_window) (use x h w in \<open>simp_all add: established_def\<close>)
  have e: "establish hdr True t x = ([], x)"
    using x by (simp add: establish_def established_def)
  have k: "acknowledge hdr True x = (False, x)"
    using h x by (simp add: acknowledge_def snd_half_def rcv_half_def with_halves_def handleAck_def established_def Let_def)
  have "th_seq hdr = EXP_SEQ (client x) (server x)" "\<not> h_urg_seen (server x)" "h_fraglist (server x) = []"
    using x h by (simp_all add: EXP_SEQ_def established_def)
  then obtain m where m: "tcpQueue True hdr (client x) (server x) data (int (length data)) len =
    ([UpdateTcpTimeout, Notify data], client x, (server x)\<lparr>h_count_new := m, h_count := h_count (server x) + of_nat (length data), h_fraglist := []\<rparr>)"
    using next_data[of hdr "client x" "server x" data len] h fl data short by blast
  let ?x = "x\<lparr>client := (client x)\<lparr>h_window := win'\<rparr>,
    server := (server x)\<lparr>h_count_new := m, h_count := h_count (server x) + of_nat (length data), h_fraglist := []\<rparr>\<rparr>"
  let ?s = "updateTcptimeout (s_id x) t s"
  have d: "take_data hdr True data (int (length data)) len t x s = ([TcpData (s_id x) a data FROMCLIENT], put_stream ?x ?s)"
    using x h s m data by (simp add: take_data_def snd_half_def rcv_half_def with_halves_def established_def alone_def)
  have "processTcp d len t s = ([TcpData (s_id x) a data FROMCLIENT], put_stream ?x ?s)"
    using p f h w e k d fl by (simp add: segment_effect_def plain_flags_def known_segment_def rcv_half_def)
  moreover have "alone b a x ?s"
    using s quiet_update[OF q t(2)] by (simp add: alone_def)
  then have "alone b a ?x (put_stream ?x ?s)"
    by (rule alone_put) simp_all
  moreover have "established c v k win (n + length data) ?x"
    using x by (simp add: established_def)
  ultimately show ?thesis
    by (intro exI[of _ ?x] exI[of _ "put_stream ?x ?s"]) simp
qed

lemma server_ack_step:
  assumes s: "alone b a x s" and x: "established c v k win n x" and d: "tcp_segment d (t4_reversed a) (v + 1) (c + 1 + of_nat j) fl win' []"
    and t: "tv_sec t < b" and a: "a \<noteq> t4_reversed a" and fl: "plain_flags fl" "has_flag fl TH_ACK" and j: "j \<le> n" "k \<le> n" "n < 2 ^ 31"
  shows "\<exists>x' s'. processTcp d len t s = ([], s') \<and> alone b a x' s' \<and> established c v (max k j) win' n x' \<and> s_id x' = s_id x"
proof -
  have q: "quiet b s"
    using s by (simp add: alone_def)
  obtain hdr iph opts where h: "seg_addr hdr iph = t4_reversed a" "th_seq hdr = v + 1" "th_ack hdr = c + 1 + of_nat j" "th_flags hdr = fl" "th_win hdr = win'" "th_off hdr = 5" and
    p: "processTcp d len t s = segment_effect fl hdr iph opts [] len t s"
    by (rule process_segment[OF d q t])
  have f: "findStream hdr iph s = Some (x, False)"
    using find_alone[OF s a] h by (simp add: findStream_def reversed_twice)
  have w: "\<not> outside_window hdr 0 (client x)"
    using x h by (simp add: outside_window_def established_def)
  have e: "establish hdr False t x = ([], x)"
    by (simp add: establish_def)
  have ack: "handleAck (server x) (th_ack hdr) = (server x)\<lparr>h_ack_seq := c + 1 + of_nat (max k j)\<rparr>"
  proof -
    have "sint (c + 1 + of_nat j - (c + 1 + of_nat k) :: u32) = int j - int k"
      using sint_of_int_small[of "int j - int k"] j by simp
    then show ?thesis
      using h x by (auto simp: handleAck_def established_def max_def)
  qed
  let ?e = "x\<lparr>server := (server x)\<lparr>h_ack_seq := c + 1 + of_nat (max k j)\<rparr>\<rparr>"
  have k: "acknowledge hdr False x = (False, ?e)"
    using h x ack fl by (simp add: acknowledge_def snd_half_def rcv_half_def with_halves_def established_def Let_def)
  let ?x = "?e\<lparr>client := client ?e, server := (server ?e)\<lparr>h_window := win'\<rparr>\<rparr>"
  have d: "take_data hdr False [] 0 len t ?e s = ([], put_stream ?x s)"
    using x h fl by (simp add: take_data_def plain_flags_def snd_half_def rcv_half_def with_halves_def established_def)
  have "processTcp d len t s = ([], put_stream ?x s)"
    using p f h w e k d fl by (simp add: segment_effect_def plain_flags_def known_segment_def rcv_half_def)
  moreover have "alone b a ?x (put_stream ?x s)"
    by (rule alone_put[OF s]) simp_all
  moreover have "established c v (max k j) win' n ?x"
    using x by (simp add: established_def)
  ultimately show ?thesis
    by (intro exI[of _ ?x] exI[of _ "put_stream ?x s"]) simp
qed

section \<open>A connection\<close>

text \<open>The three segments of the handshake.\<close>

definition three_way :: "u32 \<Rightarrow> u32 \<Rightarrow> u16 \<Rightarrow> tuple4 \<Rightarrow> bytes \<Rightarrow> bytes \<Rightarrow> bytes \<Rightarrow> u16 \<times> u16 \<Rightarrow> bool" where
  "three_way c v win a d1 d2 d3 wins \<longleftrightarrow> tcp_segment d1 a c 0 2 (fst wins) [] \<and> tcp_segment d2 (t4_reversed a) v (c + 1) 18 win [] \<and>
     tcp_segment d3 a (c + 1) (v + 1) 16 (snd wins) []"

lemma three_way_run:
  assumes s: "empty_table b s \<or> alone b a y s" and d: "three_way c v win a d1 d2 d3 wins" and a: "a \<noteq> t4_reversed a"
    and t: "tv_sec t1 < b" "b \<le> tv_sec t1 + 30" "tv_sec t2 < b" "tv_sec t3 < b"
  obtains x s1 s2 s3 where "processTcp d1 k1 t1 s = ([], s1)" and "processTcp d2 k2 t2 s1 = ([], s2)"
    and "processTcp d3 k3 t3 s2 = ([TcpConnected (s_id x) a], s3)" and "alone b a x s3" and "no_urgent s \<Longrightarrow> established c v 0 win 0 x"
proof -
  have d: "tcp_segment d1 a c 0 2 (fst wins) []" "tcp_segment d2 (t4_reversed a) v (c + 1) 18 win []" "tcp_segment d3 a (c + 1) (v + 1) 16 (snd wins) []"
    using d by (simp_all add: three_way_def)
  obtain x1 s1 where 1: "processTcp d1 k1 t1 s = ([], s1)" "alone b a x1 s1" "syn_sent c x1" "no_urgent s \<longrightarrow> \<not> h_urg_seen (server x1)"
    using syn_step[OF s d(1) t(1,2) a, where k = k1] by blast
  obtain x2 s2 where 2: "processTcp d2 k2 t2 s1 = ([], s2)" "alone b a x2 s2" "syn_answered c v win x2" "h_urg_seen (server x2) = h_urg_seen (server x1)"
    using syn_ack_step[OF 1(2,3) d(2) t(3) a, where k = k2] by blast
  obtain x3 s3 where 3: "processTcp d3 k3 t3 s2 = ([TcpConnected (s_id x2) a], s3)" "alone b a x3 s3" "s_id x3 = s_id x2"
      "\<not> h_urg_seen (server x2) \<longrightarrow> established c v 0 win 0 x3"
    using ack_step[OF 2(2,3) d(3) t(4) a, where k = k3] by blast
  show thesis
    by (rule that[of s1 s2 x3 s3]) (use 1 2 3 in simp_all)
qed

text \<open>
  What client and server then send: bytes of the client (with flags and window) and acknowledgements of the
  server (with flags, window and how many bytes it has got), with their packets. The client has
  sent \<open>n\<close> bytes, starts no segment outside the window, and the server only acknowledges what was sent.
\<close>

datatype move = Says u8 u16 bytes | Acks u8 u16 nat

fun dialogue :: "u32 \<Rightarrow> u32 \<Rightarrow> tuple4 \<Rightarrow> nat \<Rightarrow> nat \<Rightarrow> u16 \<Rightarrow> (move \<times> bytes) list \<Rightarrow> bool" where
  "dialogue c v a n k w [] \<longleftrightarrow> True"
| "dialogue c v a n k w ((Says fl win data, d) # ms) \<longleftrightarrow>
     tcp_segment d a (c + 1 + of_nat n) (v + 1) fl win data \<and> plain_flags fl \<and> data \<noteq> [] \<and> n < k + unat w \<and>
     n + length data < 2 ^ 31 \<and> dialogue c v a (n + length data) k w ms"
| "dialogue c v a n k w ((Acks fl win j, d) # ms) \<longleftrightarrow>
     tcp_segment d (t4_reversed a) (v + 1) (c + 1 + of_nat j) fl win [] \<and> plain_flags fl \<and> has_flag fl TH_ACK \<and> j \<le> n \<and>
     dialogue c v a n (max k j) win ms"

fun said :: "nat \<Rightarrow> tuple4 \<Rightarrow> move \<Rightarrow> tcp_event list" where
  "said i a (Says fl win data) = [TcpData i a data FROMCLIENT]"
| "said i a (Acks fl win j) = []"

lemma dialogue_step:
  assumes s: "alone b a x s" "established c v k w n x" and d: "dialogue c v a n k w ((m, d) # ms)"
    and t: "tv_sec t < b" "b \<le> tv_sec t + 30" and a: "a \<noteq> t4_reversed a" and n: "k \<le> n" "n < 2 ^ 31"
  obtains x' s' k' w' n' where "processTcp d len t s = (said (s_id x) a m, s')" and "alone b a x' s'" and "s_id x' = s_id x"
    and "established c v k' w' n' x'" and "dialogue c v a n' k' w' ms" and "k' \<le> n'" and "n' < 2 ^ 31"
proof (cases m)
  case (Says fl win data)
  obtain x' s' where "processTcp d len t s = ([TcpData (s_id x) a data FROMCLIENT], s')" "alone b a x' s'"
      "established c v k w (n + length data) x'" "s_id x' = s_id x"
    using data_step[OF s _ t a _ _ n(1), of d fl win data len] d Says by auto
  with that[of s' x' k w "n + length data"] d Says n show thesis by simp
next
  case (Acks fl win j)
  obtain x' s' where "processTcp d len t s = ([], s')" "alone b a x' s'" "established c v (max k j) win n x'" "s_id x' = s_id x"
    using server_ack_step[OF s _ t(1) a, of d j fl win len] d Acks n by auto
  with that[of s' x' "max k j" win n] d Acks n show thesis by simp
qed

section \<open>A connection that is opened twice\<close>

definition sample_segment :: "bool \<Rightarrow> u8 \<Rightarrow> u8 \<Rightarrow> u8 \<Rightarrow> bytes" where
  "sample_segment up sq ak fl =
     [0x45, 0, 0, 40, 0, 0, 0, 0, 64, 6, 0, 0] @ (if up then [10, 0, 0, 1, 10, 0, 0, 2] else [10, 0, 0, 2, 10, 0, 0, 1]) @
     (if up then [4, 0, 0, 80] else [0, 80, 4, 0]) @ [0, 0, 0, sq, 0, 0, 0, ak, 0x50, fl, 16, 0, 0, 0, 0, 0]"

definition sample_addr :: tuple4 where
  "sample_addr = \<lparr>source = 1024, dest = 80, saddr = 0x0100000A, daddr = 0x0200000A\<rparr>"

lemma sample_opening: "three_way 100 200 4096 sample_addr (sample_segment True 100 0 2) (sample_segment False 200 101 18) (sample_segment True 101 201 16) (4096, 4096)"
  by code_simp

definition handshake :: "timeval \<Rightarrow> (bytes \<times> int \<times> timeval) list" where
  "handshake t = map (\<lambda>d. (d, 40, t)) [sample_segment True 100 0 2, sample_segment False 200 101 18, sample_segment True 101 201 16]"

lemma handshake_run:
  assumes "empty_table (tv_sec t + 30) s \<or> alone (tv_sec t + 30) sample_addr y s"
  shows "\<exists>i x s'. tcp_run (handshake t @ ps) s = (let (es, s'') = tcp_run ps s' in (TcpConnected i sample_addr # es, s'')) \<and>
    alone (tv_sec t + 30) sample_addr x s'"
proof -
  have a: "sample_addr \<noteq> t4_reversed sample_addr"
    by (simp add: sample_addr_def t4_reversed_def)
  have t: "tv_sec t < tv_sec t + 30" "tv_sec t + 30 \<le> tv_sec t + 30"
    by simp_all
  obtain x s1 s2 s3 where "processTcp (sample_segment True 100 0 2) 40 t s = ([], s1)" "processTcp (sample_segment False 200 101 18) 40 t s1 = ([], s2)"
      "processTcp (sample_segment True 101 201 16) 40 t s2 = ([TcpConnected (s_id x) sample_addr], s3)" "alone (tv_sec t + 30) sample_addr x s3"
    by (rule three_way_run[OF assms sample_opening a t t(1,1)])
  then show ?thesis
    by (intro exI[of _ "s_id x"] exI[of _ x] exI[of _ s3]) (simp add: handshake_def split_beta)
qed

text \<open>
  C40: A client can end the process. A second SYN for an established connection makes the TCP engine
  free its stream without any callback; when the handshake completes again, the HTTP handler
  finds the connection still in its table and its assertion fails. Six segments suffice, whatever
  the hash keys, the memory and the time are.
\<close>

theorem http_reopen_aborts:
  "http_run (map (Pair t) (fst (tcp_run (handshake t @ handshake t) (TcpFragment_init xors perm junk)))) (Http_init mem) = None"
proof -
  have "empty_table (tv_sec t + 30) (TcpFragment_init xors perm junk)"
    by (simp add: TcpFragment_init_def tcpInit_def empty_table_def quiet_def)
  then obtain i x s1 where 1: "tcp_run (handshake t @ handshake t) (TcpFragment_init xors perm junk) =
      (let (es, s'') = tcp_run (handshake t) s1 in (TcpConnected i sample_addr # es, s''))" "alone (tv_sec t + 30) sample_addr x s1"
    using handshake_run[of t _ _ "handshake t"] by blast
  obtain j y s2 where "tcp_run (handshake t @ []) s1 = (let (es, s'') = tcp_run [] s2 in (TcpConnected j sample_addr # es, s''))"
    using handshake_run[of t s1 x "[]"] 1(2) by blast
  with 1(1) have "fst (tcp_run (handshake t @ handshake t) (TcpFragment_init xors perm junk)) = [TcpConnected i sample_addr, TcpConnected j sample_addr]"
    by simp
  then show ?thesis
    by (simp add: Http_init_def onTcpConnection_def sample_addr_def)
qed

end
