(* ===== verification/Dns_Parser.thy ===== *)
theory Dns_Parser
  imports Net_Util
begin

text \<open>
  \<open>dpi/Udp.cc\<close> and \<open>app/dns/Dnsparser.cc\<close>. The packet bytes are \<open>char\<close>, which is signed on
  the target, and are sign-extended wherever the code computes with them; positions are
  32-bit words. \<open>None\<close> is undefined behaviour: a read outside the datagram, the use of a
  pointer that was never set, \<open>strlen(NULL)\<close>. Proved: reading a name is always defined, ends
  and writes no more bytes than it allocated; reading an encoded name gives the name back;
  the parser reports the questions and addresses of well-formed messages; and the inputs on
  which it leaves the datagram.
\<close>

section \<open>UDP\<close>

definition processUdp :: "bytes \<Rightarrow> (tuple4 \<times> bytes \<times> int) option" where
  "processUdp d = do {
     iph \<leftarrow> ip_view d;
     let datalen = int (ip_len iph) - 4 * int (ip_hl iph) - 8;
     (s, r) \<leftarrow> udp_view d (4 * ip_hl iph);
     Some (\<lparr>source = s, dest = r, saddr = ip_src iph, daddr = ip_dst iph\<rparr>, drop (4 * ip_hl iph + 8) d, datalen) }"

section \<open>State\<close>

text \<open>A \<open>char *\<close> to a NUL-terminated text, which may be unset or \<open>NULL\<close>.\<close>

datatype cstring = Unset | Null | Text (text_of: bytes)

record DnsQuestion =
  q_name :: bytes
  q_type :: u16
  q_cls :: u16

record DnsRR =
  rr_name :: cstring
  rr_type :: u16
  rr_cls :: u16
  rr_ttl :: u16
  rr_rdlength :: u16
  rr_data :: cstring

record DnsInfo =
  d_name :: cstring
  d_qr :: u8
  d_AA :: u8
  d_TC :: u8
  d_rcode :: u8
  d_qdcount :: u16
  d_ancount :: u16
  d_nscount :: u16
  d_arcount :: u16
  d_queries :: "DnsQuestion list"
  d_answers :: "DnsRR list"

record DnsRequest =
  rq_timeStamp :: timeval
  rq_srcip :: u32
  rq_dstip :: u32
  Qname :: bytes
  Qtype :: u16
  Qclass :: u16

record DnsResponse =
  rs_timeStamp :: timeval
  rs_srcip :: u32
  rs_dstip :: u32
  Rname :: bytes
  Rtype :: u16
  Rclass :: u16
  rs_ttl :: int
  rs_result :: bytes

record DnsParser =
  numRequest :: u32
  numResponse :: u32
  numUdp :: u32

definition DnsParser_init :: DnsParser where
  "DnsParser_init = \<lparr>numRequest = 0, numResponse = 0, numUdp = 0\<rparr>"

section \<open>Names\<close>

text \<open>A byte as the value of a signed \<open>char\<close> in 32-bit arithmetic, and two of them joined to a \<open>u_int16_t\<close>.\<close>

definition sext :: "u8 \<Rightarrow> u32" where
  "sext b = scast b"

definition signed16 :: "u8 \<Rightarrow> u8 \<Rightarrow> u16" where
  "signed16 a b = ucast (push_bit 8 (sext a) + sext b)"

definition get16 :: "bytes \<Rightarrow> u32 \<Rightarrow> u16 option" where
  "get16 data pos = do { a \<leftarrow> rd8 data (unat pos); b \<leftarrow> rd8 data (unat (pos + 1)); Some (signed16 a b) }"

text \<open>A pointer byte, and where the pointer at \<open>pos\<close> leads.\<close>

definition is_pointer :: "u8 \<Rightarrow> bool" where
  "is_pointer c \<longleftrightarrow> c AND 0xC0 = 0xC0"

definition pointer_target :: "u32 \<Rightarrow> u8 \<Rightarrow> u8 \<Rightarrow> u32" where
  "pointer_target id_pos c d = id_pos + push_bit 8 (ucast (c AND 0x3F)) + sext d"

text \<open>
  The first loop of \<open>readRRname\<close>: \<open>left\<close> is \<open>datalen * 2 - steps\<close>. \<open>ScanNull\<close> is the
  \<open>return 0\<close> inside the loop.
\<close>

datatype scan_result = ScanFault | ScanNull | ScanDone (scan_pos: u32) (scan_next: u32) (scan_end: u32) (scan_len: nat) (scan_left: nat)

fun name_scan :: "bytes \<Rightarrow> u32 \<Rightarrow> int \<Rightarrow> nat \<Rightarrow> u32 \<Rightarrow> u32 \<Rightarrow> u32 \<Rightarrow> nat \<Rightarrow> scan_result" where
  "name_scan data id_pos datalen left pos nxt end_pos name_len =
     (if \<not> pos < word_of_int datalen then ScanDone pos nxt end_pos name_len left
      else case rd8 data (unat pos) of None \<Rightarrow> ScanFault | Some c \<Rightarrow>
        if nxt = pos \<and> c = 0 then ScanDone pos nxt end_pos name_len left
        else case left of 0 \<Rightarrow> ScanDone pos nxt end_pos name_len left | Suc left' \<Rightarrow>
          if nxt = pos then
            if is_pointer c then
              if \<not> pos + 1 < word_of_int datalen then ScanNull
              else (case rd8 data (unat (pos + 1)) of None \<Rightarrow> ScanFault | Some d \<Rightarrow>
                let target = pointer_target id_pos c d
                in name_scan data id_pos datalen left' target target (if end_pos = 0 then pos + 1 else end_pos) name_len)
            else name_scan data id_pos datalen left' (pos + 1) (nxt + sext c + 1) end_pos (name_len + 1)
          else name_scan data id_pos datalen left' (pos + 1) nxt end_pos
                 (name_len + (if 0x21 \<le> c \<and> c \<le> 0x7A \<and> c \<noteq> 0x5C then 1 else 4)))"

declare name_scan.simps [simp del]

text \<open>The escape of a byte that is not printed, \<open>\\xhh\<close>.\<close>

definition hex_digit :: "u8 \<Rightarrow> u8" where
  "hex_digit n = (if n + 0x30 > 0x39 then n + 0x30 + 0x27 else n + 0x30)"

definition name_char :: "u8 \<Rightarrow> bytes" where
  "name_char c = (if 0x21 \<le> c \<and> c \<le> 0x7E \<and> c \<noteq> 0x5C then [c]
                  else [0x5C, 0x78, hex_digit (c div 16), hex_digit (c mod 16)])"

text \<open>
  The second loop, which has no bound of its own: not returning is \<open>None\<close>, a read outside
  the datagram is \<open>Some None\<close>. \<open>name\<close> holds the bytes written so far.
\<close>

partial_function (option) name_copy :: "bytes \<Rightarrow> u32 \<Rightarrow> u32 \<Rightarrow> u32 \<Rightarrow> bytes \<Rightarrow> bytes option option" where
  "name_copy data id_pos pos nxt name = (case rd8 data (unat pos) of
     None \<Rightarrow> Some None
   | Some c \<Rightarrow>
       if nxt = pos \<and> c = 0 then Some (Some name)
       else if pos = nxt then
         if is_pointer c then (case rd8 data (unat (pos + 1)) of
             None \<Rightarrow> Some None
           | Some d \<Rightarrow> let target = pointer_target id_pos c d in name_copy data id_pos target target name)
         else name_copy data id_pos (pos + 1) (pos + sext c + 1) (if name = [] then name else name @ [0x2E])
       else name_copy data id_pos (pos + 1) nxt (name @ name_char c))"

text \<open>
  \<open>readRRname\<close>: the result is the name (\<open>None\<close> for \<open>NULL\<close>) with the size of its buffer, and
  the position behind it. Outer \<open>None\<close>: undefined behaviour or no return.
\<close>

definition readRRname :: "bytes \<Rightarrow> u32 \<Rightarrow> u32 \<Rightarrow> int \<Rightarrow> ((bytes \<times> nat) option \<times> u32) option" where
  "readRRname data now_pos id_pos datalen =
     (case name_scan data id_pos datalen (unat (word_of_int (datalen * 2) :: u32)) now_pos now_pos 0 0 of
        ScanFault \<Rightarrow> None
      | ScanNull \<Rightarrow> Some (None, now_pos)
      | ScanDone pos nxt end_pos name_len left \<Rightarrow>
          (let end_pos = (if end_pos = 0 then pos else end_pos)
           in if left = 0 \<or> \<not> pos < word_of_int datalen then Some (None, now_pos)
              else case name_copy data id_pos now_pos now_pos [] of
                Some (Some name) \<Rightarrow> Some (Some (name, name_len + 1), end_pos + 1)
              | _ \<Rightarrow> None))"

section \<open>Sections of a message\<close>

definition cstring_of :: "(bytes \<times> nat) option \<Rightarrow> cstring" where
  "cstring_of r = (case r of None \<Rightarrow> Null | Some (name, n) \<Rightarrow> Text name)"

text \<open>\<open>parserQuestions\<close>: \<open>start_pos\<close> is the base of compressed names; \<open>n\<close> questions are left.\<close>

fun question_loop :: "bytes \<Rightarrow> u32 \<Rightarrow> int \<Rightarrow> nat \<Rightarrow> u32 \<Rightarrow> DnsInfo \<Rightarrow> (u32 \<times> DnsInfo) option" where
  "question_loop data start_pos datalen 0 pos info = Some (pos, info)"
| "question_loop data start_pos datalen (Suc n) pos info = do {
     (r, pos) \<leftarrow> readRRname data pos start_pos datalen;
     let info = info\<lparr>d_name := cstring_of r\<rparr>;
     case r of None \<Rightarrow> Some (0, info)
     | Some (name, k) \<Rightarrow>
         if \<not> pos + 2 < word_of_int datalen then Some (0, info)
         else do {
           t \<leftarrow> get16 data pos;
           c \<leftarrow> get16 data (pos + 2);
           question_loop data start_pos datalen n (pos + 4)
             (info\<lparr>d_queries := d_queries info @ [\<lparr>q_name = name, q_type = t, q_cls = c\<rparr>]\<rparr>) } }"

definition parserQuestions :: "bytes \<Rightarrow> u32 \<Rightarrow> u16 \<Rightarrow> DnsInfo \<Rightarrow> int \<Rightarrow> (u32 \<times> DnsInfo) option" where
  "parserQuestions data pos count info datalen = question_loop data pos datalen (unat count) pos info"

text \<open>\<open>A\<close>: the four bytes in decimal, \<open>NULL\<close> when the length is not 4.\<close>

definition dec_bytes :: "u8 \<Rightarrow> bytes" where
  "dec_bytes b = map (\<lambda>c. of_nat (of_char c)) (dec_nat (unat b))"

definition A :: "bytes \<Rightarrow> u32 \<Rightarrow> u16 \<Rightarrow> cstring option" where
  "A packet pos rdlength = (if rdlength \<noteq> 4 then Some Null else do {
     a \<leftarrow> rd8 packet (unat pos); b \<leftarrow> rd8 packet (unat (pos + 1));
     c \<leftarrow> rd8 packet (unat (pos + 2)); d \<leftarrow> rd8 packet (unat (pos + 3));
     Some (Text (dec_bytes a @ [0x2E] @ dec_bytes b @ [0x2E] @ dec_bytes c @ [0x2E] @ dec_bytes d)) })"

text \<open>The loop that shifts four bytes into the 16-bit \<open>ttl\<close>.\<close>

fun ttl_loop :: "bytes \<Rightarrow> u32 \<Rightarrow> nat \<Rightarrow> u16 \<Rightarrow> u16 option" where
  "ttl_loop data pos 0 ttl = Some ttl"
| "ttl_loop data pos (Suc n) ttl = do {
     b \<leftarrow> rd8 data (unat pos);
     ttl_loop data (pos + 1) n (push_bit 8 ttl + scast b) }"

text \<open>
  \<open>parseRR\<close>. The comparison \<open>(datalen - pos) < 10\<close> is one of unsigned words, so it lets every
  \<open>pos\<close> behind the end pass.
\<close>

definition parseRR_name :: "bytes \<Rightarrow> u32 \<Rightarrow> cstring \<Rightarrow> int \<Rightarrow> (cstring \<times> u32) option" where
  "parseRR_name data pos name datalen = (case name of
     Unset \<Rightarrow> None
   | Null \<Rightarrow> map_option (\<lambda>(r, p). (cstring_of r, p)) (readRRname data pos pos datalen)
   | Text t \<Rightarrow> Some (Text t, pos + 2))"

definition parseRR :: "bytes \<Rightarrow> u32 \<Rightarrow> DnsRR \<Rightarrow> int \<Rightarrow> (u32 \<times> DnsRR) option" where
  "parseRR data rr_start rr datalen = do {
     (name, pos) \<leftarrow> parseRR_name data rr_start (rr_name rr) datalen;
     let rr = rr\<lparr>rr_name := name, rr_data := Null\<rparr>;
     if name = Null then Some (0, rr\<lparr>rr_type := 0, rr_cls := 0, rr_ttl := 0\<rparr>)
     else if word_of_int datalen - pos < 10 then Some (0, rr)
     else do {
       t \<leftarrow> get16 data pos;
       rdlength \<leftarrow> get16 data (pos + 8);
       let rr = rr\<lparr>rr_type := t, rr_rdlength := rdlength\<rparr>;
       (rr, pos) \<leftarrow> (if t = 41 then Some (rr\<lparr>rr_cls := 0, rr_ttl := 0\<rparr>, pos + 2)
         else do {
           c \<leftarrow> get16 data (pos + 2);
           ttl \<leftarrow> ttl_loop data (pos + 4) 4 0;
           Some (rr\<lparr>rr_cls := c, rr_ttl := ttl\<rparr>, pos + 10) });
       if word_of_int datalen < rr_start + 10 + ucast rdlength then Some (0, rr)
       else if t = 1 then do {
         d \<leftarrow> A data pos rdlength;
         Some (pos + ucast rdlength, rr\<lparr>rr_data := d\<rparr>) }
       else Some (pos + ucast rdlength, rr) } }"

fun rr_loop :: "bytes \<Rightarrow> int \<Rightarrow> nat \<Rightarrow> u32 \<Rightarrow> DnsRR \<Rightarrow> DnsInfo \<Rightarrow> (u32 \<times> DnsInfo) option" where
  "rr_loop data datalen 0 pos current info = Some (pos, info)"
| "rr_loop data datalen (Suc n) pos current info = do {
     (pos, current) \<leftarrow> parseRR data pos (current\<lparr>rr_data := Null\<rparr>) datalen;
     if pos = 0 then Some (0, info)
     else rr_loop data datalen n pos current
            (if rr_type current = 1 then info\<lparr>d_answers := d_answers info @ [current]\<rparr> else info) }"

definition parseRRset :: "DnsRR \<Rightarrow> bytes \<Rightarrow> u32 \<Rightarrow> u16 \<Rightarrow> DnsInfo \<Rightarrow> int \<Rightarrow> (u32 \<times> DnsInfo) option" where
  "parseRRset junk data pos count info datalen =
     rr_loop data datalen (unat count) pos (junk\<lparr>rr_data := Null, rr_name := d_name info\<rparr>) info"

section \<open>Messages\<close>

datatype dns_event = Request DnsRequest | Response DnsResponse

text \<open>
  The header fields. The value of \<open>id\<close>, which the code computes as \<open>data[0] << (8 + data[1])\<close>,
  a shift by an arbitrary amount, is stored and never read; it is left out.
\<close>

definition parse_header :: "bytes \<Rightarrow> DnsInfo option" where
  "parse_header data = do {
     b \<leftarrow> rd8 data 2; f \<leftarrow> rd8 data 3;
     q \<leftarrow> get16 data 4; a \<leftarrow> get16 data 6; n \<leftarrow> get16 data 8; r \<leftarrow> get16 data 10;
     Some \<lparr>d_name = Unset, d_qr = signed_drop_bit 7 b, d_AA = drop_bit 2 (b AND 4), d_TC = drop_bit 1 (b AND 2),
       d_rcode = f AND 0x0F, d_qdcount = q, d_ancount = a, d_nscount = n, d_arcount = r, d_queries = [], d_answers = []\<rparr> }"

text \<open>The loop over the answers: \<open>assign(res.data, strlen(res.data))\<close> needs both pointers.\<close>

fun copy_answers :: "tuple4 \<Rightarrow> timeval \<Rightarrow> DnsRR list \<Rightarrow> DnsResponse \<Rightarrow> DnsResponse option" where
  "copy_answers t4 ts [] r = Some r"
| "copy_answers t4 ts (rr # rrs) r = (case (rr_name rr, rr_data rr) of
     (Text name, Text d) \<Rightarrow> copy_answers t4 ts rrs
       \<lparr>rs_timeStamp = ts, rs_srcip = saddr t4, rs_dstip = daddr t4, Rname = name, Rtype = rr_type rr,
        Rclass = rr_cls rr, rs_ttl = uint (rr_ttl rr), rs_result = d\<rparr>
   | _ \<Rightarrow> None)"

fun copy_queries :: "tuple4 \<Rightarrow> timeval \<Rightarrow> DnsQuestion list \<Rightarrow> DnsRequest \<Rightarrow> DnsRequest" where
  "copy_queries t4 ts [] r = r"
| "copy_queries t4 ts (q # qs) r = copy_queries t4 ts qs
     (r\<lparr>Qname := q_name q, Qtype := q_cls q, rq_srcip := saddr t4, rq_dstip := daddr t4, rq_timeStamp := ts\<rparr>)"

text \<open>
  The two branches of \<open>processDns\<close>. \<open>jr\<close>, \<open>jq\<close> and \<open>js\<close> are the contents of the uninitialised
  locals \<open>current\<close>, \<open>dnsRequest\<close> and \<open>dnsResponse\<close>; their strings are constructed empty.
\<close>

definition dns_response ::
  "DnsRR \<Rightarrow> DnsResponse \<Rightarrow> tuple4 \<Rightarrow> bytes \<Rightarrow> int \<Rightarrow> timeval \<Rightarrow> DnsParser \<Rightarrow> (u32 \<times> dns_event list \<times> DnsParser) option" where
  "dns_response jr js t4 data datalen ts p =
     (if datalen < 12 then Some (0, [], p)
      else do {
        dns \<leftarrow> parse_header data;
        if d_rcode dns > 5 then Some (12, [], p)
        else do {
          (pos, dns) \<leftarrow> parserQuestions data 12 (d_qdcount dns) dns datalen;
          (pos, dns) \<leftarrow> (if pos \<noteq> 0 then parseRRset jr data pos (d_ancount dns) dns datalen
                        else Some (pos, dns\<lparr>d_answers := []\<rparr>));
          r \<leftarrow> copy_answers t4 ts (d_answers dns) (js\<lparr>Rname := [], rs_result := []\<rparr>);
          Some (pos, if Rname r = [] then [] else [Response r], p\<lparr>numResponse := numResponse p + 1\<rparr>) } })"

definition dns_request ::
  "DnsRequest \<Rightarrow> tuple4 \<Rightarrow> bytes \<Rightarrow> int \<Rightarrow> timeval \<Rightarrow> DnsParser \<Rightarrow> (u32 \<times> dns_event list \<times> DnsParser) option" where
  "dns_request jq t4 data datalen ts p =
     (if datalen < 12 then Some (0, [], p)
      else do {
        dns \<leftarrow> parse_header data;
        if d_rcode dns > 5 then Some (12, [], p)
        else do {
          (pos, dns) \<leftarrow> parserQuestions data 12 (d_qdcount dns) dns datalen;
          Some (pos, [Request (copy_queries t4 ts (d_queries dns) (jq\<lparr>Qname := []\<rparr>))],
                p\<lparr>numRequest := numRequest p + 1\<rparr>) } })"

definition processDns ::
  "DnsRR \<Rightarrow> DnsRequest \<Rightarrow> DnsResponse \<Rightarrow> tuple4 \<Rightarrow> bytes \<Rightarrow> int \<Rightarrow> timeval \<Rightarrow> DnsParser \<Rightarrow>
   (u32 \<times> dns_event list \<times> DnsParser) option" where
  "processDns jr jq js t4 data datalen ts p =
     (let p = p\<lparr>numUdp := numUdp p + 1\<rparr>
      in if source t4 = 53 then dns_response jr js t4 data datalen ts p
         else if dest t4 = 53 then dns_request jq t4 data datalen ts p
         else Some (0, [], p))"

section \<open>Text output\<close>

definition as_text :: "bytes \<Rightarrow> string" where
  "as_text = map (\<lambda>b. char_of (unat b))"

definition request_to_string :: "DnsRequest \<Rightarrow> string" where
  "request_to_string r = tab_join [dec_int (tv_sec (rq_timeStamp r)), inet_ntop (rq_srcip r), inet_ntop (rq_dstip r),
     as_text (Qname r), dec_nat (unat (Qclass r)), dec_nat (unat (Qtype r))]"

definition response_to_string :: "DnsResponse \<Rightarrow> string" where
  "response_to_string r = tab_join [dec_int (tv_sec (rs_timeStamp r)), inet_ntop (rs_srcip r), inet_ntop (rs_dstip r),
     as_text (Rname r), dec_nat (unat (Rclass r)), dec_nat (unat (Rtype r)), dec_int (rs_ttl r), as_text (rs_result r)]"

section \<open>Names are safe\<close>

text \<open>The datagram is in the buffer, and short enough for 32-bit positions.\<close>

definition fits :: "bytes \<Rightarrow> int \<Rightarrow> bool" where
  "fits data datalen \<longleftrightarrow> 0 \<le> datalen \<and> datalen \<le> int (length data) \<and> datalen < 2 ^ 30"

lemma below_datalen:
  fixes pos :: u32
  assumes "fits data datalen" and "pos < word_of_int datalen"
  shows "unat pos < length data" "unat pos < nat datalen"
proof -
  have "unat (word_of_int datalen :: u32) = nat datalen"
    using assms(1) by (intro unat_of_int_small) (auto simp: fits_def)
  then show "unat pos < nat datalen"
    using assms(2) unfolding word_less_nat_alt by simp
  moreover have "nat datalen \<le> length data"
    using assms(1) by (simp add: fits_def nat_le_iff)
  ultimately show "unat pos < length data"
    by linarith
qed

text \<open>A scan that found the end of the name with steps to spare.\<close>

definition found_end :: "bytes \<Rightarrow> int \<Rightarrow> scan_result \<Rightarrow> bool" where
  "found_end data datalen r \<longleftrightarrow> (case r of
     ScanDone p n e l left \<Rightarrow> 0 < left \<and> p < word_of_int datalen | _ \<Rightarrow> False)"

lemma length_name_char: "length (name_char c) \<le> (if 0x21 \<le> c \<and> c \<le> 0x7A \<and> c \<noteq> 0x5C then 1 else 4)"
proof (cases "0x21 \<le> c \<and> c \<le> 0x7A \<and> c \<noteq> 0x5C")
  case True
  moreover from this have "c \<le> 0x7E"
    by (auto intro: order_trans[of c "0x7A"])
  ultimately show ?thesis by (simp add: name_char_def)
qed (simp add: name_char_def)

text \<open>One step of the two loops, by what is at \<open>pos\<close>.\<close>

lemma scan_steps:
  assumes "pos < word_of_int datalen" and "rd8 data (unat pos) = Some c"
  shows "nxt = pos \<and> c = 0 \<Longrightarrow> name_scan data id_pos datalen left pos nxt ep nl = ScanDone pos nxt ep nl left"
    and "\<not> (nxt = pos \<and> c = 0) \<Longrightarrow> name_scan data id_pos datalen 0 pos nxt ep nl = ScanDone pos nxt ep nl 0"
    and "\<lbrakk>nxt = pos; is_pointer c; \<not> pos + 1 < word_of_int datalen; c \<noteq> 0\<rbrakk> \<Longrightarrow>
      name_scan data id_pos datalen (Suc left) pos nxt ep nl = ScanNull"
    and "\<lbrakk>nxt = pos; is_pointer c; pos + 1 < word_of_int datalen; rd8 data (unat (pos + 1)) = Some d; c \<noteq> 0\<rbrakk> \<Longrightarrow>
      name_scan data id_pos datalen (Suc left) pos nxt ep nl =
      name_scan data id_pos datalen left (pointer_target id_pos c d) (pointer_target id_pos c d) (if ep = 0 then pos + 1 else ep) nl"
    and "\<lbrakk>nxt = pos; \<not> is_pointer c; c \<noteq> 0\<rbrakk> \<Longrightarrow>
      name_scan data id_pos datalen (Suc left) pos nxt ep nl =
      name_scan data id_pos datalen left (pos + 1) (pos + sext c + 1) ep (nl + 1)"
    and "nxt \<noteq> pos \<Longrightarrow>
      name_scan data id_pos datalen (Suc left) pos nxt ep nl =
      name_scan data id_pos datalen left (pos + 1) nxt ep (nl + (if 0x21 \<le> c \<and> c \<le> 0x7A \<and> c \<noteq> 0x5C then 1 else 4))"
  using assms by (simp_all add: name_scan.simps[of data id_pos datalen _ pos] Let_def)

lemma name_scan_no_fault:
  assumes fits: "fits data datalen"
  shows "name_scan data id_pos datalen left pos nxt ep nl \<noteq> ScanFault"
proof (induction left arbitrary: pos nxt ep nl)
  case (0 pos nxt ep nl)
  then show ?case
    using below_datalen(1)[OF fits, of pos] by (subst name_scan.simps) auto
next
  case (Suc left pos nxt ep nl)
  show ?case
  proof (cases "pos < word_of_int datalen")
    case False
    then show ?thesis by (subst name_scan.simps) simp
  next
    case True
    obtain c where rd: "rd8 data (unat pos) = Some c"
      using below_datalen(1)[OF fits True] by simp
    note scan = scan_steps[OF True rd]
    consider "nxt = pos" "c = 0" | "nxt = pos" "c \<noteq> 0" "is_pointer c" "\<not> pos + 1 < word_of_int datalen"
      | (pointer) "nxt = pos" "c \<noteq> 0" "is_pointer c" "pos + 1 < word_of_int datalen"
      | "nxt = pos" "c \<noteq> 0" "\<not> is_pointer c" | "nxt \<noteq> pos" by blast
    then show ?thesis
    proof cases
      case pointer
      then obtain d where "rd8 data (unat (pos + 1)) = Some d"
        using below_datalen(1)[OF fits pointer(4)] by simp
      with pointer show ?thesis by (simp add: scan(4) Suc.IH)
    qed (simp_all add: scan Suc.IH)
  qed
qed

lemma copy_steps:
  assumes "rd8 data (unat pos) = Some c"
  shows "nxt = pos \<and> c = 0 \<Longrightarrow> name_copy data id_pos pos nxt name = Some (Some name)"
    and "\<lbrakk>nxt = pos; is_pointer c; rd8 data (unat (pos + 1)) = Some d; c \<noteq> 0\<rbrakk> \<Longrightarrow>
      name_copy data id_pos pos nxt name = name_copy data id_pos (pointer_target id_pos c d) (pointer_target id_pos c d) name"
    and "\<lbrakk>nxt = pos; \<not> is_pointer c; c \<noteq> 0\<rbrakk> \<Longrightarrow>
      name_copy data id_pos pos nxt name =
      name_copy data id_pos (pos + 1) (pos + sext c + 1) (if name = [] then name else name @ [0x2E])"
    and "nxt \<noteq> pos \<Longrightarrow> name_copy data id_pos pos nxt name = name_copy data id_pos (pos + 1) nxt (name @ name_char c)"
  using assms by (simp_all add: name_copy.simps[of data id_pos pos] Let_def)

lemma name_copy_follows_scan:
  assumes fits: "fits data datalen"
  shows "found_end data datalen (name_scan data id_pos datalen left pos nxt ep nl) \<Longrightarrow>
    \<exists>s. name_copy data id_pos pos nxt name = Some (Some (name @ s)) \<and>
        nl + length s \<le> scan_len (name_scan data id_pos datalen left pos nxt ep nl)"
proof (induction left arbitrary: pos nxt ep nl name)
  case (0 pos nxt ep nl name)
  then show ?case
    by (subst (asm) name_scan.simps) (auto simp: found_end_def split: if_splits option.splits)
next
  case (Suc left pos nxt ep nl name)
  have in_range: "pos < word_of_int datalen"
    using Suc.prems by (subst (asm) name_scan.simps) (auto simp: found_end_def split: if_splits)
  obtain c where rd: "rd8 data (unat pos) = Some c"
    using below_datalen(1)[OF fits in_range] by simp
  note scan = scan_steps[OF in_range rd] and copy = copy_steps[OF rd]
  consider (finish) "nxt = pos" "c = 0" | (pointer) "nxt = pos" "c \<noteq> 0" "is_pointer c"
    | (label) "nxt = pos" "c \<noteq> 0" "\<not> is_pointer c" | (inside) "nxt \<noteq> pos" by blast
  then show ?case
  proof cases
    case finish
    then show ?thesis by (simp add: scan copy)
  next
    case pointer
    have second: "pos + 1 < word_of_int datalen"
      using Suc.prems pointer by (rule_tac ccontr) (simp add: scan(3) found_end_def)
    then obtain d where rd': "rd8 data (unat (pos + 1)) = Some d"
      using below_datalen(1)[OF fits second] by simp
    from Suc.IH[of "pointer_target id_pos c d" "pointer_target id_pos c d" "if ep = 0 then pos + 1 else ep" nl name]
    show ?thesis
      using Suc.prems unfolding scan(4)[OF pointer(1,3) second rd' pointer(2)] copy(2)[OF pointer(1,3) rd' pointer(2)] .
  next
    case label
    obtain s where "name_copy data id_pos (pos + 1) (pos + sext c + 1) (if name = [] then name else name @ [0x2E]) =
        Some (Some ((if name = [] then name else name @ [0x2E]) @ s))"
      "nl + 1 + length s \<le> scan_len (name_scan data id_pos datalen left (pos + 1) (pos + sext c + 1) ep (nl + 1))"
      using Suc.IH[of "pos + 1" "pos + sext c + 1" ep "nl + 1" "if name = [] then name else name @ [0x2E]"]
        Suc.prems unfolding scan(5)[OF label(1,3,2)] by blast
    then show ?thesis
      unfolding scan(5)[OF label(1,3,2)] copy(3)[OF label(1,3,2)]
      by (intro exI[of _ "(if name = [] then [] else [0x2E]) @ s"]) simp
  next
    case inside
    let ?k = "if 0x21 \<le> c \<and> c \<le> 0x7A \<and> c \<noteq> 0x5C then 1 else 4 :: nat"
    obtain s where "name_copy data id_pos (pos + 1) nxt (name @ name_char c) = Some (Some ((name @ name_char c) @ s))"
      "nl + ?k + length s \<le> scan_len (name_scan data id_pos datalen left (pos + 1) nxt ep (nl + ?k))"
      using Suc.IH[of "pos + 1" nxt ep "nl + ?k" "name @ name_char c"] Suc.prems
      unfolding scan(6)[OF inside] by blast
    then show ?thesis
      unfolding scan(6)[OF inside] copy(4)[OF inside]
      using length_name_char[of c] by (intro exI[of _ "name_char c @ s"]) simp
  qed
qed

text \<open>So \<open>readRRname\<close> is defined, ends, and its buffer holds the name and the final NUL.\<close>

lemma readRRname_defined:
  assumes "fits data datalen"
  shows "\<exists>r p. readRRname data now_pos id_pos datalen = Some (r, p) \<and>
    (case r of None \<Rightarrow> p = now_pos | Some (name, n) \<Rightarrow> length name + 1 \<le> n)"
proof (cases "name_scan data id_pos datalen (unat (word_of_int (datalen * 2) :: u32)) now_pos now_pos 0 0")
  case ScanFault
  then show ?thesis using name_scan_no_fault[OF assms] by simp
next
  case ScanNull
  then show ?thesis by (simp add: readRRname_def)
next
  case (ScanDone p n e l left)
  show ?thesis
  proof (cases "left = 0 \<or> \<not> p < word_of_int datalen")
    case True
    then show ?thesis using ScanDone by (auto simp: readRRname_def Let_def)
  next
    case False
    with ScanDone name_copy_follows_scan[OF assms, of id_pos "unat (word_of_int (datalen * 2) :: u32)" now_pos now_pos 0 0 "[]"]
    obtain s where "name_copy data id_pos now_pos now_pos [] = Some (Some s)" "length s \<le> l"
      by (auto simp: found_end_def)
    with False ScanDone show ?thesis by (auto simp: readRRname_def Let_def)
  qed
qed

section \<open>Reading an encoded name\<close>

text \<open>A name on the wire: each label behind its length, ended by a zero.\<close>

fun encode_name :: "bytes list \<Rightarrow> bytes" where
  "encode_name [] = [0]"
| "encode_name (l # ls) = of_nat (length l) # l @ encode_name ls"

fun dotted :: "bytes list \<Rightarrow> bytes" where
  "dotted [] = []"
| "dotted [l] = l"
| "dotted (l # l' # ls) = l @ 0x2E # dotted (l' # ls)"

definition printable :: "u8 \<Rightarrow> bool" where
  "printable c \<longleftrightarrow> 0x21 \<le> c \<and> c \<le> 0x7E \<and> c \<noteq> 0x5C"

definition label_ok :: "bytes \<Rightarrow> bool" where
  "label_ok l \<longleftrightarrow> l \<noteq> [] \<and> length l \<le> 63 \<and> (\<forall>c \<in> set l. printable c)"

lemma of_nat_below:
  assumes "n < 2 ^ 30" and "i < 2 ^ 31"
  shows "(of_nat i :: u32) < word_of_int (int n) \<longleftrightarrow> i < n"
proof -
  have "unat (of_nat i :: u32) = i" "unat (of_nat n :: u32) = n"
    using assms by (simp_all add: unsigned_of_nat take_bit_nat_eq_self_iff)
  then show ?thesis
    by (simp add: word_less_nat_alt)
qed

lemma of_nat_eq_small: "\<lbrakk>i < 2 ^ 31; j < 2 ^ 31\<rbrakk> \<Longrightarrow> (of_nat i :: u32) = of_nat j \<longleftrightarrow> i = j"
  by (simp add: word_unat_eq_iff unsigned_of_nat take_bit_nat_eq_self)

lemma sext_small: "k < 128 \<Longrightarrow> sext (of_nat k) = of_nat k"
  by (simp add: sext_def signed_of_nat signed_take_bit_int_eq_self)

lemma rd8_at:
  assumes "data = pre @ c # post" and "length data < 2 ^ 30"
  shows "rd8 data (unat (of_nat (length pre) :: u32)) = Some c"
    and "(of_nat (length pre) :: u32) < word_of_int (int (length data))"
proof -
  show "rd8 data (unat (of_nat (length pre) :: u32)) = Some c"
    using assms by (simp add: unsigned_of_nat take_bit_nat_eq_self)
  show "(of_nat (length pre) :: u32) < word_of_int (int (length data))"
    using assms by (subst of_nat_below) auto
qed

lemma name_char_printable [simp]: "printable c \<Longrightarrow> name_char c = [c]"
  by (simp add: printable_def name_char_def)

lemma walk_label:
  assumes "data = pre @ xs @ post" and "length data < 2 ^ 30" and "\<forall>c \<in> set xs. printable c"
  shows "\<exists>nl'. name_scan data id_pos (int (length data)) (length xs + left) (of_nat (length pre))
      (of_nat (length pre + length xs)) ep nl =
      name_scan data id_pos (int (length data)) left (of_nat (length pre + length xs)) (of_nat (length pre + length xs)) ep nl'"
    and "name_copy data id_pos (of_nat (length pre)) (of_nat (length pre + length xs)) name =
      name_copy data id_pos (of_nat (length pre + length xs)) (of_nat (length pre + length xs)) (name @ xs)"
  using assms
proof (induction xs arbitrary: pre nl name)
  case Nil
  case 1 show ?case by auto
  case 2 show ?case by simp
next
  case (Cons c xs)
  {
    case 1
    then have d: "data = pre @ c # (xs @ post)" by simp
    note rd = rd8_at[OF d 1(2)]
    have neq: "(of_nat (length pre + length (c # xs)) :: u32) \<noteq> of_nat (length pre)"
      using 1 by (subst of_nat_eq_small) auto
    from Cons.IH(1)[of "pre @ [c]" "nl + (if 0x21 \<le> c \<and> c \<le> 0x7A \<and> c \<noteq> 0x5C then 1 else 4)"] 1 show ?case
      using scan_steps(6)[OF rd(2,1) neq, of id_pos "length xs + left" ep nl] by (simp add: add.commute)
  next
    case 2
    then have d: "data = pre @ c # (xs @ post)" by simp
    note rd = rd8_at[OF d 2(2)]
    have neq: "(of_nat (length pre + length (c # xs)) :: u32) \<noteq> of_nat (length pre)"
      using 2 by (subst of_nat_eq_small) auto
    from Cons.IH(2)[of "pre @ [c]" "name @ [c]"] 2 show ?case
      using copy_steps(4)[OF rd(1) neq, of id_pos name] by (simp add: add.commute)
  }
qed

lemma length_byte:
  assumes "label_ok l"
  shows "(of_nat (length l) :: u8) \<noteq> 0" "\<not> is_pointer (of_nat (length l))" "sext (of_nat (length l)) = of_nat (length l)"
proof -
  have l: "0 < length l" "length l < 64"
    using assms by (auto simp: label_ok_def)
  have u: "unat (of_nat (length l) :: u8) = length l"
    using l by (simp add: unsigned_of_nat take_bit_nat_eq_self)
  with l show "(of_nat (length l) :: u8) \<noteq> 0"
    by (metis less_not_refl unat_0)
  show "\<not> is_pointer (of_nat (length l))"
  proof
    assume "is_pointer (of_nat (length l))"
    then have "(0xC0 :: u8) \<le> of_nat (length l)"
      by (metis is_pointer_def word_and_le2)
    with u l show False by (simp add: word_le_nat_alt)
  qed
  show "sext (of_nat (length l)) = of_nat (length l)"
    using l by (simp add: sext_small)
qed

fun continue_name :: "bytes \<Rightarrow> bytes list \<Rightarrow> bytes" where
  "continue_name name [] = name"
| "continue_name name (l # ls) = continue_name ((if name = [] then [] else name @ [0x2E]) @ l) ls"

lemma continue_name_append: "name \<noteq> [] \<Longrightarrow> continue_name name ls = name @ concat (map (\<lambda>l. 0x2E # l) ls)"
  by (induction ls arbitrary: name) auto

lemma dotted_Cons: "dotted (l # ls) = l @ concat (map (\<lambda>l. 0x2E # l) ls)"
  by (induction ls arbitrary: l) auto

lemma continue_name_dotted: "\<forall>l \<in> set ls. l \<noteq> [] \<Longrightarrow> continue_name [] ls = dotted ls"
  by (cases ls) (auto simp: continue_name_append dotted_Cons)

lemma walk_name:
  assumes "data = pre @ encode_name ls @ post" and "length data < 2 ^ 30" and "\<forall>l \<in> set ls. label_ok l"
    and "length (encode_name ls) \<le> left"
  shows "\<exists>nl' left'. 0 < left' \<and> name_scan data id_pos (int (length data)) left (of_nat (length pre)) (of_nat (length pre)) 0 nl =
      ScanDone (of_nat (length pre + length (encode_name ls) - 1)) (of_nat (length pre + length (encode_name ls) - 1)) 0 nl' left'"
    and "name_copy data id_pos (of_nat (length pre)) (of_nat (length pre)) name = Some (Some (continue_name name ls))"
  using assms
proof (induction ls arbitrary: pre left nl name)
  case Nil
  {
    case 1
    then have "data = pre @ 0 # post" by simp
    from rd8_at[OF this 1(2)] 1(4) show ?case
      by (auto simp: scan_steps(1))
  next
    case 2
    then have "data = pre @ 0 # post" by simp
    from rd8_at[OF this 2(2)] show ?case
      by (simp add: copy_steps(1))
  }
next
  case (Cons l ls)
  {
    case 1
    then have d: "data = pre @ of_nat (length l) # (l @ encode_name ls @ post)"
      and d': "data = (pre @ [of_nat (length l)]) @ l @ (encode_name ls @ post)"
      and d'': "data = (pre @ of_nat (length l) # l) @ encode_name ls @ post" and l: "label_ok l" by auto
    note rd = rd8_at[OF d 1(2)] and b = length_byte[OF l]
    obtain k where k: "left = Suc (length l + k)" "length (encode_name ls) \<le> k"
      using 1(4) by (intro that[of "left - Suc (length l)"]) auto
    obtain nl' where nl': "name_scan data id_pos (int (length data)) left (of_nat (length pre)) (of_nat (length pre)) 0 nl =
        name_scan data id_pos (int (length data)) k (of_nat (length (pre @ of_nat (length l) # l))) (of_nat (length (pre @ of_nat (length l) # l))) 0 nl'"
      using walk_label(1)[OF d' 1(2), of id_pos k 0 "nl + 1"] l
        scan_steps(5)[OF rd(2,1) refl b(2,1), of id_pos "length l + k" 0 nl] b(3) k(1)
      by (auto simp: label_ok_def add_ac)
    show ?case
      using Cons.IH(1)[OF d'' 1(2) _ k(2), of nl'] 1(3) unfolding nl' by (simp add: add_ac)
  next
    case 2
    then have d: "data = pre @ of_nat (length l) # (l @ encode_name ls @ post)"
      and d': "data = (pre @ [of_nat (length l)]) @ l @ (encode_name ls @ post)"
      and d'': "data = (pre @ of_nat (length l) # l) @ encode_name ls @ post" and l: "label_ok l" by auto
    note rd = rd8_at[OF d 2(2)] and b = length_byte[OF l]
    have "name_copy data id_pos (of_nat (length pre)) (of_nat (length pre)) name =
        name_copy data id_pos (of_nat (length (pre @ of_nat (length l) # l))) (of_nat (length (pre @ of_nat (length l) # l)))
          ((if name = [] then [] else name @ [0x2E]) @ l)"
      using walk_label(2)[OF d' 2(2), of id_pos "if name = [] then [] else name @ [0x2E]"] l
        copy_steps(3)[OF rd(1) refl b(2,1), of id_pos name] b(3)
      by (auto simp: label_ok_def add_ac)
    with Cons.IH(2)[OF d'' 2(2) _ order_refl, of "(if name = [] then [] else name @ [0x2E]) @ l"] 2(3) show ?case
      by simp
  }
qed

lemma readRRname_encoded:
  assumes "data = pre @ encode_name ls @ post" and "length data < 2 ^ 30" and "\<forall>l \<in> set ls. label_ok l"
  shows "\<exists>n. readRRname data (of_nat (length pre)) id_pos (int (length data)) =
    Some (Some (dotted ls, n), of_nat (length pre + length (encode_name ls)))"
proof -
  have left: "unat (word_of_int (int (length data) * 2) :: u32) = length data * 2"
    using assms(2) by (subst unat_of_int_small) auto
  have e: "0 < length (encode_name ls)"
    by (cases ls) auto
  have in_range: "(of_nat (length pre + length (encode_name ls) - 1) :: u32) < word_of_int (int (length data))"
  proof (subst of_nat_below)
    have "length data = length pre + length (encode_name ls) + length post"
      using assms(1) by simp
    then have "length pre + length (encode_name ls) - 1 < length data"
      using e by linarith
    with assms(2) show "length data < 2 ^ 30" "length pre + length (encode_name ls) - 1 < 2 ^ 31"
      "length pre + length (encode_name ls) - 1 < length data" by simp_all
  qed
  obtain nl' left' where "0 < left'" "name_scan data id_pos (int (length data)) (length data * 2) (of_nat (length pre)) (of_nat (length pre)) 0 0 =
      ScanDone (of_nat (length pre + length (encode_name ls) - 1)) (of_nat (length pre + length (encode_name ls) - 1)) 0 nl' left'"
    using walk_name(1)[OF assms, of "length data * 2" id_pos 0] assms(1) by auto
  moreover have "name_copy data id_pos (of_nat (length pre)) (of_nat (length pre)) [] = Some (Some (dotted ls))"
    using walk_name(2)[OF assms order_refl, of id_pos "[]"] continue_name_dotted[of ls] assms(3) by (auto simp: label_ok_def)
  moreover have "(of_nat (length pre + length (encode_name ls) - 1) :: u32) + 1 = of_nat (length pre + length (encode_name ls))"
    using e by (metis Suc_diff_1 add.commute add_gr_0 of_nat_Suc)
  ultimately show ?thesis
    using in_range left by (simp add: readRRname_def Let_def)
qed

section \<open>Messages on the wire\<close>

lemma unat_of_nat_small: "i < 2 ^ 31 \<Longrightarrow> unat (of_nat i :: u32) = i"
  by (simp add: unsigned_of_nat take_bit_nat_eq_self)

text \<open>A read at a fixed distance behind a prefix of the datagram.\<close>

lemma rd8_behind:
  assumes "data = pre @ xs @ post" and "length data < 2 ^ 30" and "k < length xs"
  shows "rd8 data (unat (of_nat (length pre + k) :: u32)) = Some (xs ! k)"
proof -
  have "length pre + k < length data"
    using assms by simp
  with assms show ?thesis
    by (subst unat_of_nat_small) (auto simp: nth_append)
qed

lemma get16_behind:
  assumes "data = pre @ xs @ post" and "length data < 2 ^ 30" and "k + 1 < length xs"
  shows "get16 data (of_nat (length pre + k)) = Some (signed16 (xs ! k) (xs ! (k + 1)))"
proof -
  have "(of_nat (length pre + k) :: u32) + 1 = of_nat (length pre + (k + 1))"
    by simp
  then show ?thesis
    using rd8_behind[OF assms(1,2), of k] rd8_behind[OF assms(1,2), of "k + 1"] assms(3)
    by (simp add: get16_def del: of_nat_add of_nat_Suc)
qed

lemma question_step:
  assumes "data = pre @ encode_name ls @ [t1, t2, c1, c2] @ post" and "length data < 2 ^ 30"
    and "\<forall>l \<in> set ls. label_ok l"
  shows "question_loop data id_pos (int (length data)) (Suc n) (of_nat (length pre)) info =
    question_loop data id_pos (int (length data)) n (of_nat (length pre + length (encode_name ls) + 4))
      (info\<lparr>d_name := Text (dotted ls),
            d_queries := d_queries info @ [\<lparr>q_name = dotted ls, q_type = signed16 t1 t2, q_cls = signed16 c1 c2\<rparr>]\<rparr>)"
proof -
  let ?p = "length (pre @ encode_name ls)"
  have d: "data = (pre @ encode_name ls) @ [t1, t2, c1, c2] @ post"
    using assms(1) by simp
  obtain k where r: "readRRname data (of_nat (length pre)) id_pos (int (length data)) = Some (Some (dotted ls, k), of_nat ?p)"
    using readRRname_encoded[OF assms(1-3)] by auto
  define q where "q = (of_nat ?p :: u32)"
  have q: "q + 2 = of_nat (?p + 2)" "q + 4 = of_nat (length pre + length (encode_name ls) + 4)"
    by (simp_all add: q_def)
  have "q + 2 < word_of_int (int (length data))"
    unfolding q by (subst of_nat_below) (use d assms(2) in auto)
  moreover have "get16 data q = Some (signed16 t1 t2)"
    using get16_behind[OF d assms(2), of 0] by (simp add: q_def)
  moreover have "get16 data (q + 2) = Some (signed16 c1 c2)"
    unfolding q using get16_behind[OF d assms(2), of 2] by simp
  ultimately show ?thesis
    using r[folded q_def] unfolding q(2)[symmetric] by (simp add: cstring_of_def Let_def)
qed

text \<open>Address records: a two-byte name reference, type 1, class, TTL, length 4, four bytes.\<close>

type_synonym a_record = "(u8 \<times> u8) \<times> (u8 \<times> u8) \<times> (u8 \<times> u8 \<times> u8 \<times> u8) \<times> (u8 \<times> u8 \<times> u8 \<times> u8)"

fun encode_a :: "a_record \<Rightarrow> bytes" where
  "encode_a ((n1, n2), (k1, k2), (t1, t2, t3, t4), (a, b, c, d)) =
     [n1, n2, 0, 1, k1, k2, t1, t2, t3, t4, 0, 4, a, b, c, d]"

fun address_text :: "a_record \<Rightarrow> bytes" where
  "address_text (n, k, t, (a, b, c, d)) = dec_bytes a @ [0x2E] @ dec_bytes b @ [0x2E] @ dec_bytes c @ [0x2E] @ dec_bytes d"

fun a_class :: "a_record \<Rightarrow> u16" where
  "a_class (n, (k1, k2), r) = signed16 k1 k2"

text \<open>Of the TTL only the low 16 bits are left.\<close>

fun a_ttl :: "a_record \<Rightarrow> u16" where
  "a_ttl (n, k, (t1, t2, t3, t4), r) = push_bit 8 (scast t3) + scast t4"

lemma push_bit_16 [simp]: "push_bit 16 (x :: u16) = 0"
  by (rule bit_word_eqI) (simp add: bit_simps)

lemma ttl_16_bits: "push_bit 8 (push_bit 8 (push_bit 8 (x :: u16) + y) + z) + w = push_bit 8 z + w"
proof -
  have "push_bit 24 x = 0"
    by (rule bit_word_eqI) (simp add: bit_simps)
  then show ?thesis
    by (simp add: push_bit_add)
qed

lemma parseRR_type_1:
  assumes "data = pre @ [n1, n2, 0, 1, k1, k2, t1, t2, t3, t4, r1, r2] @ post" and "length data < 2 ^ 30"
    and "rr_name rr = Text name" and "length pre + 10 + unat (signed16 r1 r2) \<le> length data"
  shows "parseRR data (of_nat (length pre)) rr (int (length data)) = do {
    d \<leftarrow> A data (of_nat (length pre + 12)) (signed16 r1 r2);
    Some (of_nat (length pre + 12) + ucast (signed16 r1 r2),
      rr\<lparr>rr_type := 1, rr_rdlength := signed16 r1 r2, rr_cls := signed16 k1 k2,
         rr_ttl := push_bit 8 (scast t3) + scast t4, rr_data := d\<rparr>) }"
proof -
  let ?xs = "[n1, n2, 0, 1, k1, k2, t1, t2, t3, t4, r1, r2]"
  define p :: u32 where "p = of_nat (length pre)"
  have p: "of_nat (length pre + k) = p + of_nat k" for k
    by (simp add: p_def)
  have rd: "rd8 data (unat (p + of_nat k)) = Some (?xs ! k)" if "k < 12" for k
    using rd8_behind[OF assms(1,2), of k] that unfolding p by simp
  have get: "get16 data (p + of_nat k) = Some (signed16 (?xs ! k) (?xs ! (k + 1)))" if "k < 11" for k
    using get16_behind[OF assms(1,2), of k] that unfolding p by simp
  have ty: "get16 data (p + 2) = Some 1" and cl: "get16 data (p + 4) = Some (signed16 k1 k2)"
    and rl: "get16 data (p + 10) = Some (signed16 r1 r2)"
    using get[of 2] get[of 4] get[of 10] by (simp_all add: signed16_def[of 0 1] sext_def[of 0] sext_def[of 1])
  have four: "(4 :: nat) = Suc (Suc (Suc (Suc 0)))" by simp
  have ttl: "ttl_loop data (p + 6) 4 0 = Some (push_bit 8 (scast t3) + scast t4)"
    unfolding four using rd[of 6] rd[of 7] rd[of 8] rd[of 9] by (simp add: add.assoc ttl_16_bits)
  have len: "length pre + 12 \<le> length data"
    using assms(1) by simp
  have word: "unat (word_of_int (int (length data)) :: u32) = length data" "unat p = length pre"
    using assms(2) len by (simp_all add: p_def unat_of_nat_small)
  have room: "\<not> word_of_int (int (length data)) - (p + 2) < (10 :: u32)"
    using len assms(2) word by (simp add: word_less_nat_alt unat_sub_if' unat_word_ariths)
  have r: "unat (ucast (signed16 r1 r2) :: u32) = unat (signed16 r1 r2)"
    using unsigned_less[of "signed16 r1 r2", where ?'a = nat] by (simp add: unsigned_ucast_eq take_bit_nat_eq_self_iff)
  have whole: "\<not> word_of_int (int (length data)) < p + 10 + (ucast (signed16 r1 r2) :: u32)"
    using assms(2,4) word r by (simp add: word_less_nat_alt unat_word_ariths)
  show ?thesis
    using assms(3) ty cl rl ttl room whole
    by (cases rr) (simp add: parseRR_def parseRR_name_def p add.assoc Let_def p_def[symmetric])
qed

lemma parseRR_address:
  assumes "data = pre @ encode_a a @ post" and "length data < 2 ^ 30" and "rr_name rr = Text name"
  shows "parseRR data (of_nat (length pre)) rr (int (length data)) =
    Some (of_nat (length pre + 16), rr\<lparr>rr_type := 1, rr_rdlength := 4, rr_cls := a_class a, rr_ttl := a_ttl a,
      rr_data := Text (address_text a)\<rparr>)"
proof -
  obtain n1 n2 k1 k2 t1 t2 t3 t4 b1 b2 b3 b4 where a: "a = ((n1, n2), (k1, k2), (t1, t2, t3, t4), (b1, b2, b3, b4))"
    by (metis prod.exhaust)
  have r: "signed16 0 4 = 4"
    by (simp add: signed16_def sext_def)
  have d: "data = pre @ [n1, n2, 0, 1, k1, k2, t1, t2, t3, t4, 0, 4] @ ([b1, b2, b3, b4] @ post)"
    using assms(1) by (simp add: a)
  have rd: "rd8 data (unat (of_nat (length pre + k) :: u32)) = Some (encode_a a ! k)" if "k < 16" for k
    using rd8_behind[OF assms(1,2), of k] that by (simp add: a)
  have "A data (of_nat (length pre + 12)) 4 = Some (Text (address_text a))"
    using rd[of 12] rd[of 13] rd[of 14] rd[of 15] by (simp add: a A_def add.assoc)
  then show ?thesis
    using parseRR_type_1[OF d assms(2,3)] d by (simp add: r a)
qed

definition address_rr :: "bytes \<Rightarrow> a_record \<Rightarrow> DnsRR" where
  "address_rr name a = \<lparr>rr_name = Text name, rr_type = 1, rr_cls = a_class a, rr_ttl = a_ttl a, rr_rdlength = 4,
     rr_data = Text (address_text a)\<rparr>"

lemma length_encode_a [simp]: "length (encode_a a) = 16"
  by (cases a rule: encode_a.cases) simp

lemma rr_loop_addresses:
  assumes "data = pre @ concat (map encode_a rs) @ post" and "length data < 2 ^ 30" and "rr_name rr = Text name"
  shows "rr_loop data (int (length data)) (length rs) (of_nat (length pre)) rr info =
    Some (of_nat (length pre + 16 * length rs), info\<lparr>d_answers := d_answers info @ map (address_rr name) rs\<rparr>)"
  using assms
proof (induction rs arbitrary: pre rr info)
  case (Cons a rs)
  have d: "data = pre @ encode_a a @ (concat (map encode_a rs) @ post)"
    using Cons.prems(1) by simp
  have d': "data = (pre @ encode_a a) @ concat (map encode_a rs) @ post"
    using Cons.prems(1) by simp
  define rr' where "rr' = rr\<lparr>rr_type := 1, rr_rdlength := 4, rr_cls := a_class a, rr_ttl := a_ttl a, rr_data := Text (address_text a)\<rparr>"
  have rr': "rr' = address_rr name a"
    using Cons.prems(3) by (simp add: rr'_def address_rr_def)
  have step: "parseRR data (of_nat (length pre)) (rr\<lparr>rr_data := Null\<rparr>) (int (length data)) = Some (of_nat (length pre + 16), rr')"
    using parseRR_address[OF d Cons.prems(2), of "rr\<lparr>rr_data := Null\<rparr>" name] Cons.prems(3) by (simp add: rr'_def)
  have pos: "(of_nat (length pre + 16) :: u32) \<noteq> 0"
    using d Cons.prems(2) of_nat_eq_small[of "length pre + 16" 0] by simp
  have "rr_type rr' = 1" "rr_name rr' = Text name"
    by (simp_all add: rr' address_rr_def)
  with Cons.IH[OF d' Cons.prems(2), of rr' "info\<lparr>d_answers := d_answers info @ [rr']\<rparr>"] step pos rr' show ?case
    by (simp add: algebra_simps)
qed simp

lemma copy_answers_addresses:
  "copy_answers t4 ts (map (address_rr name) rs) r = Some (if rs = [] then r else
     \<lparr>rs_timeStamp = ts, rs_srcip = saddr t4, rs_dstip = daddr t4, Rname = name, Rtype = 1,
      Rclass = a_class (last rs), rs_ttl = uint (a_ttl (last rs)), rs_result = address_text (last rs)\<rparr>)"
  by (induction rs arbitrary: r) (auto simp: address_rr_def)

text \<open>The header of a message with one question.\<close>

definition header_ok :: "bytes \<Rightarrow> nat \<Rightarrow> bool" where
  "header_ok hdr n \<longleftrightarrow> length hdr = 12 \<and> hdr ! 3 AND 0x0F \<le> 5 \<and> signed16 (hdr ! 4) (hdr ! 5) = 1 \<and>
     signed16 (hdr ! 6) (hdr ! 7) = of_nat n \<and> n < 2 ^ 16"

lemma parse_header_ok:
  assumes "header_ok hdr n"
  shows "\<exists>dns. parse_header (hdr @ xs) = Some dns \<and> \<not> d_rcode dns > 5 \<and> unat (d_qdcount dns) = 1 \<and>
    unat (d_ancount dns) = n \<and> d_queries dns = [] \<and> d_answers dns = []"
proof -
  have get: "get16 (hdr @ xs) (of_nat k) = Some (signed16 (hdr ! k) (hdr ! (k + 1)))" if "k < 11" for k
  proof -
    have "(of_nat k :: u32) + 1 = of_nat (k + 1)" by simp
    then show ?thesis
      using assms that by (simp add: header_ok_def get16_def unat_of_nat_small nth_append del: of_nat_Suc of_nat_add)
  qed
  show ?thesis
    using get[of 4] get[of 6] get[of 8] get[of 10] assms
    by (simp add: parse_header_def header_ok_def nth_append unsigned_of_nat take_bit_nat_eq_self not_less)
qed

section \<open>Properties\<close>

text \<open>
  C27: Reading a name is memory safe and ends. For every datagram in its buffer and all
  positions, \<open>readRRname\<close> returns without reading outside the datagram, whatever the labels
  and compression pointers are, and the name it writes fits, with its final NUL, into the
  buffer it allocated from the first pass.
\<close>

theorem dns_name_safe:
  assumes "fits data datalen"
  shows "\<exists>r p. readRRname data now_pos id_pos datalen = Some (r, p) \<and>
    (case r of None \<Rightarrow> p = now_pos | Some (name, room) \<Rightarrow> length name + 1 \<le> room)"
  by (rule readRRname_defined[OF assms])

definition sample_query :: bytes where
  "sample_query = [0, 7, 1, 0, 0, 1, 0, 0, 0, 0, 0, 0, 2, 97, 98, 1, 99, 0, 0, 1, 0, 28]"

lemma dns_name_safe_witness:
  "\<exists>r p. readRRname [0xC0, 0, 5] 0 0 3 = Some (r, p) \<and>
    (case r of None \<Rightarrow> p = 0 | Some (name, room) \<Rightarrow> length name + 1 \<le> room)"
  by (rule dns_name_safe) (simp add: fits_def)

text \<open>
  C28: Round trip. Reading the wire form of a name gives the labels joined with dots and the
  position behind the name, wherever in a message it stands.
\<close>

theorem dns_name_roundtrip:
  assumes "length (pre @ encode_name ls @ post) < 2 ^ 30" and "\<forall>l \<in> set ls. label_ok l"
  shows "\<exists>n. readRRname (pre @ encode_name ls @ post) (of_nat (length pre)) id_pos (int (length (pre @ encode_name ls @ post))) =
    Some (Some (dotted ls, n), of_nat (length pre + length (encode_name ls)))"
  by (rule readRRname_encoded[OF refl assms])

lemma dns_name_roundtrip_witness:
  "\<exists>n. readRRname ([9, 9] @ encode_name [[97, 98], [99]] @ [1]) (of_nat (length [9 :: u8, 9])) 0
     (int (length ([9, 9] @ encode_name [[97, 98], [99]] @ [1]))) =
    Some (Some (dotted [[97, 98], [99]], n), of_nat (length [9 :: u8, 9] + length (encode_name [[97, 98], [99]])))"
  by (rule dns_name_roundtrip) (simp_all add: label_ok_def printable_def)

text \<open>
  C30: A DNS query is reported: for a message with one question from a client, the request
  callback gets the question's name, both addresses and the time. Its type field holds the
  class of the question, and its class is never set.
\<close>

theorem dns_request_reported:
  assumes m_def: "m = hdr @ encode_name ls @ [t1, t2, c1, c2] @ post"
    and "header_ok hdr n" and "source t4 \<noteq> 53" and "dest t4 = 53" and "\<forall>l \<in> set ls. label_ok l" and "length m < 2 ^ 30"
  shows "processDns jr jq js t4 m (int (length m)) ts p =
    Some (of_nat (12 + length (encode_name ls) + 4),
      [Request (jq\<lparr>Qname := dotted ls, Qtype := signed16 c1 c2, rq_srcip := saddr t4, rq_dstip := daddr t4, rq_timeStamp := ts\<rparr>)],
      p\<lparr>numUdp := numUdp p + 1, numRequest := numRequest p + 1\<rparr>)"
proof -
  have hdr: "length hdr = 12"
    using assms(2) by (simp add: header_ok_def)
  obtain dns where dns: "parse_header m = Some dns" "\<not> d_rcode dns > 5" "unat (d_qdcount dns) = 1" "d_queries dns = []"
    using parse_header_ok[OF assms(2)] by (auto simp: m_def)
  have "m = hdr @ encode_name ls @ [t1, t2, c1, c2] @ post"
    by (simp add: m_def)
  from question_step[OF this assms(6,5), of 12 0 dns] dns hdr
  have "parserQuestions m 12 (d_qdcount dns) dns (int (length m)) =
      Some (of_nat (12 + length (encode_name ls) + 4), dns\<lparr>d_name := Text (dotted ls),
        d_queries := [\<lparr>q_name = dotted ls, q_type = signed16 t1 t2, q_cls = signed16 c1 c2\<rparr>]\<rparr>)"
    by (simp add: parserQuestions_def)
  moreover have "\<not> int (length m) < 12"
    using hdr by (simp add: m_def)
  ultimately show ?thesis
    using assms(3,4) dns by (simp add: processDns_def dns_request_def Let_def)
qed

definition sample_t4 :: "u16 \<Rightarrow> u16 \<Rightarrow> tuple4" where
  "sample_t4 s r = \<lparr>source = s, dest = r, saddr = 1, daddr = 2\<rparr>"

lemma dns_request_reported_witness:
  "\<forall>jr jq js ts p. processDns jr jq js (sample_t4 9999 53) sample_query 22 ts p =
    Some (22, [Request (jq\<lparr>Qname := [97, 98, 0x2E, 99], Qtype := 28, rq_srcip := 1, rq_dstip := 2, rq_timeStamp := ts\<rparr>)],
      p\<lparr>numUdp := numUdp p + 1, numRequest := numRequest p + 1\<rparr>)"
proof (intro allI, goal_cases)
  case (1 jr jq js ts p)
  show ?case
    using dns_request_reported[of sample_query "take 12 sample_query" "[[97, 98], [99]]" 0 1 0 28 "[]" 0 "sample_t4 9999 53" jr jq js ts p]
    by (simp add: sample_query_def header_ok_def label_ok_def printable_def sample_t4_def signed16_def sext_def)
qed



text \<open>
  Error behaviour. An answer of type A whose length is not 4 makes the response handler
  take the length of a null pointer: the reply of any server to a one-question query can do
  so, since such an answer is stored without data and then copied as a string.
\<close>

theorem dns_short_address_undefined:
  assumes m_def: "m = hdr @ encode_name ls @ [t1, t2, c1, c2] @ [n1, n2, 0, 1, k1, k2, u1, u2, u3, u4, r1, r2] @ post"
    and "header_ok hdr 1" and "source t4 = 53" and "\<forall>l \<in> set ls. label_ok l" and "length m < 2 ^ 30"
    and "signed16 r1 r2 \<noteq> 4" and "unat (signed16 r1 r2) \<le> length post"
  shows "processDns jr jq js t4 m (int (length m)) ts p = None"
proof -
  have hdr: "length hdr = 12"
    using assms(2) by (simp add: header_ok_def)
  obtain dns where dns: "parse_header m = Some dns" "\<not> d_rcode dns > 5" "unat (d_qdcount dns) = 1" "d_queries dns = []"
    "unat (d_ancount dns) = 1" "d_answers dns = []"
    using parse_header_ok[OF assms(2)] by (auto simp: m_def)
  let ?pre = "hdr @ encode_name ls @ [t1, t2, c1, c2]"
  have d: "m = hdr @ encode_name ls @ [t1, t2, c1, c2] @ ([n1, n2, 0, 1, k1, k2, u1, u2, u3, u4, r1, r2] @ post)"
    and d': "m = ?pre @ [n1, n2, 0, 1, k1, k2, u1, u2, u3, u4, r1, r2] @ post"
    by (simp_all add: m_def)
  define pos :: u32 where "pos = of_nat (length ?pre)"
  define info where "info = dns\<lparr>d_name := Text (dotted ls),
        d_queries := [\<lparr>q_name = dotted ls, q_type = signed16 t1 t2, q_cls = signed16 c1 c2\<rparr>]\<rparr>"
  have q: "parserQuestions m 12 (d_qdcount dns) dns (int (length m)) = Some (pos, info)"
    using question_step[OF d assms(5,4), of 12 0 dns] dns hdr by (simp add: parserQuestions_def pos_def info_def add.assoc)
  have pos: "pos \<noteq> 0"
    using of_nat_eq_small[of "length ?pre" 0] assms(5) by (simp add: pos_def m_def)
  define p2 :: u32 where "p2 = of_nat (length ?pre + 12) + ucast (signed16 r1 r2)"
  have len: "length ?pre + 12 + unat (signed16 r1 r2) \<le> length m"
    using assms(7) d' by simp
  have ucast: "(ucast (signed16 r1 r2) :: u32) = of_nat (unat (signed16 r1 r2))"
    by (rule word_unat_eq_iff[THEN iffD2])
      (use unsigned_less[of "signed16 r1 r2", where ?'a = nat] in
        \<open>simp add: unsigned_ucast_eq unsigned_of_nat take_bit_nat_eq_self_iff\<close>)
  have "p2 = of_nat (length ?pre + 12 + unat (signed16 r1 r2))"
    unfolding p2_def ucast by simp
  then have p2: "p2 \<noteq> 0"
    using of_nat_eq_small[of "length ?pre + 12 + unat (signed16 r1 r2)" 0] len assms(5) by simp
  obtain rr where rr: "parseRR m pos (jr\<lparr>rr_name := Text (dotted ls), rr_data := Null\<rparr>) (int (length m)) = Some (p2, rr)"
    "rr_type rr = 1" "rr_data rr = Null"
    using parseRR_type_1[OF d' assms(5), of "jr\<lparr>rr_name := Text (dotted ls), rr_data := Null\<rparr>" "dotted ls"] len assms(6)
    by (simp add: A_def pos_def p2_def)
  have "\<not> int (length m) < 12" "d_ancount info = d_ancount dns" "d_answers info = []"
    using hdr dns by (simp_all add: m_def info_def)
  moreover have "copy_answers t4 ts [rr] r = None" for r
    using rr(3) by (simp split: cstring.splits)
  ultimately show ?thesis
    using assms(3) dns q pos p2 rr
    by (simp add: processDns_def dns_response_def parseRRset_def Let_def info_def del: copy_answers.simps)
qed

lemma dns_short_address_undefined_witness:
  "\<forall>jr jq js ts p. processDns jr jq js (sample_t4 53 9999) (sample_query[7 := 1] @ [0xC0, 12, 0, 1, 0, 1, 0, 1, 0, 60, 0, 3, 10, 0, 0]) 37 ts p = None"
proof (intro allI, goal_cases)
  case (1 jr jq js ts p)
  show ?case
    using dns_short_address_undefined[of "sample_query[7 := 1] @ [0xC0, 12, 0, 1, 0, 1, 0, 1, 0, 60, 0, 3, 10, 0, 0]"
        "take 12 (sample_query[7 := 1])" "[[97, 98], [99]]" 0 1 0 28 "0xC0" 12 0 1 0 1 0 60 0 3 "[10, 0, 0]" "sample_t4 53 9999" jr jq js ts p]
    by (simp add: sample_query_def header_ok_def label_ok_def printable_def sample_t4_def signed16_def sext_def)
qed

text \<open>
  Bounds. The check of a question compares its third byte with the end of the datagram but
  reads the fourth: a query that stops one byte early is read past its end.
\<close>

theorem dns_question_overread:
  assumes m_def: "m = hdr @ encode_name ls @ [t1, t2, c1]"
    and "header_ok hdr n" and "source t4 \<noteq> 53" and "dest t4 = 53" and "\<forall>l \<in> set ls. label_ok l" and "length m < 2 ^ 30"
  shows "processDns jr jq js t4 m (int (length m)) ts p = None"
proof -
  have hdr: "length hdr = 12"
    using assms(2) by (simp add: header_ok_def)
  obtain dns where dns: "parse_header m = Some dns" "\<not> d_rcode dns > 5" "unat (d_qdcount dns) = 1"
    using parse_header_ok[OF assms(2)] by (auto simp: m_def)
  let ?pre = "hdr @ encode_name ls"
  define q where "q = (of_nat (length ?pre) :: u32)"
  have d: "m = ?pre @ [t1, t2, c1] @ []"
    by (simp add: m_def)
  obtain k where r: "readRRname m 12 12 (int (length m)) = Some (Some (dotted ls, k), q)"
    using readRRname_encoded[OF m_def assms(6,5), of 12] hdr by (auto simp: q_def)
  have q: "q + 2 = of_nat (length ?pre + 2)" "q + 2 + 1 = of_nat (length m)"
    using d by (simp_all add: q_def)
  have "q + 2 < word_of_int (int (length m))"
    unfolding q by (subst of_nat_below) (use d assms(6) in auto)
  moreover have "get16 m q = Some (signed16 t1 t2)"
    using get16_behind[OF d assms(6), of 0] by (simp add: q_def)
  moreover have "rd8 m (unat (q + 2 + 1)) = None"
    unfolding q(2) by (subst unat_of_nat_small) (use assms(6) in simp_all)
  then have "get16 m (q + 2) = None"
    unfolding get16_def by (cases "rd8 m (unat (q + 2))") (simp_all only: bind.simps)
  ultimately have "parserQuestions m 12 (d_qdcount dns) dns (int (length m)) = None"
    using r dns by (simp add: parserQuestions_def Let_def)
  moreover have "\<not> int (length m) < 12"
    using hdr by (simp add: m_def)
  ultimately show ?thesis
    using assms(3,4) dns by (simp add: processDns_def dns_request_def Let_def)
qed

lemma dns_question_overread_witness:
  "\<forall>jr jq js ts p. processDns jr jq js (sample_t4 9999 53) (butlast sample_query) 21 ts p = None"
proof (intro allI, goal_cases)
  case (1 jr jq js ts p)
  show ?case
    using dns_question_overread[of "butlast sample_query" "take 12 sample_query" "[[97, 98], [99]]" 0 1 0 0 "sample_t4 9999 53" jr jq js ts p]
    by (simp add: sample_query_def header_ok_def label_ok_def printable_def sample_t4_def signed16_def sext_def)
qed

end
