(* ===== verification/Timers.thy ===== *)
theory Timers
  imports Net_Util
begin

text \<open>
  \<open>util/Timer\<close>, the once-per-second gate, and the two counters built on it:
  \<open>app/mac/MacCount\<close> (bytes per direction of the monitored link) and
  \<open>app/protocol/ProtocolPacketCounter\<close> (packets per protocol). The result of
  \<open>pthread_mutex_trylock\<close> is a parameter. The locale \<open>second_gate\<close> states what the
  counters rely on; reports are at least a second apart and no byte or packet is lost
  between reports.
\<close>

section \<open>Timer\<close>

record timer =
  time :: int

definition timer_init :: timer where
  "timer_init = \<lparr>time = 0\<rparr>"

definition checkTime :: "bool \<Rightarrow> timer \<Rightarrow> timeval \<Rightarrow> bool \<times> timer" where
  "checkTime locked t TimeStamp =
     (if \<not> locked then (False, t)
      else if time t \<le> tv_sec TimeStamp then (True, t\<lparr>time := tv_sec TimeStamp + 1\<rparr>)
      else (False, t))"

definition lastCheckTime :: "timer \<Rightarrow> timeval" where
  "lastCheckTime t = \<lparr>tv_sec = time t - 1, tv_usec = 0\<rparr>"

text \<open>The contract the counters use: a gate opens when its second is due and then not before the next one.\<close>

locale second_gate =
  fixes gate :: "'s \<Rightarrow> timeval \<Rightarrow> bool \<times> 's" and due :: "'s \<Rightarrow> int"
  assumes opens_due: "fst (gate s t) \<Longrightarrow> due s \<le> tv_sec t"
    and opened: "fst (gate s t) \<Longrightarrow> due (snd (gate s t)) = tv_sec t + 1"
    and closed: "\<not> fst (gate s t) \<Longrightarrow> snd (gate s t) = s"
begin

fun openings :: "'s \<Rightarrow> timeval list \<Rightarrow> int list" where
  "openings s [] = []"
| "openings s (t # ts) =
     (if fst (gate s t) then tv_sec t # openings (snd (gate s t)) ts else openings (snd (gate s t)) ts)"

lemma openings_due: "x \<in> set (openings s ts) \<Longrightarrow> due s \<le> x"
proof (induction ts arbitrary: s)
  case Nil
  then show ?case by simp
next
  case (Cons t ts)
  show ?case
  proof (cases "fst (gate s t)")
    case True
    then have "due s \<le> tv_sec t" "due (snd (gate s t)) = tv_sec t + 1"
      by (simp_all add: opens_due opened)
    moreover have "x = tv_sec t \<or> x \<in> set (openings (snd (gate s t)) ts)"
      using Cons.prems True by auto
    ultimately show ?thesis using Cons.IH by force
  next
    case False
    with Cons show ?thesis by (simp add: closed)
  qed
qed

lemma openings_spaced: "sorted_wrt (<) (openings s ts)"
proof (induction ts arbitrary: s)
  case Nil
  then show ?case by simp
next
  case (Cons t ts)
  then show ?case by (auto dest!: openings_due opened)
qed

end

interpretation timer_gate: second_gate "checkTime locked" time for locked
  by unfold_locales (auto simp: checkTime_def split: if_splits)

section \<open>MacCount\<close>

definition MAC1 :: bytes where "MAC1 = [228, 199, 34, 62, 5, 248]"
definition MAC2 :: bytes where "MAC2 = [132, 120, 172, 97, 34, 241]"

record MacInfo =
  inputstream :: int
  outputstream :: int

record MacCount =
  mac_timer :: timer
  macInfo :: MacInfo

definition MacCount_init :: MacCount where
  "MacCount_init = \<lparr>mac_timer = timer_init, macInfo = \<lparr>inputstream = 0, outputstream = 0\<rparr>\<rparr>"

fun mac_same :: "bytes \<Rightarrow> bytes \<Rightarrow> nat list \<Rightarrow> bool" where
  "mac_same macArray m [] = True"
| "mac_same macArray m (i # is) = (if macArray ! i \<noteq> m ! i then False else mac_same macArray m is)"

definition macCompare :: "bytes \<Rightarrow> nat" where
  "macCompare macArray = (if mac_same macArray MAC1 [0..<6] then 1
     else if mac_same macArray MAC2 [0..<6] then 2 else 0)"

text \<open>
  One captured frame; the result holds what is handed to each registered callback.
  \<open>ether_dhost\<close> is the first six bytes of the frame.
\<close>

definition account :: "nat \<Rightarrow> nat \<Rightarrow> MacInfo \<Rightarrow> MacInfo" where
  "account cmpRes caplen i =
     (if cmpRes = 1 then i\<lparr>inputstream := inputstream i + int caplen\<rparr>
      else if cmpRes = 2 then i\<lparr>outputstream := outputstream i + int caplen\<rparr> else i)"

definition processMac :: "bool \<Rightarrow> MacCount \<Rightarrow> nat \<Rightarrow> bytes \<Rightarrow> timeval \<Rightarrow> MacInfo option \<times> MacCount" where
  "processMac locked s caplen data timeStamp =
     (if caplen \<le> 14 then (None, s)
      else let i = account (macCompare (take 6 data)) caplen (macInfo s);
               (fired, t) = checkTime locked (mac_timer s) timeStamp
           in if fired then (Some i, \<lparr>mac_timer = t, macInfo = \<lparr>inputstream = 0, outputstream = 0\<rparr>\<rparr>)
              else (None, \<lparr>mac_timer = t, macInfo = i\<rparr>))"

definition mac_to_string :: "MacInfo \<Rightarrow> string" where
  "mac_to_string i = dec_int (c_div (inputstream i) 1000) @ [tab] @ dec_int (c_div (outputstream i) 1000)"

lemma mac_same_iff:
  "mac_same a m is \<longleftrightarrow> (\<forall>i \<in> set is. a ! i = m ! i)"
  by (induction "is") auto

lemma macCompare_spec:
  assumes "length a = 6"
  shows "macCompare a = (if a = MAC1 then 1 else if a = MAC2 then 2 else 0)"
proof -
  have "mac_same a m [0..<6] \<longleftrightarrow> a = m" if "length m = 6" for m
    using assms that by (auto simp: mac_same_iff list_eq_iff_nth_eq)
  moreover have "length MAC1 = 6" "length MAC2 = 6"
    by (simp_all add: MAC1_def MAC2_def)
  ultimately show ?thesis by (simp add: macCompare_def)
qed

text \<open>A capture: frames with their time stamps and lock outcomes, and the reports made.\<close>

type_synonym frame = "bool \<times> nat \<times> bytes \<times> timeval"

fun mac_run :: "MacCount \<Rightarrow> frame list \<Rightarrow> MacInfo list \<times> MacCount" where
  "mac_run s [] = ([], s)"
| "mac_run s ((l, n, d, t) # fs) =
     (let (r, s') = processMac l s n d t; (rs, s'') = mac_run s' fs
      in ((case r of None \<Rightarrow> rs | Some i \<Rightarrow> i # rs), s''))"

definition frame_in :: "frame \<Rightarrow> int" where
  "frame_in f = (case f of (l, n, d, t) \<Rightarrow> if 14 < n \<and> macCompare (take 6 d) = 1 then int n else 0)"

definition frame_out :: "frame \<Rightarrow> int" where
  "frame_out f = (case f of (l, n, d, t) \<Rightarrow> if 14 < n \<and> macCompare (take 6 d) = 2 then int n else 0)"

lemma processMac_conserves:
  "processMac l s n d t = (r, s') \<Longrightarrow>
   (case r of None \<Rightarrow> 0 | Some i \<Rightarrow> inputstream i) + inputstream (macInfo s') =
      inputstream (macInfo s) + frame_in (l, n, d, t) \<and>
   (case r of None \<Rightarrow> 0 | Some i \<Rightarrow> outputstream i) + outputstream (macInfo s') =
      outputstream (macInfo s) + frame_out (l, n, d, t)"
  by (auto simp: processMac_def account_def frame_in_def frame_out_def Let_def
      split: if_splits prod.splits)

lemma mac_run_conserves:
  "mac_run s fs = (rs, s') \<Longrightarrow>
   sum_list (map inputstream rs) + inputstream (macInfo s') =
      inputstream (macInfo s) + sum_list (map frame_in fs) \<and>
   sum_list (map outputstream rs) + outputstream (macInfo s') =
      outputstream (macInfo s) + sum_list (map frame_out fs)"
proof (induction s fs arbitrary: rs s' rule: mac_run.induct)
  case (1 s)
  then show ?case by simp
next
  case (2 s l n d t fs)
  obtain r s1 where step: "processMac l s n d t = (r, s1)" by fastforce
  obtain rs1 s2 where rest: "mac_run s1 fs = (rs1, s2)" by fastforce
  from "2.IH"[OF step [symmetric] refl rest] processMac_conserves[OF step] "2.prems" step rest
  show ?case by (auto split: option.splits)
qed

section \<open>ProtocolPacketCounter\<close>

text \<open>Counter cells 0 to 6: DNS, SMTP, POP3, HTTP, HTTPS, TELNET, FTP.\<close>

record PacketCounter =
  pc_timer :: timer
  counter :: "int list"
  has_callback :: bool

definition PacketCounter_init :: PacketCounter where
  "PacketCounter_init = \<lparr>pc_timer = timer_init, counter = replicate 7 0, has_callback = False\<rparr>"

definition increment :: "nat \<Rightarrow> PacketCounter \<Rightarrow> PacketCounter" where
  "increment i s = s\<lparr>counter := (counter s)[i := counter s ! i + 1]\<rparr>"

text \<open>The report: every cell is read and reset (\<open>getAndSet(0)\<close>).\<close>

definition report :: "bool \<Rightarrow> PacketCounter \<Rightarrow> timeval \<Rightarrow> int list option \<times> PacketCounter" where
  "report locked s timeStamp =
     (let (fired, t) = checkTime locked (pc_timer s) timeStamp; s' = s\<lparr>pc_timer := t\<rparr>
      in if fired \<and> has_callback s then (Some (counter s), s'\<lparr>counter := replicate 7 0\<rparr>) else (None, s'))"

text \<open>The cells the \<open>switch\<close> of \<open>onTcpData\<close> increments; the HTTP case has no \<open>break\<close>.\<close>

definition tcp_cells :: "u16 \<Rightarrow> nat list" where
  "tcp_cells port =
     (if port = 25 then [1] else if port = 110 then [2] else if port = 80 then [3, 4]
      else if port = 443 then [4] else if port = 23 then [5] else if port = 21 then [6] else [])"

definition pc_onTcpData :: "bool \<Rightarrow> PacketCounter \<Rightarrow> tuple4 \<Rightarrow> timeval \<Rightarrow> int list option \<times> PacketCounter" where
  "pc_onTcpData locked s addr timeStamp =
     (if tcp_cells (dest addr) = [] then (None, s)
      else report locked (fold increment (tcp_cells (dest addr)) s) timeStamp)"

definition pc_onUdpData :: "bool \<Rightarrow> PacketCounter \<Rightarrow> tuple4 \<Rightarrow> timeval \<Rightarrow> int list option \<times> PacketCounter" where
  "pc_onUdpData locked s t4 timeStamp =
     (if dest t4 = 53 \<or> source t4 = 53 then report locked (increment 0 s) timeStamp else (None, s))"

definition counter_to_string :: "int list \<Rightarrow> string" where
  "counter_to_string d = concat (map (\<lambda>x. dec_int x @ [tab]) d) @ dec_int (sum_list d)"

datatype pc_event = PcTcp bool tuple4 timeval | PcUdp bool tuple4 timeval

fun pc_step :: "PacketCounter \<Rightarrow> pc_event \<Rightarrow> int list option \<times> PacketCounter" where
  "pc_step s (PcTcp l a t) = pc_onTcpData l s a t"
| "pc_step s (PcUdp l a t) = pc_onUdpData l s a t"

fun pc_cells :: "pc_event \<Rightarrow> nat list" where
  "pc_cells (PcTcp l a t) = tcp_cells (dest a)"
| "pc_cells (PcUdp l a t) = (if dest a = 53 \<or> source a = 53 then [0] else [])"

fun pc_run :: "PacketCounter \<Rightarrow> pc_event list \<Rightarrow> int list list \<times> PacketCounter" where
  "pc_run s [] = ([], s)"
| "pc_run s (e # es) =
     (let (r, s') = pc_step s e; (rs, s'') = pc_run s' es
      in ((case r of None \<Rightarrow> rs | Some i \<Rightarrow> i # rs), s''))"

lemma length_increments: "length (counter (fold increment is s)) = length (counter s)"
  by (induction "is" arbitrary: s) (simp_all add: increment_def)

lemma nth_increments:
  "i < length (counter s) \<Longrightarrow>
   counter (fold increment is s) ! i = counter s ! i + int (count_list is i)"
  by (induction "is" arbitrary: s) (auto simp: increment_def nth_list_update)

lemma has_callback_increments [simp]: "has_callback (fold increment is s) = has_callback s"
  by (induction "is" arbitrary: s) (simp_all add: increment_def)

lemma report_conserves:
  assumes "report l s t = (r, s')" and "length (counter s) = 7" and "i < 7"
  shows "(case r of None \<Rightarrow> 0 | Some c \<Rightarrow> c ! i) + counter s' ! i = counter s ! i \<and> length (counter s') = 7"
  using assms by (auto simp: report_def Let_def split: if_splits prod.splits)

lemma pc_step_conserves:
  assumes "pc_step s e = (r, s')" and "length (counter s) = 7" and "i < 7"
  shows "(case r of None \<Rightarrow> 0 | Some c \<Rightarrow> c ! i) + counter s' ! i =
      counter s ! i + int (count_list (pc_cells e) i) \<and> length (counter s') = 7"
proof -
  have "report l (fold increment is s) t = (r, s') \<Longrightarrow>
      (case r of None \<Rightarrow> 0 | Some c \<Rightarrow> c ! i) + counter s' ! i =
      counter s ! i + int (count_list is i) \<and> length (counter s') = 7" for l t "is"
    using report_conserves[of l "fold increment is s" t r s' i] assms(2,3)
    by (simp add: length_increments nth_increments)
  from this[of _ "tcp_cells _"] this[of _ "[0]"] assms show ?thesis
    by (cases e) (auto simp: pc_onTcpData_def pc_onUdpData_def split: if_splits)
qed

lemma pc_run_conserves:
  "\<lbrakk>pc_run s es = (rs, s'); length (counter s) = 7; i < 7\<rbrakk> \<Longrightarrow>
   sum_list (map (\<lambda>c. c ! i) rs) + counter s' ! i =
     counter s ! i + int (sum_list (map (\<lambda>e. count_list (pc_cells e) i) es))"
proof (induction s es arbitrary: rs s' rule: pc_run.induct)
  case (1 s)
  then show ?case by simp
next
  case (2 s e es)
  obtain r s1 where step: "pc_step s e = (r, s1)" by fastforce
  obtain rs1 s2 where rest: "pc_run s1 es = (rs1, s2)" by fastforce
  note st = pc_step_conserves[OF step "2.prems"(2,3)]
  from "2.IH"[OF step [symmetric] refl rest] st "2.prems" step rest
  show ?case by (auto split: option.splits)
qed

section \<open>Properties\<close>

text \<open>
  The gate opens at most once per second of packet time: the seconds at which it opens
  are strictly increasing, whatever the order of the time stamps.
\<close>

theorem timer_opens_once_per_second:
  "sorted_wrt (<) (second_gate.openings (checkTime locked) t stamps)"
  by (rule timer_gate.openings_spaced)

text \<open>
  No byte is lost or counted twice by the link counters: what the reports contain plus
  what is still accumulated is what the frames of the two monitored addresses carried, even
  when the lock of the timer is taken and a report is skipped.
\<close>

theorem mac_bytes_conserved:
  assumes "mac_run MacCount_init fs = (rs, s')"
  shows "sum_list (map inputstream rs) + inputstream (macInfo s') = sum_list (map frame_in fs) \<and>
    sum_list (map outputstream rs) + outputstream (macInfo s') = sum_list (map frame_out fs)"
  using mac_run_conserves[OF assms] by (simp add: MacCount_init_def)

definition sample_frames :: "frame list" where
  "sample_frames = [(True, 60, MAC1, \<lparr>tv_sec = 7, tv_usec = 0\<rparr>), (True, 100, MAC2, \<lparr>tv_sec = 7, tv_usec = 9\<rparr>),
     (False, 40, MAC1, \<lparr>tv_sec = 8, tv_usec = 0\<rparr>)]"

lemma mac_bytes_conserved_witness:
  "inputstream (macInfo (snd (mac_run MacCount_init sample_frames))) = 40"
proof -
  obtain rs s' where run: "mac_run MacCount_init sample_frames = (rs, s')"
    by fastforce
  have "sum_list (map frame_in sample_frames) = 100" "sum_list (map inputstream (fst (mac_run MacCount_init sample_frames))) = 60"
    by code_simp+
  with mac_bytes_conserved[OF run] run show ?thesis by simp
qed


definition sample_http_packet :: pc_event where
  "sample_http_packet = PcTcp True \<lparr>source = 4000, dest = 80, saddr = 1, daddr = 2\<rparr> \<lparr>tv_sec = 7, tv_usec = 0\<rparr>"


end
