(* ===== verification/Tcp_Session.thy ===== *)
theory Tcp_Session
  imports Timers Hashing
begin

text \<open>
  \<open>app/header/TcpHeader.cc\<close> and \<open>app/header/TcpSession.cc\<close>: a record per TCP packet, and
  per-session statistics with a wheel of buckets as timeout. A session object is owned by the
  table alone, an entry object by the buckets that hold it; both are named by the same number,
  drawn when the session is created, so a weak pointer can be followed exactly when its number
  is still in the table or in a bucket. Proved: every session in the table has a live entry,
  no session is lost or reported twice, sessions without packets are closed by the wheel, and
  a header is read in bounds exactly when the packet holds it.
\<close>

section \<open>Headers\<close>

record tcpheader =
  hd_timeStamp :: timeval
  hd_srcIP :: u32
  hd_dstIP :: u32
  hd_srcPort :: u16
  hd_dstPort :: u16
  hd_flag :: u8
  hd_len :: int

text \<open>\<open>processTcpHeader\<close> does not look at the length it is given.\<close>

definition processTcpHeader :: "bytes \<Rightarrow> int \<Rightarrow> timeval \<Rightarrow> tcpheader option" where
  "processTcpHeader data skblen ts = do {
     iph \<leftarrow> ip_view data;
     tcp \<leftarrow> tcp_view data (4 * ip_hl iph);
     Some \<lparr>hd_timeStamp = ts, hd_srcIP = ip_src iph, hd_dstIP = ip_dst iph, hd_srcPort = th_sport tcp,
       hd_dstPort = th_dport tcp, hd_flag = th_flags tcp, hd_len = int (ip_len iph) - 4 * int (ip_hl iph)\<rparr> }"

text \<open>The flags are a (signed) \<open>char\<close>.\<close>

definition header_to_string :: "tcpheader \<Rightarrow> string" where
  "header_to_string h = tab_join [dec_int (tv_sec (hd_timeStamp h)), inet_ntop (hd_srcIP h), inet_ntop (hd_dstIP h),
     dec_nat (unat (hd_srcPort h)), dec_nat (unat (hd_dstPort h)), dec_int (sint (hd_flag h)), dec_int (hd_len h)]"

section \<open>Sessions\<close>

text \<open>The counters \<open>info\<close>, one record per direction in place of the seven array slots.\<close>

record flow =
  FlowSize :: int
  PacketNum :: int
  Syn :: int
  Fin :: int
  Psh :: int
  Rst :: int
  SmallPacketNum :: int

definition no_flow :: flow where
  "no_flow = \<lparr>FlowSize = 0, PacketNum = 0, Syn = 0, Fin = 0, Psh = 0, Rst = 0, SmallPacketNum = 0\<rparr>"

record SessionData =
  s_num :: nat
  t4_of :: tuple4
  startTime :: timeval
  endTime :: timeval
  up :: flow
  down :: flow
  normallyClosed :: bool

record TcpSession =
  sessionDataMap :: "SessionData list"
  sessionBuckets :: "nat list list"
  capacity :: nat
  s_timer :: timer
  next_num :: nat

definition TcpSession_init :: "nat \<Rightarrow> TcpSession" where
  "TcpSession_init timeoutSeconds = \<lparr>sessionDataMap = [], sessionBuckets = [], capacity = timeoutSeconds,
     s_timer = timer_init, next_num = 0\<rparr>"

text \<open>\<open>endTime_\<close> is not initialised; \<open>junk\<close> is its content.\<close>

definition new_session :: "nat \<Rightarrow> timeval \<Rightarrow> tuple4 \<Rightarrow> timeval \<Rightarrow> SessionData" where
  "new_session n junk t4 ts = \<lparr>s_num = n, t4_of = t4, startTime = ts, endTime = junk, up = no_flow, down = no_flow,
     normallyClosed = True\<rparr>"

definition count_packet :: "int \<Rightarrow> u8 \<Rightarrow> flow \<Rightarrow> flow" where
  "count_packet len flag f = \<lparr>FlowSize = FlowSize f + len, PacketNum = PacketNum f + 1,
     Syn = Syn f + of_bool (has_flag flag TH_SYN), Fin = Fin f + of_bool (has_flag flag TH_FIN),
     Psh = Psh f + of_bool (has_flag flag TH_PUSH), Rst = Rst f + of_bool (has_flag flag TH_RST),
     SmallPacketNum = SmallPacketNum f + of_bool (len \<le> 64)\<rparr>"

definition updateSession :: "tuple4 \<Rightarrow> int \<Rightarrow> u8 \<Rightarrow> SessionData \<Rightarrow> SessionData" where
  "updateSession t4 len flag d =
     (if tuple4_eq t4 (t4_of d) then d\<lparr>up := count_packet len flag (up d)\<rparr>
      else d\<lparr>down := count_packet len flag (down d)\<rparr>)"

section \<open>The wheel\<close>

text \<open>\<open>sessionDataMap_.find\<close> and \<open>erase\<close> by key, with \<open>Tuple4HashEqual\<close>.\<close>

definition find_session :: "tuple4 \<Rightarrow> TcpSession \<Rightarrow> SessionData option" where
  "find_session t4 s = List.find (\<lambda>d. Tuple4HashEqual t4 (t4_of d)) (sessionDataMap s)"

definition erase_session :: "tuple4 \<Rightarrow> TcpSession \<Rightarrow> TcpSession" where
  "erase_session t4 s = s\<lparr>sessionDataMap := filter (\<lambda>d. \<not> Tuple4HashEqual t4 (t4_of d)) (sessionDataMap s)\<rparr>"

definition put_session :: "SessionData \<Rightarrow> TcpSession \<Rightarrow> TcpSession" where
  "put_session d s = s\<lparr>sessionDataMap := map (\<lambda>e. if s_num e = s_num d then d else e) (sessionDataMap s)\<rparr>"

definition onTimeOut :: "SessionData \<Rightarrow> TcpSession \<Rightarrow> SessionData list \<times> TcpSession" where
  "onTimeOut d s =
     ([d\<lparr>normallyClosed := False, endTime := lastCheckTime (s_timer s)\<rparr>], erase_session (t4_of d) s)"

text \<open>
  \<open>Entry::~Entry\<close> of the entries only the dropped bucket held: the session's weak pointer is
  followed while the session is in the table.
\<close>

definition drop_entry :: "nat \<Rightarrow> SessionData list \<times> TcpSession \<Rightarrow> SessionData list \<times> TcpSession" where
  "drop_entry n = (\<lambda>(out, s). case List.find (\<lambda>d. s_num d = n) (sessionDataMap s) of
     None \<Rightarrow> (out, s)
   | Some d \<Rightarrow> (let (o', s') = onTimeOut d s in (out @ o', s')))"

text \<open>\<open>onTimer\<close>: \<open>push_back\<close> on a full circular buffer overwrites the oldest bucket.\<close>

definition onTimer :: "TcpSession \<Rightarrow> SessionData list \<times> TcpSession" where
  "onTimer s =
     (if length (sessionBuckets s) < capacity s then ([], s\<lparr>sessionBuckets := sessionBuckets s @ [[]]\<rparr>)
      else case sessionBuckets s of
        [] \<Rightarrow> ([], s)
      | b # bs \<Rightarrow> fold drop_entry (filter (\<lambda>n. n \<notin> set (concat bs)) b) ([], s\<lparr>sessionBuckets := bs @ [[]]\<rparr>))"

text \<open>\<open>sessionBuckets_.back().insert(entry)\<close>; \<open>None\<close> when there is no bucket.\<close>

definition insert_back :: "nat \<Rightarrow> TcpSession \<Rightarrow> TcpSession option" where
  "insert_back n s = (if sessionBuckets s = [] then None else Some (s\<lparr>sessionBuckets :=
     butlast (sessionBuckets s) @ [List.insert n (last (sessionBuckets s))]\<rparr>))"

definition onConnection :: "nat \<Rightarrow> TcpSession \<Rightarrow> TcpSession option" where
  "onConnection n s = insert_back n s"

text \<open>\<open>getEntryPtr\<close>: the entry is alive while some bucket holds it.\<close>

definition getEntryPtr :: "SessionData \<Rightarrow> TcpSession \<Rightarrow> nat option" where
  "getEntryPtr d s = (if s_num d \<in> set (concat (sessionBuckets s)) then Some (s_num d) else None)"

section \<open>Packets\<close>

text \<open>What \<open>onTcpData\<close> does with a session it found, after the timer.\<close>

definition known_session :: "tuple4 \<Rightarrow> int \<Rightarrow> u8 \<Rightarrow> timeval \<Rightarrow> timeval \<Rightarrow> SessionData \<Rightarrow> TcpSession \<Rightarrow>
    (SessionData list \<times> TcpSession) option" where
  "known_session t4 len flag junk ts d s =
     (case getEntryPtr d s of
        None \<Rightarrow>
          if has_flag flag TH_SYN then do {
            let d' = new_session (next_num s) junk t4 ts;
            s1 \<leftarrow> onConnection (next_num s) (s\<lparr>next_num := next_num s + 1\<rparr>);
            Some ([], s1\<lparr>sessionDataMap := map (\<lambda>e. if s_num e = s_num d then updateSession t4 len flag d' else e) (sessionDataMap s1)\<rparr>) }
          else Some ([], erase_session t4 s)
      | Some entry \<Rightarrow>
          if has_flag flag TH_FIN \<or> has_flag flag TH_RST
          then (let d' = updateSession t4 len flag (d\<lparr>endTime := ts\<rparr>) in Some ([d'], erase_session t4 s))
          else do { s1 \<leftarrow> insert_back entry s; Some ([], put_session (updateSession t4 len flag d) s1) })"

definition new_connection :: "tuple4 \<Rightarrow> int \<Rightarrow> u8 \<Rightarrow> timeval \<Rightarrow> timeval \<Rightarrow> TcpSession \<Rightarrow>
    (SessionData list \<times> TcpSession) option" where
  "new_connection t4 len flag junk ts s =
     (if has_flag flag TH_SYN then do {
        let d = new_session (next_num s) junk t4 ts;
        s1 \<leftarrow> onConnection (next_num s) (s\<lparr>next_num := next_num s + 1\<rparr>);
        Some ([], s1\<lparr>sessionDataMap := sessionDataMap s1 @ [updateSession t4 len flag d]\<rparr>) }
      else Some ([], s))"

text \<open>
  \<open>onTcpData\<close> behind the parsed header, and as a whole. \<open>locked\<close> says whether the timer's lock
  was free; \<open>None\<close> is undefined behaviour.
\<close>

definition session_packet :: "bool \<Rightarrow> timeval \<Rightarrow> tuple4 \<Rightarrow> int \<Rightarrow> u8 \<Rightarrow> timeval \<Rightarrow> TcpSession \<Rightarrow>
    (SessionData list \<times> TcpSession) option" where
  "session_packet locked junk t4 len flag ts s = (
     let (fire, tm) = checkTime locked (s_timer s) ts;
         s1 = s\<lparr>s_timer := tm\<rparr>;
         (out, s2) = (if fire then onTimer s1 else ([], s1))
     in do {
       (out', s') \<leftarrow> (case find_session t4 s2 of
          None \<Rightarrow> new_connection t4 len flag junk ts s2
        | Some d \<Rightarrow> known_session t4 len flag junk ts d s2);
       Some (out @ out', s') })"

definition ts_onTcpData :: "bool \<Rightarrow> timeval \<Rightarrow> bytes \<Rightarrow> int \<Rightarrow> timeval \<Rightarrow> TcpSession \<Rightarrow>
    (SessionData list \<times> TcpSession) option" where
  "ts_onTcpData locked junk data len ts s = do {
     iph \<leftarrow> ip_view data;
     let len = len - 4 * int (ip_hl iph);
     if len < 20 then Some ([], s)
     else do {
       tcp \<leftarrow> tcp_view data (4 * ip_hl iph);
       session_packet locked junk \<lparr>source = th_sport tcp, dest = th_dport tcp, saddr = ip_src iph, daddr = ip_dst iph\<rparr>
         len (th_flags tcp) ts s } }"

definition session_to_string :: "SessionData \<Rightarrow> string" where
  "session_to_string d = tab_join ([t4_to_string (t4_of d)] @
     map dec_int [FlowSize (up d), PacketNum (up d), Syn (up d), Fin (up d), Psh (up d), Rst (up d), SmallPacketNum (up d),
       FlowSize (down d), PacketNum (down d), Syn (down d), Fin (down d), Psh (down d), Rst (down d), SmallPacketNum (down d)] @
     [dec_int (tv_sec (endTime d) - tv_sec (startTime d)), if normallyClosed d then ''1'' else ''0''])"

section \<open>The invariant\<close>

definition in_buckets :: "TcpSession \<Rightarrow> nat set" where
  "in_buckets s = set (concat (sessionBuckets s))"

definition keys_apart :: "SessionData list \<Rightarrow> bool" where
  "keys_apart ds \<longleftrightarrow> (\<forall>d \<in> set ds. \<forall>e \<in> set ds. Tuple4HashEqual (t4_of d) (t4_of e) \<longrightarrow> d = e)"

definition ses_ok :: "TcpSession \<Rightarrow> bool" where
  "ses_ok s \<longleftrightarrow> distinct (map s_num (sessionDataMap s)) \<and> keys_apart (sessionDataMap s) \<and>
     (\<forall>d \<in> set (sessionDataMap s). s_num d < next_num s \<and> s_num d \<in> in_buckets s) \<and>
     in_buckets s \<subseteq> {..<next_num s} \<and> (\<forall>b \<in> set (sessionBuckets s). distinct b) \<and>
     length (sessionBuckets s) \<le> capacity s \<and> 0 < capacity s"

lemma TcpSession_init_ok: "0 < n \<Longrightarrow> ses_ok (TcpSession_init n)"
  by (simp add: ses_ok_def TcpSession_init_def in_buckets_def keys_apart_def)

lemma Tuple4HashEqual_refl [simp]: "Tuple4HashEqual t t"
  by (simp add: Tuple4HashEqual_iff)

lemma Tuple4HashEqual_sym: "Tuple4HashEqual a b \<Longrightarrow> Tuple4HashEqual b a"
  by (auto simp: Tuple4HashEqual_iff t4_reversed_def)

lemma Tuple4HashEqual_trans: "Tuple4HashEqual a b \<Longrightarrow> Tuple4HashEqual b c \<Longrightarrow> Tuple4HashEqual a c"
  by (auto simp: Tuple4HashEqual_iff t4_reversed_def)

lemma keys_apart_filter: "keys_apart ds \<Longrightarrow> keys_apart (filter P ds)"
  by (auto simp: keys_apart_def)

lemma keys_apart_map: "\<lbrakk>keys_apart ds; \<forall>e \<in> set ds. t4_of (f e) = t4_of e\<rbrakk> \<Longrightarrow> keys_apart (map f ds)"
  unfolding keys_apart_def by (metis (no_types, lifting) image_iff list.set_map)

text \<open>Erasing by key removes the one session with that key.\<close>

lemma erase_by_key:
  assumes "keys_apart ds" and "distinct (map s_num ds)" and "d \<in> set ds" and "Tuple4HashEqual t (t4_of d)"
  shows "filter (\<lambda>e. \<not> Tuple4HashEqual t (t4_of e)) ds = filter (\<lambda>e. s_num e \<noteq> s_num d) ds"
proof (rule filter_cong[OF refl])
  fix e assume e: "e \<in> set ds"
  have "Tuple4HashEqual t (t4_of e) \<longleftrightarrow> e = d"
    using assms e unfolding keys_apart_def
    by (metis Tuple4HashEqual_sym Tuple4HashEqual_trans)
  moreover have "e = d \<longleftrightarrow> s_num e = s_num d"
    using assms(2,3) e by (auto dest: inj_onD simp: distinct_map)
  ultimately show "(\<not> Tuple4HashEqual t (t4_of e)) \<longleftrightarrow> s_num e \<noteq> s_num d" by simp
qed

lemma find_num:
  assumes "distinct (map s_num ds)" and "d \<in> set ds"
  shows "List.find (\<lambda>e. s_num e = s_num d) ds = Some d"
proof -
  obtain e where e: "List.find (\<lambda>e. s_num e = s_num d) ds = Some e"
    using assms(2) by (cases "List.find (\<lambda>e. s_num e = s_num d) ds") (auto simp: find_None_iff)
  then have "e \<in> set ds" "s_num e = s_num d"
    by (auto simp: find_Some_iff)
  then show ?thesis
    using e assms by (auto dest: inj_onD simp: distinct_map)
qed

text \<open>The report of a session that timed out, and what dropping a list of entries does.\<close>

definition timed_out :: "TcpSession \<Rightarrow> SessionData \<Rightarrow> SessionData" where
  "timed_out s d = d\<lparr>normallyClosed := False, endTime := lastCheckTime (s_timer s)\<rparr>"

lemma filter_key_single: "\<lbrakk>distinct (map f xs); d \<in> set xs\<rbrakk> \<Longrightarrow> filter (\<lambda>e. f e = f d) xs = [d]"
proof (induction xs)
  case (Cons a xs)
  show ?case
  proof (cases "a = d")
    case True
    have "f a \<notin> f ` set xs"
      using Cons.prems(1) by simp
    with True have "\<forall>x \<in> set xs. f x \<noteq> f d"
      by (metis imageI)
    then have "filter (\<lambda>e. f e = f d) xs = []"
      by (simp add: filter_empty_conv)
    with True show ?thesis by simp
  next
    case False
    with Cons show ?thesis by force
  qed
qed simp

lemma drop_entry_cases:
  assumes "keys_apart (sessionDataMap s)" and "distinct (map s_num (sessionDataMap s))"
  shows "drop_entry n (out, s) =
    (out @ map (timed_out s) (filter (\<lambda>d. s_num d = n) (sessionDataMap s)),
     s\<lparr>sessionDataMap := filter (\<lambda>d. s_num d \<noteq> n) (sessionDataMap s)\<rparr>)"
proof (cases "\<exists>d \<in> set (sessionDataMap s). s_num d = n")
  case True
  then obtain d where d: "d \<in> set (sessionDataMap s)" "s_num d = n" by blast
  then show ?thesis
    using find_num[OF assms(2) d(1)] filter_key_single[OF assms(2) d(1)] erase_by_key[OF assms d(1), of "t4_of d"]
    by (simp add: drop_entry_def onTimeOut_def erase_session_def timed_out_def)
next
  case False
  then have "List.find (\<lambda>d. s_num d = n) (sessionDataMap s) = None" "filter (\<lambda>d. s_num d = n) (sessionDataMap s) = []"
    "filter (\<lambda>d. s_num d \<noteq> n) (sessionDataMap s) = sessionDataMap s"
    by (auto simp: find_None_iff filter_empty_conv filter_id_conv)
  then show ?thesis by (simp add: drop_entry_def)
qed

lemma timed_out_upd [simp]: "timed_out (s\<lparr>sessionDataMap := ds\<rparr>) = timed_out s" "timed_out (s\<lparr>sessionBuckets := bs\<rparr>) = timed_out s"
  by (simp_all add: timed_out_def fun_eq_iff)

lemma drop_entries:
  assumes "keys_apart (sessionDataMap s)" and "distinct (map s_num (sessionDataMap s))" and "distinct ns"
  shows "fold drop_entry ns (out, s) =
    (out @ map (timed_out s) (concat (map (\<lambda>n. filter (\<lambda>d. s_num d = n) (sessionDataMap s)) ns)),
     s\<lparr>sessionDataMap := filter (\<lambda>d. s_num d \<notin> set ns) (sessionDataMap s)\<rparr>)"
  using assms
proof (induction ns arbitrary: out s)
  case Nil
  then show ?case by simp
next
  case (Cons n ns)
  let ?s = "s\<lparr>sessionDataMap := filter (\<lambda>d. s_num d \<noteq> n) (sessionDataMap s)\<rparr>"
  have cc: "map (\<lambda>k. filter (\<lambda>d. s_num d = k) (sessionDataMap ?s)) ns = map (\<lambda>k. filter (\<lambda>d. s_num d = k) (sessionDataMap s)) ns"
    using Cons.prems(3) by (auto intro!: filter_cong)
  have "keys_apart (sessionDataMap ?s)" "distinct (map s_num (sessionDataMap ?s))" "distinct ns"
    using Cons.prems by (simp_all add: keys_apart_filter distinct_map_filter)
  note IH = Cons.IH[OF this, unfolded cc]
  show ?case
    unfolding fold_Cons comp_apply drop_entry_cases[OF Cons.prems(1,2)] IH
    by (simp add: conj_commute)
qed

text \<open>One turn of the wheel: what times out are the sessions only the oldest bucket held.\<close>

definition outdated :: "TcpSession \<Rightarrow> nat set" where
  "outdated s = (if length (sessionBuckets s) < capacity s then {}
     else set (hd (sessionBuckets s)) - set (concat (tl (sessionBuckets s))))"

lemma onTimer_result:
  assumes "ses_ok s" and "onTimer s = (out, s')"
  shows "sessionDataMap s' = filter (\<lambda>d. s_num d \<notin> outdated s) (sessionDataMap s)"
    and "set out = timed_out s ` {d \<in> set (sessionDataMap s). s_num d \<in> outdated s}" and "distinct (map s_num out)"
    and "sessionBuckets s' = (if length (sessionBuckets s) < capacity s then sessionBuckets s else tl (sessionBuckets s)) @ [[]]"
    and "capacity s' = capacity s" and "next_num s' = next_num s" and "s_timer s' = s_timer s"
proof -
  have "sessionDataMap s' = filter (\<lambda>d. s_num d \<notin> outdated s) (sessionDataMap s) \<and>
    set out = timed_out s ` {d \<in> set (sessionDataMap s). s_num d \<in> outdated s} \<and> distinct (map s_num out) \<and>
    sessionBuckets s' = (if length (sessionBuckets s) < capacity s then sessionBuckets s else tl (sessionBuckets s)) @ [[]] \<and>
    capacity s' = capacity s \<and> next_num s' = next_num s \<and> s_timer s' = s_timer s"
  proof (cases "length (sessionBuckets s) < capacity s")
    case True
    with assms show ?thesis by (auto simp: onTimer_def outdated_def)
  next
    case False
    with assms(1) obtain b bs where b: "sessionBuckets s = b # bs"
      by (cases "sessionBuckets s") (auto simp: ses_ok_def)
    let ?ns = "filter (\<lambda>n. n \<notin> set (concat bs)) b"
    have ns: "distinct ?ns" "set ?ns = outdated s"
      using assms(1) False b by (auto simp: ses_ok_def outdated_def)
    let ?s1 = "s\<lparr>sessionBuckets := bs @ [[]]\<rparr>"
    have ok: "keys_apart (sessionDataMap ?s1)" "distinct (map s_num (sessionDataMap ?s1))"
      using assms(1) by (simp_all add: ses_ok_def)
    have eq: "out = map (timed_out s) (concat (map (\<lambda>n. filter (\<lambda>d. s_num d = n) (sessionDataMap s)) ?ns))"
      "s' = s\<lparr>sessionBuckets := bs @ [[]], sessionDataMap := filter (\<lambda>d. s_num d \<notin> set ?ns) (sessionDataMap s)\<rparr>"
      using drop_entries[OF ok ns(1), of "[]"] assms(2) False b by (simp_all add: onTimer_def)
    note eq2 = eq(2)[unfolded ns(2)]
    have "distinct (map s_num (concat (map (\<lambda>n. filter (\<lambda>d. s_num d = n) (sessionDataMap s)) ks)))" if "distinct ks" for ks
      using that ok(2) by (induction ks) (auto simp: distinct_map_filter)
    then have "distinct (map s_num out)"
      using ns(1) by (simp add: eq(1) comp_def timed_out_def)
    moreover have "set out = timed_out s ` {d \<in> set (sessionDataMap s). s_num d \<in> outdated s}"
      unfolding eq(1) ns(2)[symmetric] by auto
    ultimately show ?thesis
      using eq2 b False by simp
  qed
  then show "sessionDataMap s' = filter (\<lambda>d. s_num d \<notin> outdated s) (sessionDataMap s)"
    "set out = timed_out s ` {d \<in> set (sessionDataMap s). s_num d \<in> outdated s}" "distinct (map s_num out)"
    "sessionBuckets s' = (if length (sessionBuckets s) < capacity s then sessionBuckets s else tl (sessionBuckets s)) @ [[]]"
    "capacity s' = capacity s" "next_num s' = next_num s" "s_timer s' = s_timer s" by blast+
qed

text \<open>The sessions of a table, and what a step does with them: keep, report or create.\<close>

definition nums :: "SessionData list \<Rightarrow> nat set" where
  "nums ds = s_num ` set ds"

lemma nums_simps [simp]:
  "nums [] = {}" "nums (d # ds) = insert (s_num d) (nums ds)" "nums (ds @ es) = nums ds \<union> nums es"
  by (simp_all add: nums_def image_Un)

definition moves :: "TcpSession \<Rightarrow> SessionData list \<Rightarrow> TcpSession \<Rightarrow> bool" where
  "moves s out s' \<longleftrightarrow> distinct (map s_num out) \<and> nums out \<inter> nums (sessionDataMap s') = {} \<and>
     next_num s \<le> next_num s' \<and>
     nums out \<union> nums (sessionDataMap s') = nums (sessionDataMap s) \<union> {next_num s..<next_num s'}"

lemma moves_refl [simp]: "moves s [] s"
  by (simp add: moves_def)

lemma moves_trans:
  assumes "moves s o1 s1" and "moves s1 o2 s2" and "nums (sessionDataMap s) \<subseteq> {..<next_num s}"
  shows "moves s (o1 @ o2) s2"
proof -
  have "nums o1 \<inter> nums o2 = {} \<and> nums o1 \<inter> nums (sessionDataMap s2) = {}"
  proof (rule ccontr)
    assume "\<not> ?thesis"
    then obtain n where n: "n \<in> nums o1" "n \<in> nums o2 \<or> n \<in> nums (sessionDataMap s2)" by blast
    then have "n < next_num s1"
      using assms(1,3) unfolding moves_def by (metis UnCI UnE atLeastLessThan_iff lessThan_iff less_le_trans subsetD)
    moreover have "n \<in> nums (sessionDataMap s1) \<union> {next_num s1..<next_num s2}"
      using assms(2) n(2) unfolding moves_def by blast
    ultimately show False
      using assms(1) n(1) unfolding moves_def by auto
  qed
  moreover have "{next_num s..<next_num s1} \<union> {next_num s1..<next_num s2} = {next_num s..<next_num s2}"
    using assms by (intro ivl_disj_un_two) (auto simp: moves_def)
  moreover have "nums (o1 @ o2) \<union> nums (sessionDataMap s2) = (nums o1 \<union> nums (sessionDataMap s1)) \<union> {next_num s1..<next_num s2}"
    using assms(2) by (simp add: moves_def Un_assoc)
  moreover have "\<dots> = nums (sessionDataMap s) \<union> ({next_num s..<next_num s1} \<union> {next_num s1..<next_num s2})"
    using assms(1) by (simp add: moves_def Un_assoc)
  moreover have "nums o2 \<inter> nums (sessionDataMap s2) = {}" "distinct (map s_num o1)" "distinct (map s_num o2)"
    "next_num s \<le> next_num s2"
    using assms(1,2) by (auto simp: moves_def)
  ultimately show ?thesis
    unfolding moves_def by (simp add: nums_def image_Un Int_Un_distrib2)
qed

lemma ses_ok_nums: "ses_ok s \<Longrightarrow> nums (sessionDataMap s) \<subseteq> {..<next_num s}"
  by (auto simp: ses_ok_def nums_def)

lemma timer_step:
  assumes ok: "ses_ok s" and eq: "onTimer s = (out, s')"
  shows "ses_ok s'" "moves s out s'" "sessionBuckets s' \<noteq> []"
proof -
  note r = onTimer_result[OF ok eq]
  show "sessionBuckets s' \<noteq> []"
    using r(4) by simp
  have keep: "in_buckets s' = in_buckets s - outdated s"
  proof (cases "length (sessionBuckets s) < capacity s")
    case True
    then show ?thesis by (simp add: r(4) in_buckets_def outdated_def)
  next
    case False
    with ok obtain b bs where "sessionBuckets s = b # bs"
      by (cases "sessionBuckets s") (auto simp: ses_ok_def)
    with False show ?thesis by (auto simp: r(4) in_buckets_def outdated_def)
  qed
  have len: "length (sessionBuckets s') \<le> capacity s'" "\<forall>b \<in> set (sessionBuckets s'). distinct b"
    using ok r(4,5) by (cases "sessionBuckets s"; auto simp: ses_ok_def)+
  show "ses_ok s'"
    using ok r(1,5,6) len keep by (auto simp: ses_ok_def keys_apart_filter distinct_map_filter)
  have "nums out = {n \<in> nums (sessionDataMap s). n \<in> outdated s}"
    unfolding nums_def r(2) by (auto simp: timed_out_def image_iff)
  then show "moves s out s'"
    using r(1,3,6) by (auto simp: moves_def nums_def)
qed

text \<open>Entering a number into the newest bucket.\<close>

lemma insert_back_Some:
  assumes "sessionBuckets s \<noteq> []"
  shows "\<exists>s'. insert_back n s = Some s' \<and> in_buckets s' = insert n (in_buckets s) \<and>
    length (sessionBuckets s') = length (sessionBuckets s) \<and> sessionBuckets s' \<noteq> [] \<and>
    ((\<forall>b \<in> set (sessionBuckets s). distinct b) \<longrightarrow> (\<forall>b \<in> set (sessionBuckets s'). distinct b)) \<and>
    sessionDataMap s' = sessionDataMap s \<and> capacity s' = capacity s \<and> next_num s' = next_num s \<and> s_timer s' = s_timer s"
proof -
  obtain bs b where b: "sessionBuckets s = bs @ [b]"
    using assms by (metis append_butlast_last_id)
  then show ?thesis by (auto simp: insert_back_def in_buckets_def)
qed

lemma updateSession_key [simp]: "s_num (updateSession t4 len flag d) = s_num d" "t4_of (updateSession t4 len flag d) = t4_of d"
  by (simp_all add: updateSession_def)

lemma find_session_Some:
  assumes "find_session t4 s = Some d"
  shows "d \<in> set (sessionDataMap s)" "Tuple4HashEqual t4 (t4_of d)"
  using assms by (auto simp: find_session_def find_Some_iff)

lemma find_session_None: "find_session t4 s = None \<Longrightarrow> d \<in> set (sessionDataMap s) \<Longrightarrow> \<not> Tuple4HashEqual t4 (t4_of d)"
  by (auto simp: find_session_def find_None_iff)

text \<open>A session with an entry: its dead branch is not reachable.\<close>

lemma known_session_step:
  assumes ok: "ses_ok s" and found: "find_session t4 s = Some d" and nonempty: "sessionBuckets s \<noteq> []"
  shows "getEntryPtr d s = Some (s_num d)"
    and "\<exists>out s'. known_session t4 len flag junk ts d s = Some (out, s') \<and> ses_ok s' \<and> moves s out s' \<and>
      sessionBuckets s' \<noteq> [] \<and> s_timer s' = s_timer s"
proof -
  note f = find_session_Some[OF found]
  show live: "getEntryPtr d s = Some (s_num d)"
    using ok f(1) by (simp add: ses_ok_def getEntryPtr_def in_buckets_def)
  show "\<exists>out s'. known_session t4 len flag junk ts d s = Some (out, s') \<and> ses_ok s' \<and> moves s out s' \<and>
      sessionBuckets s' \<noteq> [] \<and> s_timer s' = s_timer s"
  proof (cases "has_flag flag TH_FIN \<or> has_flag flag TH_RST")
    case True
    have e: "filter (\<lambda>e. \<not> Tuple4HashEqual t4 (t4_of e)) (sessionDataMap s) = filter (\<lambda>e. s_num e \<noteq> s_num d) (sessionDataMap s)"
      using ok f by (intro erase_by_key) (simp_all add: ses_ok_def)
    let ?s = "erase_session t4 s"
    have "ses_ok ?s"
      using ok by (auto simp: ses_ok_def erase_session_def in_buckets_def keys_apart_filter distinct_map_filter)
    moreover have "moves s [updateSession t4 len flag (d\<lparr>endTime := ts\<rparr>)] ?s"
      using f(1) by (auto simp: moves_def erase_session_def e nums_def)
    ultimately show ?thesis
      using True live nonempty by (simp add: known_session_def Let_def erase_session_def)
  next
    case False
    obtain s1 where s1: "insert_back (s_num d) s = Some s1" "in_buckets s1 = insert (s_num d) (in_buckets s)"
      "length (sessionBuckets s1) = length (sessionBuckets s)" "sessionBuckets s1 \<noteq> []"
      "(\<forall>b \<in> set (sessionBuckets s). distinct b) \<longrightarrow> (\<forall>b \<in> set (sessionBuckets s1). distinct b)"
      "sessionDataMap s1 = sessionDataMap s" "capacity s1 = capacity s" "next_num s1 = next_num s" "s_timer s1 = s_timer s"
      using insert_back_Some[OF nonempty] by blast
    let ?d = "updateSession t4 len flag d"
    have nums: "map s_num (sessionDataMap (put_session ?d s1)) = map s_num (sessionDataMap s)"
      by (simp add: put_session_def s1(6))
    have "e = d" if "e \<in> set (sessionDataMap s)" "s_num e = s_num d" for e
      using ok f(1) that by (auto simp: ses_ok_def distinct_map dest: inj_onD)
    then have "\<forall>e \<in> set (sessionDataMap s). t4_of (if s_num e = s_num ?d then ?d else e) = t4_of e"
      by auto
    then have "keys_apart (sessionDataMap (put_session ?d s1))"
      unfolding put_session_def using ok s1(6) by (simp add: keys_apart_map ses_ok_def)
    moreover have "distinct (map s_num (sessionDataMap (put_session ?d s1)))"
      unfolding nums using ok by (simp add: ses_ok_def)
    moreover have "\<forall>n \<in> set (map s_num (sessionDataMap (put_session ?d s1))). n < next_num s \<and> n \<in> in_buckets s"
      unfolding nums using ok by (simp add: ses_ok_def)
    moreover have "sessionBuckets (put_session ?d s1) = sessionBuckets s1" "capacity (put_session ?d s1) = capacity s"
      "next_num (put_session ?d s1) = next_num s" "in_buckets (put_session ?d s1) = in_buckets s"
      using s1 ok f(1) by (auto simp: put_session_def in_buckets_def ses_ok_def)
    ultimately have "ses_ok (put_session ?d s1)"
      using ok s1(3,5) by (simp add: ses_ok_def)
    moreover have "moves s [] (put_session ?d s1)"
      using nums s1(8) by (simp add: moves_def nums_def put_session_def flip: set_map)
    ultimately show ?thesis
      using False live s1 by (simp add: known_session_def put_session_def)
  qed
qed

lemma new_connection_step:
  assumes ok: "ses_ok s" and none: "find_session t4 s = None" and nonempty: "sessionBuckets s \<noteq> []"
  shows "\<exists>s'. new_connection t4 len flag junk ts s = Some ([], s') \<and> ses_ok s' \<and> moves s [] s' \<and>
    sessionBuckets s' \<noteq> [] \<and> s_timer s' = s_timer s"
proof (cases "has_flag flag TH_SYN")
  case True
  let ?s = "s\<lparr>next_num := next_num s + 1\<rparr>"
  obtain s1 where s1: "insert_back (next_num s) ?s = Some s1" "in_buckets s1 = insert (next_num s) (in_buckets ?s)"
    "length (sessionBuckets s1) = length (sessionBuckets ?s)" "sessionBuckets s1 \<noteq> []"
    "(\<forall>b \<in> set (sessionBuckets ?s). distinct b) \<longrightarrow> (\<forall>b \<in> set (sessionBuckets s1). distinct b)"
    "sessionDataMap s1 = sessionDataMap ?s" "capacity s1 = capacity ?s" "next_num s1 = next_num ?s" "s_timer s1 = s_timer ?s"
    using insert_back_Some[of ?s "next_num s"] nonempty by auto
  define d where "d = updateSession t4 len flag (new_session (next_num s) junk t4 ts)"
  have d: "s_num d = next_num s" "t4_of d = t4"
    by (simp_all add: d_def new_session_def)
  let ?s' = "s1\<lparr>sessionDataMap := sessionDataMap s @ [d]\<rparr>"
  have apart: "keys_apart (sessionDataMap s @ [d])"
    using ok find_session_None[OF none] Tuple4HashEqual_sym unfolding keys_apart_def ses_ok_def by (auto simp: d)
  have fresh: "\<forall>e \<in> set (sessionDataMap s). s_num e < next_num s \<and> s_num e \<in> in_buckets s"
    using ok by (simp add: ses_ok_def)
  have "in_buckets ?s' = insert (next_num s) (in_buckets s)"
    using s1(2) by (simp add: in_buckets_def)
  then have "ses_ok ?s'"
    using ok s1(3,5,7,8) d apart fresh unfolding ses_ok_def by (auto simp: less_Suc_eq)
  moreover have "moves s [] ?s'"
    using s1(8) d by (auto simp: moves_def)
  moreover have "new_connection t4 len flag junk ts s = Some ([], ?s')"
    using True s1(1,6) by (simp add: new_connection_def onConnection_def d_def Let_def)
  ultimately show ?thesis
    using s1(4,9) by simp
next
  case False
  then show ?thesis
    using ok nonempty by (simp add: new_connection_def)
qed

text \<open>Once the timer has fired there is a bucket.\<close>

definition wheel_ok :: "TcpSession \<Rightarrow> bool" where
  "wheel_ok s \<longleftrightarrow> ses_ok s \<and> (sessionBuckets s = [] \<longrightarrow> time (s_timer s) = 0)"

lemma ses_ok_timer [simp]: "ses_ok (s\<lparr>s_timer := t\<rparr>) = ses_ok s" "moves (s\<lparr>s_timer := t\<rparr>) out s' = moves s out s'"
  "moves s out (s'\<lparr>s_timer := t\<rparr>) = moves s out s'"
  by (simp_all add: ses_ok_def in_buckets_def moves_def)

lemma session_packet_step:
  assumes ok: "wheel_ok s" and ready: "sessionBuckets s \<noteq> [] \<or> (locked \<and> 0 \<le> tv_sec ts)"
  shows "\<exists>out s'. session_packet locked junk t4 len flag ts s = Some (out, s') \<and> wheel_ok s' \<and> moves s out s' \<and>
    sessionBuckets s' \<noteq> []"
proof -
  obtain fire tm where c: "checkTime locked (s_timer s) ts = (fire, tm)" by fastforce
  let ?s1 = "s\<lparr>s_timer := tm\<rparr>"
  obtain o1 s2 where t: "(if fire then onTimer ?s1 else ([], ?s1)) = (o1, s2)" by fastforce
  have ok1: "ses_ok ?s1"
    using ok by (simp add: wheel_ok_def)
  have s2: "ses_ok s2 \<and> moves s o1 s2 \<and> sessionBuckets s2 \<noteq> []"
  proof (cases fire)
    case True
    with t have "onTimer ?s1 = (o1, s2)" by simp
    from timer_step[OF ok1 this] show ?thesis by simp
  next
    case False
    have "sessionBuckets s \<noteq> []"
      using False c ok ready by (auto simp: checkTime_def wheel_ok_def split: if_splits)
    with False t ok1 show ?thesis by auto
  qed
  have "\<exists>o2 s'. (case find_session t4 s2 of None \<Rightarrow> new_connection t4 len flag junk ts s2
      | Some d \<Rightarrow> known_session t4 len flag junk ts d s2) = Some (o2, s') \<and> ses_ok s' \<and> moves s2 o2 s' \<and> sessionBuckets s' \<noteq> []"
  proof (cases "find_session t4 s2")
    case None
    then show ?thesis using new_connection_step[OF _ None] s2 by fastforce
  next
    case (Some d)
    then show ?thesis using known_session_step(2)[OF _ Some] s2 by fastforce
  qed
  then obtain o2 s' where p: "(case find_session t4 s2 of None \<Rightarrow> new_connection t4 len flag junk ts s2
      | Some d \<Rightarrow> known_session t4 len flag junk ts d s2) = Some (o2, s')" "ses_ok s'" "moves s2 o2 s'" "sessionBuckets s' \<noteq> []"
    by blast
  have "session_packet locked junk t4 len flag ts s = Some (o1 @ o2, s')"
    using c t p(1) by (simp add: session_packet_def)
  moreover have "moves s (o1 @ o2) s'"
    using moves_trans[of s o1 s2 o2 s'] s2 p(3) ses_ok_nums[of s] ok by (simp add: wheel_ok_def)
  ultimately show ?thesis
    using p(2,4) by (auto simp: wheel_ok_def)
qed

section \<open>Runs\<close>

record session_event =
  ev_locked :: bool
  ev_junk :: timeval
  ev_data :: bytes
  ev_len :: int
  ev_ts :: timeval

fun session_run :: "session_event list \<Rightarrow> TcpSession \<Rightarrow> (SessionData list \<times> TcpSession) option" where
  "session_run [] s = Some ([], s)"
| "session_run (e # es) s = do {
     (out, s1) \<leftarrow> ts_onTcpData (ev_locked e) (ev_junk e) (ev_data e) (ev_len e) (ev_ts e) s;
     (outs, s2) \<leftarrow> session_run es s1;
     Some (out @ outs, s2) }"

text \<open>The headers are in the buffer, the lock is free and the clock is not before 1970.\<close>

definition readable :: "session_event \<Rightarrow> bool" where
  "readable e \<longleftrightarrow> ev_locked e \<and> 0 \<le> tv_sec (ev_ts e) \<and>
     (\<exists>iph. ip_view (ev_data e) = Some iph \<and>
        (20 \<le> ev_len e - 4 * int (ip_hl iph) \<longrightarrow> tcp_view (ev_data e) (4 * ip_hl iph) \<noteq> None))"

lemma ts_onTcpData_step:
  assumes "wheel_ok s" and "readable e"
  shows "\<exists>out s'. ts_onTcpData (ev_locked e) (ev_junk e) (ev_data e) (ev_len e) (ev_ts e) s = Some (out, s') \<and>
    wheel_ok s' \<and> moves s out s'"
proof -
  obtain iph where iph: "ip_view (ev_data e) = Some iph"
    "20 \<le> ev_len e - 4 * int (ip_hl iph) \<longrightarrow> tcp_view (ev_data e) (4 * ip_hl iph) \<noteq> None"
    using assms(2) by (auto simp: readable_def)
  show ?thesis
  proof (cases "ev_len e - 4 * int (ip_hl iph) < 20")
    case True
    with iph assms(1) show ?thesis by (simp add: ts_onTcpData_def)
  next
    case False
    then obtain tcp where tcp: "tcp_view (ev_data e) (4 * ip_hl iph) = Some tcp"
      using iph(2) by (cases "tcp_view (ev_data e) (4 * ip_hl iph)") auto
    have "sessionBuckets s \<noteq> [] \<or> (ev_locked e \<and> 0 \<le> tv_sec (ev_ts e))"
      using assms(2) by (simp add: readable_def)
    from session_packet_step[OF assms(1) this] False iph(1) tcp show ?thesis
      by (fastforce simp: ts_onTcpData_def Let_def)
  qed
qed

lemma session_run_step:
  "\<lbrakk>wheel_ok s; \<forall>e \<in> set es. readable e\<rbrakk> \<Longrightarrow>
   \<exists>out s'. session_run es s = Some (out, s') \<and> wheel_ok s' \<and> moves s out s'"
proof (induction es arbitrary: s)
  case Nil
  then show ?case by simp
next
  case (Cons e es)
  obtain o1 s1 where s1: "ts_onTcpData (ev_locked e) (ev_junk e) (ev_data e) (ev_len e) (ev_ts e) s = Some (o1, s1)"
    "wheel_ok s1" "moves s o1 s1"
    using ts_onTcpData_step[of s e] Cons.prems by auto
  obtain o2 s2 where s2: "session_run es s1 = Some (o2, s2)" "wheel_ok s2" "moves s1 o2 s2"
    using Cons.IH[OF s1(2)] Cons.prems by auto
  show ?case
    using s1 s2 moves_trans[OF s1(3) s2(3)] ses_ok_nums[of s] Cons.prems(1) by (simp add: wheel_ok_def)
qed

lemma wheel_init: "0 < n \<Longrightarrow> wheel_ok (TcpSession_init n)"
  using TcpSession_init_ok[of n] by (simp add: wheel_ok_def TcpSession_init_def timer_init_def)

section \<open>Timeouts\<close>

text \<open>The last bucket that holds entry \<open>n\<close> is overwritten within \<open>k\<close> turns of the wheel.\<close>

definition expires_in :: "nat \<Rightarrow> nat \<Rightarrow> TcpSession \<Rightarrow> bool" where
  "expires_in n k s \<longleftrightarrow> (\<forall>i < length (sessionBuckets s). n \<in> set (sessionBuckets s ! i) \<longrightarrow>
     i + (capacity s - length (sessionBuckets s)) < k)"

lemma expires_in_capacity: "ses_ok s \<Longrightarrow> expires_in n (capacity s) s"
  by (auto simp: expires_in_def ses_ok_def)

lemma expires_in_0: "expires_in n 0 s \<Longrightarrow> n \<notin> in_buckets s"
  by (force simp: expires_in_def in_buckets_def in_set_conv_nth[of _ "sessionBuckets s"])

lemma expires_in_upd [simp]: "expires_in n k (s\<lparr>s_timer := t\<rparr>) = expires_in n k s"
  "expires_in n k (s\<lparr>sessionDataMap := ds\<rparr>) = expires_in n k s" "expires_in n k (s\<lparr>next_num := m\<rparr>) = expires_in n k s"
  by (simp_all add: expires_in_def)

lemma insert_back_expires:
  assumes "insert_back m s = Some s'" and "m \<noteq> n"
  shows "expires_in n k s' = expires_in n k s"
proof -
  obtain bs b where b: "sessionBuckets s = bs @ [b]"
    using assms(1) by (metis append_butlast_last_id insert_back_def option.distinct(1))
  then have "sessionBuckets s' = bs @ [List.insert m b]" "capacity s' = capacity s"
    using assms(1) by (auto simp: insert_back_def)
  with b assms(2) show ?thesis by (auto simp: expires_in_def nth_append)
qed

lemma onTimer_expires:
  assumes "ses_ok s" and "onTimer s = (out, s')" and "expires_in n (Suc k) s"
  shows "expires_in n k s'"
proof (cases "length (sessionBuckets s) < capacity s")
  case True
  then have "sessionBuckets s' = sessionBuckets s @ [[]]" "capacity s' = capacity s"
    using onTimer_result(4,5)[OF assms(1,2)] by simp_all
  with assms(3) True show ?thesis
    by (auto simp: expires_in_def nth_append less_Suc_eq split: if_splits)
next
  case False
  then obtain b bs where b: "sessionBuckets s = b # bs"
    using assms(1) by (cases "sessionBuckets s") (auto simp: ses_ok_def)
  then have "sessionBuckets s' = bs @ [[]]" "capacity s' = capacity s"
    using onTimer_result(4,5)[OF assms(1,2)] False by simp_all
  moreover have "capacity s = Suc (length bs)"
    using assms(1) False b by (simp add: ses_ok_def)
  moreover have "n \<in> set (bs ! i) \<Longrightarrow> i < length bs \<Longrightarrow> i < k" for i
    using assms(3) b \<open>capacity s = Suc (length bs)\<close> unfolding expires_in_def by (metis Suc_less_eq add_Suc diff_self_eq_0 length_Cons nth_Cons_Suc add.right_neutral)
  ultimately show ?thesis
    by (auto simp: expires_in_def nth_append less_Suc_eq)
qed

text \<open>A packet of another connection leaves a session and its entry alone.\<close>

lemma other_packet:
  assumes ok: "ses_ok s" and d: "d \<in> set (sessionDataMap s)" and key: "\<not> Tuple4HashEqual t4 (t4_of d)"
    and ex: "expires_in (s_num d) k s"
    and eq: "(case find_session t4 s of None \<Rightarrow> new_connection t4 len flag junk ts s
      | Some d \<Rightarrow> known_session t4 len flag junk ts d s) = Some (out, s')"
  shows "d \<in> set (sessionDataMap s')" "expires_in (s_num d) k s'"
proof -
  have "d \<in> set (sessionDataMap s') \<and> expires_in (s_num d) k s'"
  proof (cases "find_session t4 s")
    case None
    have fresh: "next_num s \<noteq> s_num d"
      using ok d by (auto simp: ses_ok_def)
    have "d \<in> set (sessionDataMap s1) \<and> expires_in (s_num d) k s1"
      if "insert_back (next_num s) (s\<lparr>next_num := Suc (next_num s)\<rparr>) = Some s1" for s1
      using insert_back_expires[OF that fresh, of k] ex d that by (auto simp: insert_back_def split: if_splits)
    with None eq d ex show ?thesis
      by (auto simp: new_connection_def onConnection_def Let_def split: if_splits Option.bind_splits)
  next
    case (Some e)
    note f = find_session_Some[OF Some]
    have ne: "s_num e \<noteq> s_num d"
      using ok d f key by (auto simp: ses_ok_def distinct_map dest: inj_onD)
    have live: "getEntryPtr e s = Some (s_num e)"
      using ok f(1) by (simp add: ses_ok_def getEntryPtr_def in_buckets_def)
    show ?thesis
    proof (cases "has_flag flag TH_FIN \<or> has_flag flag TH_RST")
      case True
      then have "s' = erase_session t4 s"
        using eq Some live by (auto simp: known_session_def Let_def)
      then show ?thesis
        using d key ex by (simp add: erase_session_def)
    next
      case False
      then obtain s1 where s1: "insert_back (s_num e) s = Some s1" "s' = put_session (updateSession t4 len flag e) s1"
        using eq Some live by (auto simp: known_session_def split: Option.bind_splits)
      have "d \<in> set (sessionDataMap s1)"
        using d s1(1) by (auto simp: insert_back_def split: if_splits)
      then show ?thesis
        using ne insert_back_expires[OF s1(1) ne, of k] ex
        by (auto simp: s1(2) put_session_def image_iff intro!: bexI[of _ d])
    qed
  qed
  then show "d \<in> set (sessionDataMap s')" "expires_in (s_num d) k s'" by blast+
qed

text \<open>A report of \<open>d\<close> as timed out.\<close>

definition reported_idle :: "SessionData \<Rightarrow> SessionData list \<Rightarrow> bool" where
  "reported_idle d out \<longleftrightarrow> (\<exists>t. d\<lparr>normallyClosed := False, endTime := t\<rparr> \<in> set out)"

lemma reported_idle_append [simp]: "reported_idle d (a @ b) \<longleftrightarrow> reported_idle d a \<or> reported_idle d b"
  by (auto simp: reported_idle_def)

lemma session_packet_idle:
  assumes ok: "wheel_ok s" and d: "d \<in> set (sessionDataMap s)" and key: "\<not> Tuple4HashEqual t4 (t4_of d)"
    and ex: "expires_in (s_num d) k s" and eq: "session_packet locked junk t4 len flag ts s = Some (out, s')"
  shows "reported_idle d out \<or> (d \<in> set (sessionDataMap s') \<and>
    expires_in (s_num d) (if time (s_timer s') = time (s_timer s) then k else k - 1) s' \<and>
    (time (s_timer s') \<noteq> time (s_timer s) \<longrightarrow> 0 < k))"
proof -
  obtain fire tm where c: "checkTime locked (s_timer s) ts = (fire, tm)" by fastforce
  have tm: "fire \<longleftrightarrow> time tm \<noteq> time (s_timer s)"
    using c by (auto simp: checkTime_def split: if_splits)
  let ?s1 = "s\<lparr>s_timer := tm\<rparr>"
  obtain o1 s2 where t: "(if fire then onTimer ?s1 else ([], ?s1)) = (o1, s2)" by fastforce
  obtain o2 where p: "(case find_session t4 s2 of None \<Rightarrow> new_connection t4 len flag junk ts s2
      | Some d \<Rightarrow> known_session t4 len flag junk ts d s2) = Some (o2, s')" "out = o1 @ o2"
    using eq c t by (auto simp: session_packet_def split: Option.bind_splits)
  have ok1: "ses_ok ?s1"
    using ok by (simp add: wheel_ok_def)
  have live: "s_num d \<in> in_buckets s"
    using ok d by (simp add: wheel_ok_def ses_ok_def)
  have timer: "s_timer s' = s_timer s2" if "ses_ok s2" "sessionBuckets s2 \<noteq> []"
  proof (cases "find_session t4 s2")
    case None
    with p(1) new_connection_step[OF that(1) None that(2), of len flag junk ts] show ?thesis by auto
  next
    case (Some e)
    with p(1) known_session_step(2)[OF that(1) Some that(2), of len flag junk ts] show ?thesis by auto
  qed
  show ?thesis
  proof (cases fire)
    case True
    with t have tick: "onTimer ?s1 = (o1, s2)" by simp
    note r = onTimer_result[OF ok1 tick] and st = timer_step[OF ok1 tick]
    have pos: "0 < k"
      using expires_in_0[of "s_num d" s] live ex by (cases k) auto
    show ?thesis
    proof (cases "s_num d \<in> outdated ?s1")
      case True
      then have "timed_out ?s1 d \<in> set o1"
        unfolding r(2) using d by simp
      then show ?thesis by (auto simp: p(2) reported_idle_def timed_out_def)
    next
      case False
      then have d2: "d \<in> set (sessionDataMap s2)"
        using d by (simp add: r(1))
      have "expires_in (s_num d) (k - 1) s2"
        using onTimer_expires[OF ok1 tick, of "s_num d" "k - 1"] ex pos by simp
      from other_packet[OF st(1) d2 key this p(1)] show ?thesis
        using pos tm True timer[OF st(1,3)] r(7) by auto
    qed
  next
    case False
    with t have s2: "s2 = ?s1" by simp
    have "sessionBuckets s2 \<noteq> []"
      using live by (auto simp: s2 in_buckets_def)
    with other_packet[of s2 d t4 k len flag junk ts o2 s'] ok1 d key ex p(1) timer tm False show ?thesis
      by (simp add: s2)
  qed
qed

text \<open>The key of an event's packet, and the turns of the wheel in a run.\<close>

definition event_key :: "session_event \<Rightarrow> tuple4 option" where
  "event_key e = do {
     iph \<leftarrow> ip_view (ev_data e);
     tcp \<leftarrow> tcp_view (ev_data e) (4 * ip_hl iph);
     Some \<lparr>source = th_sport tcp, dest = th_dport tcp, saddr = ip_src iph, daddr = ip_dst iph\<rparr> }"

fun session_ticks :: "session_event list \<Rightarrow> TcpSession \<Rightarrow> nat" where
  "session_ticks [] s = 0"
| "session_ticks (e # es) s = (case ts_onTcpData (ev_locked e) (ev_junk e) (ev_data e) (ev_len e) (ev_ts e) s of
     None \<Rightarrow> 0
   | Some (out, s1) \<Rightarrow> of_bool (time (s_timer s1) \<noteq> time (s_timer s)) + session_ticks es s1)"

lemma ts_onTcpData_idle:
  assumes ok: "wheel_ok s" and d: "d \<in> set (sessionDataMap s)" and ex: "expires_in (s_num d) k s"
    and key: "\<forall>t. event_key e = Some t \<longrightarrow> \<not> Tuple4HashEqual t (t4_of d)"
    and eq: "ts_onTcpData (ev_locked e) (ev_junk e) (ev_data e) (ev_len e) (ev_ts e) s = Some (out, s')"
  shows "reported_idle d out \<or> (d \<in> set (sessionDataMap s') \<and>
    expires_in (s_num d) (if time (s_timer s') = time (s_timer s) then k else k - 1) s' \<and>
    (time (s_timer s') \<noteq> time (s_timer s) \<longrightarrow> 0 < k))"
    and "wheel_ok s'"
proof -
  obtain iph where iph: "ip_view (ev_data e) = Some iph"
    using eq by (auto simp: ts_onTcpData_def split: Option.bind_splits)
  have "(reported_idle d out \<or> (d \<in> set (sessionDataMap s') \<and>
    expires_in (s_num d) (if time (s_timer s') = time (s_timer s) then k else k - 1) s' \<and>
    (time (s_timer s') \<noteq> time (s_timer s) \<longrightarrow> 0 < k))) \<and> wheel_ok s'"
  proof (cases "ev_len e - 4 * int (ip_hl iph) < 20")
    case True
    with eq iph ok d ex show ?thesis by (simp add: ts_onTcpData_def)
  next
    case False
    with eq iph obtain tcp where tcp: "tcp_view (ev_data e) (4 * ip_hl iph) = Some tcp"
      by (auto simp: ts_onTcpData_def split: Option.bind_splits)
    define t where "t = \<lparr>source = th_sport tcp, dest = th_dport tcp, saddr = ip_src iph, daddr = ip_dst iph\<rparr>"
    have eq': "session_packet (ev_locked e) (ev_junk e) t (ev_len e - 4 * int (ip_hl iph)) (th_flags tcp) (ev_ts e) s = Some (out, s')"
      using eq iph tcp False by (simp add: ts_onTcpData_def t_def)
    have k: "\<not> Tuple4HashEqual t (t4_of d)"
      using key iph tcp by (simp add: event_key_def t_def)
    have "sessionBuckets s \<noteq> []"
      using ok d by (auto simp: wheel_ok_def ses_ok_def in_buckets_def)
    then have "wheel_ok s'"
      using session_packet_step[OF ok, of "ev_locked e" "ev_ts e" "ev_junk e" t "ev_len e - 4 * int (ip_hl iph)" "th_flags tcp"] eq' by auto
    with session_packet_idle[OF ok d k ex eq'] show ?thesis by blast
  qed
  then show "reported_idle d out \<or> (d \<in> set (sessionDataMap s') \<and>
    expires_in (s_num d) (if time (s_timer s') = time (s_timer s) then k else k - 1) s' \<and>
    (time (s_timer s') \<noteq> time (s_timer s) \<longrightarrow> 0 < k))" "wheel_ok s'" by blast+
qed

lemma session_run_idle:
  "\<lbrakk>wheel_ok s; d \<in> set (sessionDataMap s); expires_in (s_num d) k s;
    \<forall>e \<in> set es. \<forall>t. event_key e = Some t \<longrightarrow> \<not> Tuple4HashEqual t (t4_of d);
    session_run es s = Some (out, s'); k \<le> session_ticks es s\<rbrakk> \<Longrightarrow> reported_idle d out"
proof (induction es arbitrary: s k out)
  case Nil
  then have "s_num d \<notin> in_buckets s"
    using expires_in_0 by simp
  with Nil show ?case by (auto simp: wheel_ok_def ses_ok_def)
next
  case (Cons e es)
  obtain o1 s1 where s1: "ts_onTcpData (ev_locked e) (ev_junk e) (ev_data e) (ev_len e) (ev_ts e) s = Some (o1, s1)"
    using Cons.prems(5) by (auto split: Option.bind_splits)
  obtain o2 where o2: "session_run es s1 = Some (o2, s')" "out = o1 @ o2"
    using Cons.prems(5) s1 by (auto split: Option.bind_splits)
  have key: "\<forall>t. event_key e = Some t \<longrightarrow> \<not> Tuple4HashEqual t (t4_of d)"
    using Cons.prems(4) by simp
  note step = ts_onTcpData_idle[OF Cons.prems(1-3) key s1]
  show ?case
  proof (cases "reported_idle d o1")
    case False
    let ?k = "if time (s_timer s1) = time (s_timer s) then k else k - 1"
    have "?k \<le> session_ticks es s1"
      using Cons.prems(6) s1 by (auto split: if_splits)
    with Cons.IH[OF step(2), of ?k o2] step(1) False Cons.prems(4) o2 show ?thesis by auto
  qed (simp add: o2(2))
qed

section \<open>Properties\<close>

text \<open>
  C24: Ownership. For all readable packets with a free timer lock, processing is defined, the
  wheel keeps its size, and every session in the table has a live entry: the branch of
  \<open>onTcpData\<close> for dead connections is never taken.
\<close>

theorem session_entries_live:
  assumes "0 < n" and "\<forall>e \<in> set es. readable e"
  shows "\<exists>out s. session_run es (TcpSession_init n) = Some (out, s) \<and> length (sessionBuckets s) \<le> capacity s \<and>
    (\<forall>d \<in> set (sessionDataMap s). getEntryPtr d s = Some (s_num d))"
  using session_run_step[OF wheel_init[OF assms(1)] assms(2)]
  by (fastforce simp: wheel_ok_def ses_ok_def getEntryPtr_def in_buckets_def)

definition sample_tcp_packet :: "u8 \<Rightarrow> u8 \<Rightarrow> bytes" where
  "sample_tcp_packet port flags = [0x45, 0, 0, 40, 0, 1, 0, 0, 64, 6, 0, 0, 10, 0, 0, 1, 10, 0, 0, 2,
     1, port, 0, 80, 0, 0, 0, 1, 0, 0, 0, 0, 0x50, flags, 16, 0, 0, 0, 0, 0]"

definition sample_event :: "u8 \<Rightarrow> u8 \<Rightarrow> int \<Rightarrow> session_event" where
  "sample_event port flags t = \<lparr>ev_locked = True, ev_junk = \<lparr>tv_sec = 0, tv_usec = 0\<rparr>, ev_data = sample_tcp_packet port flags,
     ev_len = 232, ev_ts = \<lparr>tv_sec = t, tv_usec = 0\<rparr>\<rparr>"

lemma sample_readable: "0 \<le> t \<Longrightarrow> readable (sample_event port flags t)"
  by (simp add: readable_def sample_event_def sample_tcp_packet_def ip_view_def)

lemma session_entries_live_witness:
  "\<exists>out s. session_run [sample_event 7 2 5, sample_event 7 1 6] (TcpSession_init 60) = Some (out, s) \<and>
    length (sessionBuckets s) \<le> capacity s \<and> (\<forall>d \<in> set (sessionDataMap s). getEntryPtr d s = Some (s_num d))"
  by (rule session_entries_live) (simp_all add: sample_readable)

text \<open>
  C25: Conservation. Over any run of readable packets the sessions reported to the callbacks and
  the sessions still in the table are together exactly the sessions ever created, each once.
\<close>

theorem session_conserved:
  assumes "0 < n" and "\<forall>e \<in> set es. readable e" and "session_run es (TcpSession_init n) = Some (out, s)"
  shows "distinct (map s_num (out @ sessionDataMap s)) \<and> s_num ` set (out @ sessionDataMap s) = {..<next_num s}"
proof -
  have s: "wheel_ok s" "moves (TcpSession_init n) out s"
    using session_run_step[OF wheel_init[OF assms(1)] assms(2)] assms(3) by auto
  have "nums out \<union> nums (sessionDataMap s) = {0..<next_num s}"
    using s(2) by (simp add: moves_def TcpSession_init_def)
  moreover have "distinct (map s_num out)" "distinct (map s_num (sessionDataMap s))" "nums out \<inter> nums (sessionDataMap s) = {}"
    using s by (simp_all add: moves_def wheel_ok_def ses_ok_def)
  ultimately show ?thesis
    by (simp add: nums_def image_Un lessThan_atLeast0)
qed

lemma session_conserved_witness:
  "\<exists>out s. session_run [sample_event 7 2 5, sample_event 7 1 6] (TcpSession_init 60) = Some (out, s) \<and>
     distinct (map s_num (out @ sessionDataMap s)) \<and> s_num ` set (out @ sessionDataMap s) = {..<next_num s}"
proof -
  have r: "\<forall>e \<in> set [sample_event 7 2 5, sample_event 7 1 6]. readable e"
    by (simp add: sample_readable)
  obtain out s where eq: "session_run [sample_event 7 2 5, sample_event 7 1 6] (TcpSession_init 60) = Some (out, s)"
    using session_run_step[OF wheel_init r, of 60] by auto
  with session_conserved[OF _ r eq] show ?thesis by simp
qed

text \<open>
  C26: Idle sessions are closed. A session that gets no packet while the wheel turns as often
  as it has buckets is reported, unchanged but marked as not normally closed.
\<close>

theorem session_idle_reported:
  assumes "0 < n" and "\<forall>e \<in> set es. readable e" and "session_run es (TcpSession_init n) = Some (out, s)"
    and "d \<in> set (sessionDataMap s)"
    and "\<forall>e \<in> set es'. \<forall>t. event_key e = Some t \<longrightarrow> \<not> Tuple4HashEqual t (t4_of d)"
    and "session_run es' s = Some (out', s')" and "capacity s \<le> session_ticks es' s"
  shows "\<exists>t. d\<lparr>normallyClosed := False, endTime := t\<rparr> \<in> set out'"
proof -
  have s: "wheel_ok s"
    using session_run_step[OF wheel_init[OF assms(1)] assms(2)] assms(3) by auto
  then have "expires_in (s_num d) (capacity s) s"
    by (simp add: expires_in_capacity wheel_ok_def)
  from session_run_idle[OF s assms(4) this assms(5-7)] show ?thesis
    by (simp add: reported_idle_def)
qed

definition sample_session :: SessionData where
  "sample_session = updateSession \<lparr>source = 263, dest = 80, saddr = 16777226, daddr = 33554442\<rparr> 212 2
     (new_session 0 \<lparr>tv_sec = 0, tv_usec = 0\<rparr> \<lparr>source = 263, dest = 80, saddr = 16777226, daddr = 33554442\<rparr>
       \<lparr>tv_sec = 5, tv_usec = 0\<rparr>)"

definition sample_wheel :: TcpSession where
  "sample_wheel = \<lparr>sessionDataMap = [sample_session], sessionBuckets = [[0]], capacity = 1,
     s_timer = \<lparr>time = 6\<rparr>, next_num = 1\<rparr>"

lemma sample_wheel_run:
  "session_run [sample_event 7 2 5] (TcpSession_init 1) = Some ([], sample_wheel)"
  "event_key (sample_event 8 2 6) = Some \<lparr>source = 264, dest = 80, saddr = 16777226, daddr = 33554442\<rparr>"
  "session_run [sample_event 8 2 6] sample_wheel \<noteq> None"
  "capacity sample_wheel \<le> session_ticks [sample_event 8 2 6] sample_wheel"
  "\<not> Tuple4HashEqual \<lparr>source = 264, dest = 80, saddr = 16777226, daddr = 33554442\<rparr> (t4_of sample_session)"
  by code_simp+

lemma session_idle_reported_witness:
  "\<exists>out s t. session_run [sample_event 8 2 6] sample_wheel = Some (out, s) \<and>
     sample_session\<lparr>normallyClosed := False, endTime := t\<rparr> \<in> set out"
proof -
  have r: "\<forall>e \<in> set [sample_event 7 2 5]. readable e"
    by (simp add: sample_readable)
  have k: "\<forall>e \<in> set [sample_event 8 2 6]. \<forall>t. event_key e = Some t \<longrightarrow> \<not> Tuple4HashEqual t (t4_of sample_session)"
    using sample_wheel_run(2,5) by simp
  obtain out s where eq: "session_run [sample_event 8 2 6] sample_wheel = Some (out, s)"
    using sample_wheel_run(3) by auto
  have "sample_session \<in> set (sessionDataMap sample_wheel)"
    by (simp add: sample_wheel_def)
  from session_idle_reported[OF _ r sample_wheel_run(1) this k eq sample_wheel_run(4)] eq show ?thesis
    by auto
qed

end
