(* ===== verification/Worker.thy ===== *)
theory Worker
  imports Command_Line Ip_Fragment Http_Tcp Dns_Parser Tcp_Session Timers
begin

text \<open>
  The wiring of \<open>noff.cc\<close>: which component's callbacks call which other component, in the order
  of registration. A worker thread owns an \<open>IpFragment\<close>, a \<open>TcpFragment\<close>, an \<open>Http\<close>, a
  \<open>DnsParser\<close> and a \<open>TcpSession\<close> (\<open>threadInstance\<close>); the packet counter is shared by all
  threads (\<open>globalInstance\<close>), so a worker only calls it. Proved: in a run of a worker every
  component goes through a run of its own on what the component before it delivered, and the
  datagrams sent are its reports; and which packets can end the process.
\<close>

section \<open>Runs of a component\<close>

text \<open>A component takes an input and gives outputs and its new state, or the process ends.\<close>

type_synonym ('i, 'p, 's) component = "'i \<Rightarrow> 's \<Rightarrow> ('p list \<times> 's) option"

fun feed_all :: "('i, 'p, 's) component \<Rightarrow> 'i list \<Rightarrow> 's \<Rightarrow> ('p list \<times> 's) option" where
  "feed_all f [] s = Some ([], s)"
| "feed_all f (x # xs) s = do { (out, s1) \<leftarrow> f x s; (outs, s2) \<leftarrow> feed_all f xs s1; Some (out @ outs, s2) }"

lemma feed_all_append:
  "feed_all f (xs @ ys) s = do { (out, s1) \<leftarrow> feed_all f xs s; (outs, s2) \<leftarrow> feed_all f ys s1; Some (out @ outs, s2) }"
  by (induction xs arbitrary: s) (auto split: Option.bind_splits)

lemma feed_all_join:
  "\<lbrakk>feed_all f xs s = Some (out, s1); feed_all f ys s1 = Some (outs, s2)\<rbrakk> \<Longrightarrow> feed_all f (xs @ ys) s = Some (out @ outs, s2)"
  by (simp add: feed_all_append)

lemma feed_one [simp]: "feed_all f [x] s = f x s"
  by (simp split: Option.bind_splits)

section \<open>Packets and outputs\<close>

text \<open>What the memory that is read uninitialised holds while a packet is handled.\<close>

record ambient =
  junk_frag :: "nat \<Rightarrow> u8"
  junk_rr :: DnsRR
  junk_request :: DnsRequest
  junk_response :: DnsResponse
  junk_time :: timeval

record input =
  in_data :: bytes
  in_len :: int
  in_time :: timeval
  in_junk :: ambient

text \<open>A datagram given to a \<open>UdpClient\<close>, or a call of the shared packet counter.\<close>

datatype worker_out = Send udp_client string | CountTcp tuple4 timeval | CountUdp tuple4 timeval

text \<open>\<open>UdpClient::onData\<close>, with the text of the record.\<close>

definition onData :: "('a \<Rightarrow> string) \<Rightarrow> 'a \<Rightarrow> string" where
  "onData to_string data = to_string data @ [CHR 0x0A]"

section \<open>The worker\<close>

record worker =
  w_ip :: frag_state
  w_tcp :: TcpFragment
  w_http :: Http
  w_dns :: DnsParser
  w_session :: TcpSession

text \<open>\<open>setHttpInThread\<close> and the TCP part of \<open>setPacketCounterInThread\<close>.\<close>

fun http_datagrams :: "(u32 \<Rightarrow> string) \<Rightarrow> http_output list \<Rightarrow> worker_out list" where
  "http_datagrams toIp [] = []"
| "http_datagrams toIp (RequestReport r # hs) = Send HttpRequestOutput (onData (http_request_to_string toIp) r) # http_datagrams toIp hs"
| "http_datagrams toIp (ResponseReport r # hs) = Send HttpResponseOutput (onData (http_response_to_string toIp) r) # http_datagrams toIp hs"
| "http_datagrams toIp (Logged s # hs) = http_datagrams toIp hs"

fun count_data :: "timeval \<Rightarrow> tcp_event \<Rightarrow> worker_out list" where
  "count_data t (TcpData i a data flag) = [CountTcp a t]"
| "count_data t e = []"

fun onTcpEvents :: "(u32 \<Rightarrow> string) \<Rightarrow> timeval \<Rightarrow> tcp_event list \<Rightarrow> Http \<Rightarrow> (worker_out list \<times> Http) option" where
  "onTcpEvents toIp t [] h = Some ([], h)"
| "onTcpEvents toIp t (e # es) h = do {
     (hs, h1) \<leftarrow> http_event t e h;
     (outs, h2) \<leftarrow> onTcpEvents toIp t es h1;
     Some (http_datagrams toIp hs @ count_data t e @ outs, h2) }"

text \<open>
  The TCP callbacks of \<open>IpFragment\<close>: the engine, \<open>setTcpHeaderInThread\<close> and
  \<open>setTcpSessionInThread\<close>. The session timer belongs to the thread, its lock is always free.
\<close>

definition onTcpPacket :: "(u32 \<Rightarrow> string) \<Rightarrow> bytes \<Rightarrow> int \<Rightarrow> input \<Rightarrow> worker \<Rightarrow> (worker_out list \<times> worker) option" where
  "onTcpPacket toIp data len p w = do {
     let t = in_time p;
     let (es, tcp) = processTcp data len t (w_tcp w);
     (outs, h) \<leftarrow> onTcpEvents toIp t es (w_http w);
     hdr \<leftarrow> processTcpHeader data len t;
     (closed, s) \<leftarrow> ts_onTcpData True (junk_time (in_junk p)) data len t (w_session w);
     Some (outs @ Send TcpHeaderOutput (onData header_to_string hdr) #
         map (\<lambda>d. Send TcpSessionOutput (onData session_to_string d)) closed,
       w\<lparr>w_tcp := tcp, w_http := h, w_session := s\<rparr>) }"

text \<open>The UDP callbacks: the packet counter, then \<open>setDnsCounterInThread\<close>.\<close>

fun dns_datagram :: "dns_event \<Rightarrow> worker_out" where
  "dns_datagram (Request r) = Send DnsRequestOutput (onData request_to_string r)"
| "dns_datagram (Response r) = Send DnsResponseOutput (onData response_to_string r)"

definition onUdpPacket :: "bytes \<Rightarrow> int \<Rightarrow> input \<Rightarrow> worker \<Rightarrow> (worker_out list \<times> worker) option" where
  "onUdpPacket data len p w = do {
     let t = in_time p; let j = in_junk p;
     (t4, payload, n) \<leftarrow> processUdp data;
     (r, es, dns) \<leftarrow> processDns (junk_rr j) (junk_request j) (junk_response j) t4 payload n t (w_dns w);
     Some (CountUdp t4 t # map dns_datagram es, w\<lparr>w_dns := dns\<rparr>) }"

text \<open>No callback is registered for ICMP.\<close>

fun onIpPacket :: "(u32 \<Rightarrow> string) \<Rightarrow> input \<Rightarrow> ip_out \<Rightarrow> worker \<Rightarrow> (worker_out list \<times> worker) option" where
  "onIpPacket toIp p (ToTcp data len) w = onTcpPacket toIp data len p w"
| "onIpPacket toIp p (ToUdp data len) w = onUdpPacket data len p w"
| "onIpPacket toIp p (ToIcmp data len) w = Some ([], w)"

text \<open>A packet given to the worker's \<open>startIpfragProc\<close>, with all the callbacks it causes.\<close>

definition worker_packet :: "(u32 \<Rightarrow> string) \<Rightarrow> (input, worker_out, worker) component" where
  "worker_packet toIp p w = do {
     (ips, ip) \<leftarrow> startIpfragProc (junk_frag (in_junk p)) (in_time p) (in_data p) (in_len p) (w_ip w);
     feed_all (onIpPacket toIp p) ips (w\<lparr>w_ip := ip\<rparr>) }"

text \<open>The components as the first packet of a thread finds them.\<close>

definition worker_init :: "timeval \<Rightarrow> int \<Rightarrow> bytes \<Rightarrow> nat list \<Rightarrow> (nat \<Rightarrow> HalfStream \<times> HalfStream) \<Rightarrow> (tuple4 \<Rightarrow> int) \<Rightarrow> worker" where
  "worker_init tv n xors perm junk_half junk_status = \<lparr>w_ip = IpFragment n tv, w_tcp = TcpFragment_init xors perm junk_half,
     w_http = Http_init junk_status, w_dns = DnsParser_init, w_session = TcpSession_init 60\<rparr>"

section \<open>The components on their own\<close>

definition ip_layer :: "(input, ip_out \<times> input, frag_state) component" where
  "ip_layer p s = map_option (\<lambda>(outs, s'). (map (\<lambda>x. (x, p)) outs, s'))
     (startIpfragProc (junk_frag (in_junk p)) (in_time p) (in_data p) (in_len p) s)"

fun tcp_packets :: "(ip_out \<times> input) list \<Rightarrow> (bytes \<times> int \<times> input) list" where
  "tcp_packets [] = []"
| "tcp_packets ((ToTcp d k, p) # xs) = (d, k, p) # tcp_packets xs"
| "tcp_packets (_ # xs) = tcp_packets xs"

fun udp_packets :: "(ip_out \<times> input) list \<Rightarrow> (bytes \<times> int \<times> input) list" where
  "udp_packets [] = []"
| "udp_packets ((ToUdp d k, p) # xs) = (d, k, p) # udp_packets xs"
| "udp_packets (_ # xs) = udp_packets xs"

fun tcp_layer :: "(bytes \<times> int \<times> input, timeval \<times> tcp_event, TcpFragment) component" where
  "tcp_layer (d, k, p) s = (let (es, s') = processTcp d k (in_time p) s in Some (map (\<lambda>e. (in_time p, e)) es, s'))"

fun http_layer :: "(timeval \<times> tcp_event, http_output, Http) component" where
  "http_layer (t, e) h = http_event t e h"

fun session_layer :: "(bytes \<times> int \<times> input, SessionData, TcpSession) component" where
  "session_layer (d, k, p) s = ts_onTcpData True (junk_time (in_junk p)) d k (in_time p) s"

fun header_layer :: "(bytes \<times> int \<times> input, tcpheader, unit) component" where
  "header_layer (d, k, p) u = map_option (\<lambda>h. ([h], u)) (processTcpHeader d k (in_time p))"

fun udp_layer :: "(bytes \<times> int \<times> input, (tuple4 \<times> bytes \<times> int) \<times> input, unit) component" where
  "udp_layer (d, k, p) u = map_option (\<lambda>x. ([(x, p)], u)) (processUdp d)"

fun dns_layer :: "((tuple4 \<times> bytes \<times> int) \<times> input, dns_event, DnsParser) component" where
  "dns_layer ((t4, payload, n), p) s = map_option snd
     (processDns (junk_rr (in_junk p)) (junk_request (in_junk p)) (junk_response (in_junk p)) t4 payload n (in_time p) s)"

text \<open>The datagrams for one client, and the calls of the packet counter.\<close>

fun sent :: "udp_client \<Rightarrow> worker_out list \<Rightarrow> string list" where
  "sent c [] = []"
| "sent c (Send d s # xs) = (if d = c then [s] else []) @ sent c xs"
| "sent c (_ # xs) = sent c xs"

fun tcp_counted :: "worker_out list \<Rightarrow> (timeval \<times> tuple4) list" where
  "tcp_counted [] = []"
| "tcp_counted (CountTcp a t # xs) = (t, a) # tcp_counted xs"
| "tcp_counted (_ # xs) = tcp_counted xs"

fun udp_counted :: "worker_out list \<Rightarrow> (timeval \<times> tuple4) list" where
  "udp_counted [] = []"
| "udp_counted (CountUdp a t # xs) = (t, a) # udp_counted xs"
| "udp_counted (_ # xs) = udp_counted xs"

fun data_events :: "(timeval \<times> tcp_event) list \<Rightarrow> (timeval \<times> tuple4) list" where
  "data_events [] = []"
| "data_events ((t, TcpData i a d f) # es) = (t, a) # data_events es"
| "data_events (_ # es) = data_events es"

fun requests :: "http_output list \<Rightarrow> HttpRequest list" where
  "requests [] = []"
| "requests (RequestReport r # hs) = r # requests hs"
| "requests (_ # hs) = requests hs"

fun responses :: "http_output list \<Rightarrow> HttpResponse list" where
  "responses [] = []"
| "responses (ResponseReport r # hs) = r # responses hs"
| "responses (_ # hs) = responses hs"

fun dns_requests :: "dns_event list \<Rightarrow> DnsRequest list" where
  "dns_requests [] = []"
| "dns_requests (Request r # es) = r # dns_requests es"
| "dns_requests (_ # es) = dns_requests es"

fun dns_responses :: "dns_event list \<Rightarrow> DnsResponse list" where
  "dns_responses [] = []"
| "dns_responses (Response r # es) = r # dns_responses es"
| "dns_responses (_ # es) = dns_responses es"

named_theorems projections

lemma tcp_packets_append [projections]: "tcp_packets (xs @ ys) = tcp_packets xs @ tcp_packets ys"
  by (induction xs rule: tcp_packets.induct) simp_all

lemma udp_packets_append [projections]: "udp_packets (xs @ ys) = udp_packets xs @ udp_packets ys"
  by (induction xs rule: udp_packets.induct) simp_all

lemma sent_append [projections]: "sent c (xs @ ys) = sent c xs @ sent c ys"
  by (induction c xs rule: sent.induct) simp_all

lemma tcp_counted_append [projections]: "tcp_counted (xs @ ys) = tcp_counted xs @ tcp_counted ys"
  by (induction xs rule: tcp_counted.induct) simp_all

lemma udp_counted_append [projections]: "udp_counted (xs @ ys) = udp_counted xs @ udp_counted ys"
  by (induction xs rule: udp_counted.induct) simp_all

lemma data_events_append [projections]: "data_events (xs @ ys) = data_events xs @ data_events ys"
  by (induction xs rule: data_events.induct) simp_all

lemma requests_append [projections]: "requests (xs @ ys) = requests xs @ requests ys"
  by (induction xs rule: requests.induct) simp_all

lemma responses_append [projections]: "responses (xs @ ys) = responses xs @ responses ys"
  by (induction xs rule: responses.induct) simp_all

lemma dns_requests_append [projections]: "dns_requests (xs @ ys) = dns_requests xs @ dns_requests ys"
  by (induction xs rule: dns_requests.induct) simp_all

lemma dns_responses_append [projections]: "dns_responses (xs @ ys) = dns_responses xs @ dns_responses ys"
  by (induction xs rule: dns_responses.induct) simp_all

section \<open>A worker explained by its components\<close>

text \<open>The run of every component, and what it sent.\<close>

definition http_explains :: "(u32 \<Rightarrow> string) \<Rightarrow> (timeval \<times> tcp_event) list \<Rightarrow> Http \<Rightarrow> worker_out list \<Rightarrow> Http \<Rightarrow> bool" where
  "http_explains toIp es h out h' \<longleftrightarrow> (\<exists>hs. feed_all http_layer es h = Some (hs, h') \<and>
     sent HttpRequestOutput out = map (onData (http_request_to_string toIp)) (requests hs) \<and>
     sent HttpResponseOutput out = map (onData (http_response_to_string toIp)) (responses hs) \<and>
     tcp_counted out = data_events es)"

definition tcp_explains :: "(u32 \<Rightarrow> string) \<Rightarrow> (bytes \<times> int \<times> input) list \<Rightarrow> worker \<Rightarrow> worker_out list \<Rightarrow> worker \<Rightarrow> bool" where
  "tcp_explains toIp ps w out w' \<longleftrightarrow> (\<exists>es hds ses. feed_all tcp_layer ps (w_tcp w) = Some (es, w_tcp w') \<and>
     http_explains toIp es (w_http w) out (w_http w') \<and>
     feed_all header_layer ps () = Some (hds, ()) \<and> sent TcpHeaderOutput out = map (onData header_to_string) hds \<and>
     feed_all session_layer ps (w_session w) = Some (ses, w_session w') \<and> sent TcpSessionOutput out = map (onData session_to_string) ses)"

definition udp_explains :: "(bytes \<times> int \<times> input) list \<Rightarrow> worker \<Rightarrow> worker_out list \<Rightarrow> worker \<Rightarrow> bool" where
  "udp_explains ps w out w' \<longleftrightarrow> (\<exists>us ds. feed_all udp_layer ps () = Some (us, ()) \<and>
     udp_counted out = map (\<lambda>((t4, _), p). (in_time p, t4)) us \<and>
     feed_all dns_layer us (w_dns w) = Some (ds, w_dns w') \<and>
     sent DnsRequestOutput out = map (onData request_to_string) (dns_requests ds) \<and>
     sent DnsResponseOutput out = map (onData response_to_string) (dns_responses ds))"

definition explains :: "(u32 \<Rightarrow> string) \<Rightarrow> (ip_out \<times> input) list \<Rightarrow> worker \<Rightarrow> worker_out list \<Rightarrow> worker \<Rightarrow> bool" where
  "explains toIp ips w out w' \<longleftrightarrow> tcp_explains toIp (tcp_packets ips) w out w' \<and> udp_explains (udp_packets ips) w out w' \<and>
     sent MacCounterOutput out = [] \<and> sent PacketCounterOutput out = []"

lemma http_explains_join:
  "\<lbrakk>http_explains toIp es h out h1; http_explains toIp fs h1 outs h2\<rbrakk> \<Longrightarrow> http_explains toIp (es @ fs) h (out @ outs) h2"
  by (auto simp: http_explains_def projections dest: feed_all_join)

lemma tcp_explains_join:
  assumes "tcp_explains toIp ps w out w1" and "tcp_explains toIp qs w1 outs w2"
  shows "tcp_explains toIp (ps @ qs) w (out @ outs) w2"
proof -
  obtain es hds ses es2 hds2 ses2 where
    a: "feed_all tcp_layer ps (w_tcp w) = Some (es, w_tcp w1)" "feed_all tcp_layer qs (w_tcp w1) = Some (es2, w_tcp w2)"
      "http_explains toIp es (w_http w) out (w_http w1)" "http_explains toIp es2 (w_http w1) outs (w_http w2)"
      "feed_all header_layer ps () = Some (hds, ())" "feed_all header_layer qs () = Some (hds2, ())"
      "feed_all session_layer ps (w_session w) = Some (ses, w_session w1)"
      "feed_all session_layer qs (w_session w1) = Some (ses2, w_session w2)"
    and b: "sent TcpHeaderOutput out = map (onData header_to_string) hds" "sent TcpHeaderOutput outs = map (onData header_to_string) hds2"
      "sent TcpSessionOutput out = map (onData session_to_string) ses" "sent TcpSessionOutput outs = map (onData session_to_string) ses2"
    using assms unfolding tcp_explains_def by blast
  show ?thesis
    unfolding tcp_explains_def
    using feed_all_join[OF a(1,2)] http_explains_join[OF a(3,4)] feed_all_join[OF a(5,6)] feed_all_join[OF a(7,8)] b
    by (intro exI[of _ "es @ es2"] exI[of _ "hds @ hds2"] exI[of _ "ses @ ses2"]) (simp add: projections)
qed

lemma udp_explains_join:
  "\<lbrakk>udp_explains ps w out w1; udp_explains qs w1 outs w2\<rbrakk> \<Longrightarrow> udp_explains (ps @ qs) w (out @ outs) w2"
  unfolding udp_explains_def
  by (elim exE conjE, frule (1) feed_all_join[of udp_layer], frule (1) feed_all_join[of dns_layer]) (auto simp: projections)

lemma explains_join:
  "\<lbrakk>explains toIp ps w out w1; explains toIp qs w1 outs w2\<rbrakk> \<Longrightarrow> explains toIp (ps @ qs) w (out @ outs) w2"
  by (auto simp: explains_def projections intro: tcp_explains_join udp_explains_join)


lemma http_datagrams_sent:
  "sent c (http_datagrams toIp hs) = (if c = HttpRequestOutput then map (onData (http_request_to_string toIp)) (requests hs)
     else if c = HttpResponseOutput then map (onData (http_response_to_string toIp)) (responses hs) else [])"
  "tcp_counted (http_datagrams toIp hs) = []" "udp_counted (http_datagrams toIp hs) = []"
  by (induction hs rule: http_datagrams.induct) auto

lemma count_data_counted:
  "sent c (count_data t e) = []" "tcp_counted (count_data t e) = data_events [(t, e)]" "udp_counted (count_data t e) = []"
  by (cases e; simp)+

lemma closed_sent:
  "sent c (map (\<lambda>d. Send TcpSessionOutput (f d)) ds) = (if c = TcpSessionOutput then map f ds else [])"
  "tcp_counted (map (\<lambda>d. Send TcpSessionOutput (f d)) ds) = []" "udp_counted (map (\<lambda>d. Send TcpSessionOutput (f d)) ds) = []"
  by (induction ds) auto

lemma dns_sent:
  "sent c (map dns_datagram es) = (if c = DnsRequestOutput then map (onData request_to_string) (dns_requests es)
     else if c = DnsResponseOutput then map (onData response_to_string) (dns_responses es) else [])"
  "tcp_counted (map dns_datagram es) = []" "udp_counted (map dns_datagram es) = []"
  by (induction es rule: dns_requests.induct) auto

lemmas parts_sent [projections] = http_datagrams_sent count_data_counted closed_sent dns_sent

lemma events_explained:
  "onTcpEvents toIp t es h = Some (out, h') \<Longrightarrow> http_explains toIp (map (Pair t) es) h out h' \<and> udp_counted out = [] \<and>
     (\<forall>c. c \<noteq> HttpRequestOutput \<and> c \<noteq> HttpResponseOutput \<longrightarrow> sent c out = [])"
proof (induction toIp t es h arbitrary: out rule: onTcpEvents.induct)
  case (1 toIp t h)
  then show ?case by (simp add: http_explains_def)
next
  case (2 toIp t e es h)
  then obtain hs h1 outs where e: "http_event t e h = Some (hs, h1)" and es: "onTcpEvents toIp t es h1 = Some (outs, h')"
    and out: "out = (http_datagrams toIp hs @ count_data t e) @ outs"
    by (auto simp: bind_eq_Some_conv)
  have "http_explains toIp [(t, e)] h (http_datagrams toIp hs @ count_data t e) h1"
    using e by (simp add: http_explains_def projections)
  from http_explains_join[OF this] 2(1)[OF e refl es] show ?case
    unfolding out by (simp add: projections)
qed

lemma tcp_explained:
  assumes "onTcpPacket toIp d k p w = Some (out, w')"
  shows "explains toIp [(ToTcp d k, p)] w out w'" and "w_ip w' = w_ip w"
proof -
  obtain es tcp outs h hdr closed s where r: "processTcp d k (in_time p) (w_tcp w) = (es, tcp)"
    "onTcpEvents toIp (in_time p) es (w_http w) = Some (outs, h)" "processTcpHeader d k (in_time p) = Some hdr"
    "ts_onTcpData True (junk_time (in_junk p)) d k (in_time p) (w_session w) = Some (closed, s)"
    and out: "out = outs @ Send TcpHeaderOutput (onData header_to_string hdr) # map (\<lambda>d. Send TcpSessionOutput (onData session_to_string d)) closed"
    and w': "w' = w\<lparr>w_tcp := tcp, w_http := h, w_session := s\<rparr>"
    using assms by (auto simp: onTcpPacket_def bind_eq_Some_conv Let_def split: prod.splits)
  show "w_ip w' = w_ip w" using w' by simp
  have "http_explains toIp (map (Pair (in_time p)) es) (w_http w) out h"
    using events_explained[OF r(2)] by (auto simp: http_explains_def out projections)
  then have "tcp_explains toIp [(d, k, p)] w out w'"
    unfolding tcp_explains_def using r events_explained[OF r(2)]
    by (intro exI[of _ "map (Pair (in_time p)) es"] exI[of _ "[hdr]"] exI[of _ closed]) (simp add: w' out projections)
  moreover have "udp_explains [] w out w'"
    using events_explained[OF r(2)] by (simp add: udp_explains_def w' out projections)
  ultimately show "explains toIp [(ToTcp d k, p)] w out w'"
    using events_explained[OF r(2)] by (simp add: explains_def out projections)
qed

lemma udp_explained:
  assumes "onUdpPacket d k p w = Some (out, w')"
  shows "explains toIp [(ToUdp d k, p)] w out w'" and "w_ip w' = w_ip w"
proof -
  obtain t4 payload n r es dns where u: "processUdp d = Some (t4, payload, n)"
    "processDns (junk_rr (in_junk p)) (junk_request (in_junk p)) (junk_response (in_junk p)) t4 payload n (in_time p) (w_dns w) = Some (r, es, dns)"
    and out: "out = CountUdp t4 (in_time p) # map dns_datagram es" and w': "w' = w\<lparr>w_dns := dns\<rparr>"
    using assms by (auto simp: onUdpPacket_def bind_eq_Some_conv Let_def)
  show "w_ip w' = w_ip w" using w' by simp
  have "tcp_explains toIp [] w out w'"
    by (simp add: tcp_explains_def http_explains_def w' out projections)
  moreover have "udp_explains [(d, k, p)] w out w'"
    unfolding udp_explains_def using u
    by (intro exI[of _ "[((t4, payload, n), p)]"] exI[of _ es]) (simp add: w' out projections)
  ultimately show "explains toIp [(ToUdp d k, p)] w out w'"
    by (simp add: explains_def out projections)
qed

lemma explains_nothing: "explains toIp [] w [] w"
  by (simp add: explains_def tcp_explains_def http_explains_def udp_explains_def)

lemma packet_explained:
  assumes "onIpPacket toIp p x w = Some (out, w')"
  shows "explains toIp [(x, p)] w out w' \<and> w_ip w' = w_ip w"
proof (cases x)
  case (ToIcmp d k)
  with assms explains_nothing[of toIp w] show ?thesis by (simp add: explains_def)
qed (use assms tcp_explained udp_explained in auto)

lemma callbacks_explained:
  "feed_all (onIpPacket toIp p) xs w = Some (out, w') \<Longrightarrow> explains toIp (map (\<lambda>x. (x, p)) xs) w out w' \<and> w_ip w' = w_ip w"
proof (induction xs arbitrary: w out)
  case Nil
  then show ?case by (simp add: explains_nothing)
next
  case (Cons x xs)
  then obtain o1 w1 o2 where x: "onIpPacket toIp p x w = Some (o1, w1)" and xs: "feed_all (onIpPacket toIp p) xs w1 = Some (o2, w')"
    and out: "out = o1 @ o2" by (auto simp: bind_eq_Some_conv)
  show ?case
    using explains_join[of toIp "[(x, p)]" w o1 w1] packet_explained[OF x] Cons.IH[OF xs] out by simp
qed

text \<open>The IP layer is not looked at by the rest.\<close>

lemma explains_ip: "explains toIp ips (w\<lparr>w_ip := ip\<rparr>) out w' = explains toIp ips w out w'"
  "explains toIp ips w out (w'\<lparr>w_ip := ip\<rparr>) = explains toIp ips w out w'"
  by (simp_all add: explains_def tcp_explains_def udp_explains_def)

lemma worker_packet_explained:
  assumes "worker_packet toIp p w = Some (out, w')"
  obtains ips where "ip_layer p (w_ip w) = Some (ips, w_ip w')" and "explains toIp ips w out w'"
proof -
  obtain xs ip where s: "startIpfragProc (junk_frag (in_junk p)) (in_time p) (in_data p) (in_len p) (w_ip w) = Some (xs, ip)"
    and f: "feed_all (onIpPacket toIp p) xs (w\<lparr>w_ip := ip\<rparr>) = Some (out, w')"
    using assms by (auto simp: worker_packet_def bind_eq_Some_conv)
  from callbacks_explained[OF f] s show thesis
    by (intro that[of "map (\<lambda>x. (x, p)) xs"]) (simp_all add: ip_layer_def explains_ip)
qed

lemma worker_run_explained:
  "feed_all (worker_packet toIp) ps w = Some (out, w') \<Longrightarrow>
   \<exists>ips. feed_all ip_layer ps (w_ip w) = Some (ips, w_ip w') \<and> explains toIp ips w out w'"
proof (induction ps arbitrary: w out)
  case Nil
  then show ?case by (simp add: explains_nothing)
next
  case (Cons p ps)
  then obtain o1 w1 o2 where p: "worker_packet toIp p w = Some (o1, w1)"
    and ps: "feed_all (worker_packet toIp) ps w1 = Some (o2, w')" and out: "out = o1 @ o2"
    by (auto simp: bind_eq_Some_conv)
  obtain x where x: "ip_layer p (w_ip w) = Some (x, w_ip w1)" "explains toIp x w o1 w1"
    using worker_packet_explained[OF p] .
  obtain xs where xs: "feed_all ip_layer ps (w_ip w1) = Some (xs, w_ip w')" "explains toIp xs w1 o2 w'"
    using Cons.IH[OF ps] by blast
  show ?case
    using x(1) xs(1) explains_join[OF x(2) xs(2)] out by (intro exI[of _ "x @ xs"]) simp
qed

text \<open>The runs of the components' own theories.\<close>

lemma http_run_feed: "feed_all http_layer es h = http_run es h"
  by (induction es h rule: http_run.induct) (auto split: option.splits Option.bind_splits)

definition segment_of :: "bytes \<times> int \<times> input \<Rightarrow> bytes \<times> int \<times> timeval" where
  "segment_of x = (case x of (d, k, p) \<Rightarrow> (d, k, in_time p))"

lemma tcp_run_feed:
  "feed_all tcp_layer ps s = Some (es, s') \<Longrightarrow> tcp_run (map segment_of ps) s = (map snd es, s')"
proof (induction ps arbitrary: s es)
  case (Cons x ps)
  obtain d k p where x: "x = (d, k, p)" by (cases x)
  obtain e s1 where e: "processTcp d k (in_time p) s = (e, s1)" by fastforce
  with x Cons.prems obtain fs where fs: "feed_all tcp_layer ps s1 = Some (fs, s')" "es = map (Pair (in_time p)) e @ fs"
    by (auto simp: bind_eq_Some_conv)
  from Cons.IH[OF fs(1)] show ?case
    using e x fs(2) by (simp add: segment_of_def comp_def)
qed simp

definition session_event_of :: "bytes \<times> int \<times> input \<Rightarrow> session_event" where
  "session_event_of x = (case x of (d, k, p) \<Rightarrow>
     \<lparr>ev_locked = True, ev_junk = junk_time (in_junk p), ev_data = d, ev_len = k, ev_ts = in_time p\<rparr>)"

lemma session_run_feed: "feed_all session_layer ps s = session_run (map session_event_of ps) s"
  by (induction ps arbitrary: s) (auto simp: session_event_of_def split: Option.bind_splits)

section \<open>What can end the process\<close>

text \<open>The clock of the fragment handler, and packets in the order of their time.\<close>

definition ms_since :: "int \<Rightarrow> timeval \<Rightarrow> int" where
  "ms_since a tv = (tv_sec tv - a) * 1000 + c_div (tv_usec tv) 1000"

definition on_time :: "int \<Rightarrow> input list \<Rightarrow> bool" where
  "on_time a ps \<longleftrightarrow> sorted (map (\<lambda>p. ms_since a (in_time p)) ps) \<and>
     (\<forall>p \<in> set ps. - (2 ^ 31) \<le> ms_since a (in_time p) \<and> ms_since a (in_time p) < 2 ^ 31 \<and> 0 \<le> tv_sec (in_time p))"

lemma expire_loop_time0: "time0 (expire_loop tv s) = time0 s"
proof (induction tv s rule: expire_loop.induct)
  case (1 tv s)
  have "time0 (ipExpire x u) = time0 u" for x u
    by (simp add: ipExpire_def split: option.split)
  with 1 show ?case
    by (subst expire_loop.simps) (auto simp: Let_def split: list.split)
qed

lemma ipEvictor_time0: "ipEvictor s = Some s' \<Longrightarrow> time0 s' = time0 s"
proof (induction s rule: ipEvictor.induct)
  case (1 s)
  then show ?case
    by (subst (asm) (2) ipEvictor.simps) (auto split: if_splits list.splits)
qed

lemma locate_time0: "locate iph b s = Some (q, s') \<Longrightarrow> time0 s' = time0 s"
  using ipEvictor_time0 by (fastforce simp: locate_def make_room_def hostfragFind_def ipFind_def Let_def split: option.splits if_splits prod.splits)

lemma enter_time0: "enter tv offset iph data q s = (q', s') \<Longrightarrow> time0 s' = time0 s"
  by (auto simp: enter_def refresh_def ipCreate_def start_timer_def Let_def jiffies_def split: option.splits if_splits prod.splits)

lemma startIpfragProc_time0: "startIpfragProc junk tv data len s = Some (out, s') \<Longrightarrow> time0 s' = time0 s"
proof -
  have "time0 s2 = time0 s1" if "ipDefrag junk tv iph d skb s1 = Some (r, s2)" for iph d skb s1 r s2
    using that locate_time0 enter_time0
    by (fastforce simp: ipDefrag_def add_fragment_def put_queue_def Let_def split: option.splits if_splits prod.splits)
  then have "time0 s2 = time0 s" if "ipDefragStub junk tv iph data s = Some (r, s2)" for iph r s2
    using that expire_loop_time0 by (fastforce simp: ipDefragStub_def Let_def split: if_splits option.splits)
  then show "startIpfragProc junk tv data len s = Some (out, s') \<Longrightarrow> time0 s' = time0 s"
    by (auto simp: startIpfragProc_def split: option.splits if_splits)
qed

lemma now_is_ms:
  assumes "- (2 ^ 31) \<le> ms_since (time0 s) tv" and "ms_since (time0 s) tv < 2 ^ 31"
  shows "now_of tv s = ms_since (time0 s) tv"
proof -
  have "sint (word_of_int (ms_since (time0 s) tv) :: u32) = ms_since (time0 s) tv"
    using assms by (simp add: signed_take_bit_int_eq_self signed_of_int)
  then show ?thesis
    by (simp add: now_of_def jiffies_def ms_since_def Let_def)
qed

text \<open>What holds between packets.\<close>

definition worker_ok :: "int \<Rightarrow> int \<Rightarrow> worker \<Rightarrow> bool" where
  "worker_ok a t w \<longleftrightarrow> frag_reach t (w_ip w) \<and> time0 (w_ip w) = a \<and> http_ok (w_http w) \<and> wheel_ok (w_session w)"

lemma worker_init_ok: "worker_ok (tv_sec tv) t (worker_init tv n xors perm junk_half junk_status)"
proof -
  have "frag_reach t (IpFragment n tv)"
    by (rule frag_reach.start)
  moreover have "time0 (IpFragment n tv) = tv_sec tv"
    by (simp add: IpFragment_def)
  moreover have "http_ok (Http_init junk_status)"
    by (simp add: http_ok_def http_table_ok_def Http_init_def)
  ultimately show ?thesis
    by (simp add: worker_ok_def worker_init_def wheel_init)
qed

text \<open>The data of the TCP engine have a direction, so that only a connection opened twice breaks the HTTP handler.\<close>

fun directed :: "tcp_event \<Rightarrow> bool" where
  "directed (TcpData i a data flag) \<longleftrightarrow> flag = FROMCLIENT \<or> flag = FROMSERVER"
| "directed _ \<longleftrightarrow> True"

fun reopens :: "tuple4 set \<Rightarrow> tcp_event list \<Rightarrow> bool" where
  "reopens known [] \<longleftrightarrow> False"
| "reopens known (e # es) \<longleftrightarrow> (\<exists>i a. e = TcpConnected i a \<and> a \<in> known) \<or> reopens (known_after known e) es"

lemma reopens_broken: "list_all directed es \<Longrightarrow> protocol_broken known (map (Pair t) es) \<longleftrightarrow> reopens known es"
proof (induction es arbitrary: known)
  case (Cons e es)
  then show ?case by (cases e) auto
qed simp

lemma perform_directed: "f = FROMCLIENT \<or> f = FROMSERVER \<Longrightarrow> list_all directed (fst (perform i a f t acts s))"
  by (induction i a f t acts s rule: perform.induct) (auto split: prod.split)

lemma expire_directed:
  "list_all directed (fst (expire_tcp t s))" "list_all directed (fst (expire_fin t s))"
proof -
  show "list_all directed (fst (expire_tcp t s))"
  proof (induction t s rule: expire_tcp.induct)
    case (1 t s)
    then show ?case
      by (subst expire_tcp.simps) (auto simp: connected_event_def Let_def split: list.split prod.split option.split)
  qed
  show "list_all directed (fst (expire_fin t s))"
  proof (induction t s rule: expire_fin.induct)
    case (1 t s)
    then show ?case
      by (subst expire_fin.simps) (auto simp: connected_event_def Let_def split: list.split prod.split option.split)
  qed
qed

lemma addNewtcp_directed: "list_all directed (fst (addNewtcp hdr iph opts t s))"
  by (auto simp: addNewtcp_def clearAllStream_def connected_event_def list_all_iff Let_def split: option.split prod.split list.split)

lemma known_segment_directed: "list_all directed (fst (known_segment hdr iph opts from_client data datalen skblen t x s))"
proof -
  have "list_all directed (fst (take_data hdr from_client data datalen skblen t y u))" for y u
    using perform_directed by (auto simp: take_data_def Let_def split: prod.split) (metis fst_conv)+
  moreover have "list_all directed (fst (establish hdr from_client t x))"
    by (simp add: establish_def)
  ultimately show ?thesis
    using addNewtcp_directed by (auto simp: known_segment_def Let_def split: prod.split) (metis fst_conv)+
qed

lemma processTcp_directed: "list_all directed (fst (processTcp data k t s))"
proof -
  have "list_all directed (fst (tcpChecktimeouts t s))"
    using expire_directed by (auto simp: tcpChecktimeouts_def Let_def split: prod.split) (metis fst_conv)+
  then show ?thesis
    using addNewtcp_directed known_segment_directed by (simp add: processTcp_def Let_def split_beta split: option.split)
qed

text \<open>What the callbacks of a packet must not meet.\<close>

fun fatal :: "input \<Rightarrow> worker \<Rightarrow> ip_out \<Rightarrow> bool" where
  "fatal p w (ToTcp d k) \<longleftrightarrow> processTcpHeader d k (in_time p) = None \<or>
     reopens (dom (http_table (w_http w))) (fst (processTcp d k (in_time p) (w_tcp w)))"
| "fatal p w (ToUdp d k) \<longleftrightarrow> (case processUdp d of None \<Rightarrow> True | Some (t4, payload, n) \<Rightarrow>
     processDns (junk_rr (in_junk p)) (junk_request (in_junk p)) (junk_response (in_junk p)) t4 payload n (in_time p) (w_dns w) = None)"
| "fatal p w (ToIcmp d k) \<longleftrightarrow> False"

lemma http_run_ok: "\<lbrakk>http_ok h; http_run es h = Some (out, h')\<rbrakk> \<Longrightarrow> http_ok h'"
proof (induction es arbitrary: h out)
  case (Cons te es)
  obtain t e where te: "te = (t, e)" by (cases te)
  with Cons.prems(2) obtain o1 h1 o2 where e: "http_event t e h = Some (o1, h1)" and es: "http_run es h1 = Some (o2, h')"
    by (auto split: option.splits)
  from http_step[OF Cons.prems(1), of e t] e have "http_ok h1"
    by (auto split: if_splits)
  from Cons.IH[OF this es] show ?case .
qed simp

lemma onTcpEvents_run:
  "map_option snd (onTcpEvents toIp t es h) = map_option snd (http_run (map (Pair t) es) h)"
proof (induction toIp t es h rule: onTcpEvents.induct)
  case (2 toIp t e es h)
  then show ?case
    by (cases "http_event t e h") (fastforce split: option.splits Option.bind_splits simp: map_option_case)+
qed simp

lemma onTcpEvents_ok:
  assumes "http_ok h"
  shows "onTcpEvents toIp t es h = None \<longleftrightarrow> protocol_broken (dom (http_table h)) (map (Pair t) es)"
    and "onTcpEvents toIp t es h = Some (out, h') \<Longrightarrow> http_ok h'"
proof -
  show "onTcpEvents toIp t es h = None \<longleftrightarrow> protocol_broken (dom (http_table h)) (map (Pair t) es)"
    using onTcpEvents_run[of toIp t es h] http_run_aborts[OF assms, of "map (Pair t) es"]
    by (metis map_option_is_None)
  show "http_ok h'" if "onTcpEvents toIp t es h = Some (out, h')"
    using onTcpEvents_run[of toIp t es h] http_run_ok[OF assms] that by (fastforce simp: map_option_case split: option.splits)
qed

lemma session_packet_ok:
  assumes "wheel_ok s" and "processTcpHeader d k t = Some hdr" and "0 \<le> tv_sec t"
  shows "\<exists>out s'. ts_onTcpData True junk d k t s = Some (out, s') \<and> wheel_ok s'"
proof -
  let ?e = "\<lparr>ev_locked = True, ev_junk = junk, ev_data = d, ev_len = k, ev_ts = t\<rparr>"
  obtain iph tcp where v: "ip_view d = Some iph" "tcp_view d (4 * ip_hl iph) = Some tcp"
    using assms(2) by (auto simp: processTcpHeader_def bind_eq_Some_conv)
  then have "tcp_view d (4 * ip_hl iph) \<noteq> None"
    by (metis option.distinct(1))
  with v(1) assms(3) have "readable ?e"
    by (simp add: readable_def)
  from ts_onTcpData_step[OF assms(1) this] show ?thesis by auto
qed

lemma onIpPacket_ok:
  assumes w: "worker_ok a t w" and p: "0 \<le> tv_sec (in_time p)"
  shows "onIpPacket toIp p x w = None \<longleftrightarrow> fatal p w x"
    and "onIpPacket toIp p x w = Some (out, w') \<Longrightarrow> worker_ok a t w'"
proof -
  have ok: "(onIpPacket toIp p x w = None \<longleftrightarrow> fatal p w x) \<and> (\<forall>out w'. onIpPacket toIp p x w = Some (out, w') \<longrightarrow> worker_ok a t w')"
  proof (cases x)
    case (ToTcp d k)
    obtain es tcp where tcp: "processTcp d k (in_time p) (w_tcp w) = (es, tcp)" by fastforce
    then have dir: "protocol_broken known (map (Pair (in_time p)) es) = reopens known es" for known
      using reopens_broken processTcp_directed[of d k "in_time p" "w_tcp w"] by simp
    have h: "http_ok (w_http w)" and s: "wheel_ok (w_session w)"
      using w by (simp_all add: worker_ok_def)
    show ?thesis
    proof (cases "fatal p w x")
      case True
      with ToTcp tcp onTcpEvents_ok(1)[OF h, of toIp "in_time p" es] dir show ?thesis
        by (auto simp: onTcpPacket_def Let_def split: Option.bind_splits)
    next
      case False
      with ToTcp tcp onTcpEvents_ok(1)[OF h, of toIp "in_time p" es] dir obtain outs h' hdr where
        e: "onTcpEvents toIp (in_time p) es (w_http w) = Some (outs, h')" "processTcpHeader d k (in_time p) = Some hdr"
        by fastforce
      obtain closed s' where "ts_onTcpData True (junk_time (in_junk p)) d k (in_time p) (w_session w) = Some (closed, s')" "wheel_ok s'"
        using session_packet_ok[OF s e(2) p] by blast
      with False ToTcp tcp e onTcpEvents_ok(2)[OF h e(1)] w show ?thesis
        by (auto simp: onTcpPacket_def worker_ok_def)
    qed
  next
    case (ToUdp d k)
    with w show ?thesis
      by (auto simp: onUdpPacket_def Let_def worker_ok_def split: option.split prod.split Option.bind_splits)
  qed (use w in simp)
  then show "onIpPacket toIp p x w = None \<longleftrightarrow> fatal p w x"
    and "onIpPacket toIp p x w = Some (out, w') \<Longrightarrow> worker_ok a t w'"
    by blast+
qed

lemma ip_single:
  assumes "startIpfragProc junk tv data len s = Some (xs, s')"
  shows "length xs \<le> 1"
proof -
  have "length (genIpProc d k) \<le> 1" for d k
    by (simp add: genIpProc_def split: option.split)
  then have "length (case r of IPF_ISF \<Rightarrow> [] | IPF_NOTF \<Rightarrow> genIpProc data k | IPF_NEW d \<Rightarrow> genIpProc d (f d)) \<le> 1" for r k f
    by (cases r) simp_all
  with assms show ?thesis
    by (auto simp: startIpfragProc_def split: option.splits if_splits)
qed

lemma worker_packet_step:
  assumes w: "worker_ok a t w" and t: "t \<le> ms_since a (in_time p)"
    and ms: "- (2 ^ 31) \<le> ms_since a (in_time p)" "ms_since a (in_time p) < 2 ^ 31" and sec: "0 \<le> tv_sec (in_time p)"
  shows "worker_packet toIp p w = None \<longleftrightarrow>
      (\<exists>xs ip x. startIpfragProc (junk_frag (in_junk p)) (in_time p) (in_data p) (in_len p) (w_ip w) = Some (xs, ip) \<and>
         x \<in> set xs \<and> fatal p w x)"
    and "worker_packet toIp p w = Some (out, w') \<Longrightarrow> worker_ok a (ms_since a (in_time p)) w'"
proof -
  let ?run = "startIpfragProc (junk_frag (in_junk p)) (in_time p) (in_data p) (in_len p) (w_ip w)"
  have reach: "frag_reach t (w_ip w)" and a: "time0 (w_ip w) = a"
    using w by (simp_all add: worker_ok_def)
  then have now: "now_of (in_time p) (w_ip w) = ms_since a (in_time p)"
    using now_is_ms[of "w_ip w" "in_time p"] ms by simp
  then obtain xs ip where run: "?run = Some (xs, ip)"
    using startIpfragProc_step[OF frag_reach_wf[OF reach], of "in_time p"] t by metis
  have w1: "worker_ok a (ms_since a (in_time p)) (w\<lparr>w_ip := ip\<rparr>)"
    using w a frag_reach.packet[OF reach _ run] startIpfragProc_time0[OF run] t now by (simp add: worker_ok_def)
  have f: "fatal p (w\<lparr>w_ip := ip\<rparr>) x = fatal p w x" for x
    by (cases x) (auto split: option.split)
  have packet: "worker_packet toIp p w = feed_all (onIpPacket toIp p) xs (w\<lparr>w_ip := ip\<rparr>)"
    using run by (simp add: worker_packet_def)
  consider "xs = []" | x where "xs = [x]"
    using ip_single[OF run] by (cases xs) auto
  then have "(worker_packet toIp p w = None \<longleftrightarrow> (\<exists>x \<in> set xs. fatal p w x)) \<and>
     (worker_packet toIp p w = Some (out, w') \<longrightarrow> worker_ok a (ms_since a (in_time p)) w')"
  proof cases
    case 1
    with w1 show ?thesis unfolding packet by auto
  next
    case 2
    with onIpPacket_ok[OF w1 sec, of toIp x] f show ?thesis
      unfolding packet by simp
  qed
  then show "worker_packet toIp p w = None \<longleftrightarrow> (\<exists>xs ip x. ?run = Some (xs, ip) \<and> x \<in> set xs \<and> fatal p w x)"
    and "worker_packet toIp p w = Some (out, w') \<Longrightarrow> worker_ok a (ms_since a (in_time p)) w'"
    using run by auto
qed

lemma worker_run_ok:
  "\<lbrakk>worker_ok a t w; on_time a (ps @ [q]); \<forall>p \<in> set (ps @ [q]). t \<le> ms_since a (in_time p); feed_all (worker_packet toIp) ps w = Some (out, w')\<rbrakk>
   \<Longrightarrow> \<exists>t'. worker_ok a t' w' \<and> t' \<le> ms_since a (in_time q)"
proof (induction ps arbitrary: w t out)
  case (Cons p ps)
  obtain o1 w1 o2 where p: "worker_packet toIp p w = Some (o1, w1)" and ps: "feed_all (worker_packet toIp) ps w1 = Some (o2, w')"
    using Cons.prems(4) by (auto simp: bind_eq_Some_conv)
  have "worker_ok a (ms_since a (in_time p)) w1"
    using worker_packet_step(2)[OF Cons.prems(1) _ _ _ _ p] Cons.prems(2,3) by (simp add: on_time_def)
  moreover have "on_time a (ps @ [q])" "\<forall>x \<in> set (ps @ [q]). ms_since a (in_time p) \<le> ms_since a (in_time x)"
    using Cons.prems(2) by (auto simp: on_time_def)
  ultimately show ?case
    using Cons.IH ps by blast
qed auto

section \<open>Properties\<close>

text \<open>
  C8: A run of a worker is its components' own runs, chained: the fragment handler gets the
  packets; the TCP engine, the header reader and the session table get the TCP packets it
  delivers, in order; the HTTP handler gets the engine's callbacks; the DNS parser gets what the
  UDP layer makes of the UDP packets. What is sent to each UDP client is the text of exactly the records its
  component reported, in order, and the shared counter is called for each data callback and UDP packet.
\<close>

theorem worker_refines_components:
  assumes "feed_all (worker_packet toIp) ps w = Some (out, w')"
  shows "\<exists>ips es hs hds ses us ds.
    feed_all ip_layer ps (w_ip w) = Some (ips, w_ip w') \<and>
    feed_all tcp_layer (tcp_packets ips) (w_tcp w) = Some (es, w_tcp w') \<and>
    tcp_run (map segment_of (tcp_packets ips)) (w_tcp w) = (map snd es, w_tcp w') \<and>
    http_run es (w_http w) = Some (hs, w_http w') \<and>
    feed_all header_layer (tcp_packets ips) () = Some (hds, ()) \<and>
    session_run (map session_event_of (tcp_packets ips)) (w_session w) = Some (ses, w_session w') \<and>
    feed_all udp_layer (udp_packets ips) () = Some (us, ()) \<and>
    feed_all dns_layer us (w_dns w) = Some (ds, w_dns w') \<and>
    sent HttpRequestOutput out = map (onData (http_request_to_string toIp)) (requests hs) \<and>
    sent HttpResponseOutput out = map (onData (http_response_to_string toIp)) (responses hs) \<and>
    sent TcpHeaderOutput out = map (onData header_to_string) hds \<and>
    sent TcpSessionOutput out = map (onData session_to_string) ses \<and>
    sent DnsRequestOutput out = map (onData request_to_string) (dns_requests ds) \<and>
    sent DnsResponseOutput out = map (onData response_to_string) (dns_responses ds) \<and>
    tcp_counted out = data_events es \<and> udp_counted out = map (\<lambda>((t4, _), p). (in_time p, t4)) us"
proof -
  obtain ips where ips: "feed_all ip_layer ps (w_ip w) = Some (ips, w_ip w')" and e: "explains toIp ips w out w'"
    using worker_run_explained[OF assms] by blast
  obtain es hds ses where t: "feed_all tcp_layer (tcp_packets ips) (w_tcp w) = Some (es, w_tcp w')"
    "http_explains toIp es (w_http w) out (w_http w')" "feed_all header_layer (tcp_packets ips) () = Some (hds, ())"
    "sent TcpHeaderOutput out = map (onData header_to_string) hds"
    "feed_all session_layer (tcp_packets ips) (w_session w) = Some (ses, w_session w')"
    "sent TcpSessionOutput out = map (onData session_to_string) ses"
    using e unfolding explains_def tcp_explains_def by blast
  obtain us ds where u: "feed_all udp_layer (udp_packets ips) () = Some (us, ())"
    "udp_counted out = map (\<lambda>((t4, _), p). (in_time p, t4)) us" "feed_all dns_layer us (w_dns w) = Some (ds, w_dns w')"
    "sent DnsRequestOutput out = map (onData request_to_string) (dns_requests ds)"
    "sent DnsResponseOutput out = map (onData response_to_string) (dns_responses ds)"
    using e unfolding explains_def udp_explains_def by blast
  obtain hs where h: "http_run es (w_http w) = Some (hs, w_http w')"
    "sent HttpRequestOutput out = map (onData (http_request_to_string toIp)) (requests hs)"
    "sent HttpResponseOutput out = map (onData (http_response_to_string toIp)) (responses hs)" "tcp_counted out = data_events es"
    using t(2) unfolding http_explains_def http_run_feed by blast
  from ips t u h tcp_run_feed[OF t(1)] session_run_feed[of "tcp_packets ips" "w_session w"] show ?thesis
    by (intro exI[of _ ips] exI[of _ es] exI[of _ hs] exI[of _ hds] exI[of _ ses] exI[of _ us] exI[of _ ds]) simp
qed


text \<open>A UDP packet, and a TCP packet that ends behind its IP header.\<close>

definition sample_datagram :: bytes where
  "sample_datagram = [0x45, 0, 0, 28, 0, 1, 0, 0, 64, 17, 0, 0, 10, 0, 0, 1, 10, 0, 0, 2, 0, 7, 0, 9, 0, 8, 0, 0]"

definition sample_short :: bytes where
  "sample_short = [0x45, 0, 0, 20, 0, 1, 0, 0, 64, 6, 0, 0, 10, 0, 0, 1, 10, 0, 0, 2]"

definition sample_ambient :: ambient where
  "sample_ambient = \<lparr>junk_frag = (\<lambda>_. 0), junk_rr = \<lparr>rr_name = Unset, rr_type = 0, rr_cls = 0, rr_ttl = 0, rr_rdlength = 0, rr_data = Unset\<rparr>,
     junk_request = \<lparr>rq_timeStamp = \<lparr>tv_sec = 0, tv_usec = 0\<rparr>, rq_srcip = 0, rq_dstip = 0, Qname = [], Qtype = 0, Qclass = 0\<rparr>,
     junk_response = \<lparr>rs_timeStamp = \<lparr>tv_sec = 0, tv_usec = 0\<rparr>, rs_srcip = 0, rs_dstip = 0, Rname = [], Rtype = 0, Rclass = 0,
       rs_ttl = 0, rs_result = []\<rparr>, junk_time = \<lparr>tv_sec = 0, tv_usec = 0\<rparr>\<rparr>"

definition sample_input :: "bytes \<Rightarrow> int \<Rightarrow> input" where
  "sample_input d t = \<lparr>in_data = d, in_len = int (length d), in_time = \<lparr>tv_sec = t, tv_usec = 0\<rparr>, in_junk = sample_ambient\<rparr>"

definition fresh_worker :: worker where
  "fresh_worker = worker_init \<lparr>tv_sec = 4, tv_usec = 0\<rparr> 3001 [] [] (\<lambda>_. (sample_half, sample_half)) (\<lambda>_. 0)"

definition datagram_tuple :: tuple4 where
  "datagram_tuple = \<lparr>source = 7, dest = 9, saddr = 0x0100000A, daddr = 0x0200000A\<rparr>"

lemma sample_ip_run:
  "case startIpfragProc (\<lambda>_. 0) \<lparr>tv_sec = 5, tv_usec = 0\<rparr> sample_datagram 28 (IpFragment 3001 \<lparr>tv_sec = 4, tv_usec = 0\<rparr>) of
     None \<Rightarrow> False
   | Some (xs, s) \<Rightarrow> xs = [ToUdp sample_datagram 216] \<and>
       map_option fst (startIpfragProc (\<lambda>_. 0) \<lparr>tv_sec = 6, tv_usec = 0\<rparr> sample_short 20 s) = Some [ToTcp sample_short 216]"
  by code_simp

lemma sample_udp: "processUdp sample_datagram = Some (datagram_tuple, [], 0)"
  by code_simp

lemma short_header: "processTcpHeader sample_short 216 t = None"
  by (simp add: processTcpHeader_def sample_short_def ip_view_def tcp_view_def)

lemma sample_delivered:
  "\<exists>w. worker_packet toIp (sample_input sample_datagram 5) fresh_worker = Some ([CountUdp datagram_tuple \<lparr>tv_sec = 5, tv_usec = 0\<rparr>], w) \<and>
     map_option fst (startIpfragProc (\<lambda>_. 0) \<lparr>tv_sec = 6, tv_usec = 0\<rparr> sample_short 20 (w_ip w)) = Some [ToTcp sample_short 216]"
proof -
  obtain s where s: "startIpfragProc (\<lambda>_. 0) \<lparr>tv_sec = 5, tv_usec = 0\<rparr> sample_datagram 28 (IpFragment 3001 \<lparr>tv_sec = 4, tv_usec = 0\<rparr>) =
      Some ([ToUdp sample_datagram 216], s)"
    "map_option fst (startIpfragProc (\<lambda>_. 0) \<lparr>tv_sec = 6, tv_usec = 0\<rparr> sample_short 20 s) = Some [ToTcp sample_short 216]"
    using sample_ip_run by (auto split: option.splits)
  have "length sample_datagram = 28"
    by (simp add: sample_datagram_def)
  moreover have "processDns jr jq js datagram_tuple payload n t p = Some (0, [], p\<lparr>numUdp := numUdp p + 1\<rparr>)" for jr jq js payload n t p
    by (simp add: processDns_def datagram_tuple_def)
  ultimately show ?thesis
    using s sample_udp by (simp add: worker_packet_def sample_input_def sample_ambient_def fresh_worker_def worker_init_def onUdpPacket_def Let_def)
qed

lemma worker_refines_components_witness:
  "\<exists>out w'. feed_all (worker_packet inet_ntop) [sample_input sample_datagram 5] fresh_worker = Some (out, w') \<and>
     (\<exists>ips es us. feed_all ip_layer [sample_input sample_datagram 5] (w_ip fresh_worker) = Some (ips, w_ip w') \<and>
        feed_all tcp_layer (tcp_packets ips) (w_tcp fresh_worker) = Some (es, w_tcp w') \<and>
        feed_all udp_layer (udp_packets ips) () = Some (us, ()) \<and> udp_counted out = map (\<lambda>((t4, _), p). (in_time p, t4)) us)"
proof -
  obtain w where w: "feed_all (worker_packet inet_ntop) [sample_input sample_datagram 5] fresh_worker =
      Some ([CountUdp datagram_tuple \<lparr>tv_sec = 5, tv_usec = 0\<rparr>], w)"
    using sample_delivered[of inet_ntop] by auto
  show ?thesis
    by (rule exI, rule exI, rule conjI, rule w, insert worker_refines_components[OF w], elim exE conjE, intro exI conjI) assumption+
qed


end
