(* ===== verification/Capture.thy ===== *)
theory Capture
  imports Net_Util
begin

text \<open>
  \<open>dpi/Capture.cc\<close>: the link layer in front of the IP handlers. libpcap is not modelled: the
  link type it reports and the frames \<open>pcap_loop\<close> hands over are parameters. Proved: the
  link type decides the offset; with a frame of the captured length no header byte is read
  outside the frame; before the first VLAN frame a packet is exactly the frame behind its link
  header; after it every plain Ethernet frame is delivered four bytes too far.
\<close>

section \<open>State\<close>

datatype link_type = DLT_EN10MB | DLT_LINUX_SLL | PCAP_ERROR_NOT_ACTIVATED | DLT_OTHER int

record capture =
  linkType :: link_type
  linkOffset :: u32
  running :: bool

definition Capture_init :: capture where
  "Capture_init = \<lparr>linkType = PCAP_ERROR_NOT_ACTIVATED, linkOffset = 0, running = False\<rparr>"

text \<open>The ways the process ends here: \<open>LOG_FATAL\<close>, \<open>exit(1)\<close> and a failed assertion.\<close>

datatype capture_error = LogFatal | Exit | AssertRunning | AssertNotRunning

text \<open>\<open>initLinkType\<close>; \<open>lt\<close> is the value of \<open>pcap_datalink\<close>.\<close>

definition initLinkType :: "link_type \<Rightarrow> capture \<Rightarrow> capture_error + capture" where
  "initLinkType lt c = (let c = c\<lparr>linkType := lt\<rparr> in case lt of
     DLT_EN10MB \<Rightarrow> Inr (c\<lparr>linkOffset := 14\<rparr>)
   | DLT_LINUX_SLL \<Rightarrow> Inr (c\<lparr>linkOffset := 16\<rparr>)
   | PCAP_ERROR_NOT_ACTIVATED \<Rightarrow> Inl LogFatal
   | DLT_OTHER n \<Rightarrow> Inl Exit)"

text \<open>
  The constructors, for a device and for a file: \<open>pcap\<close> is what \<open>pcap_open_live\<close> or
  \<open>pcap_open_offline\<close> returned, \<open>None\<close> for null, else the link type of the handle; and \<open>setFilter\<close>
  with the results of \<open>pcap_compile\<close> and \<open>pcap_setfilter\<close>.
\<close>

definition Capture_live :: "link_type option \<Rightarrow> capture_error + capture" where
  "Capture_live pcap = (case pcap of None \<Rightarrow> Inl Exit | Some lt \<Rightarrow> initLinkType lt Capture_init)"

definition Capture_file :: "link_type option \<Rightarrow> capture_error + capture" where
  "Capture_file pcap = (case pcap of None \<Rightarrow> Inl Exit | Some lt \<Rightarrow> initLinkType lt Capture_init)"

definition setFilter :: "int \<Rightarrow> int \<Rightarrow> capture \<Rightarrow> capture_error + capture" where
  "setFilter compiled installed c = (if compiled < 0 then Inl Exit else if installed = -1 then Inl Exit else Inr c)"

section \<open>Packets\<close>

datatype packet_result = TooShort | NotIp | BadLinkType | Passed bytes int | ReadFault

text \<open>
  The call \<open>func((ip*)(data + linkOffset), hdr->caplen - linkOffset, timeStamp)\<close>: the
  difference is computed on \<open>uint32_t\<close> and converted to \<open>int\<close>. The buffer of the callback
  is what is left of the frame behind the pointer.
\<close>

definition pass_packet :: "u32 \<Rightarrow> bytes \<Rightarrow> capture \<Rightarrow> packet_result" where
  "pass_packet caplen data c = Passed (drop (unat (linkOffset c)) data) (sint (caplen - linkOffset c))"

definition onPacket :: "u32 \<Rightarrow> bytes \<Rightarrow> capture \<Rightarrow> packet_result \<times> capture" where
  "onPacket caplen data c =
     (if caplen \<le> linkOffset c then (TooShort, c)
      else case linkType c of
        DLT_EN10MB \<Rightarrow>
          (case (rd8 data 12, rd8 data 13) of
             (Some a, Some b) \<Rightarrow>
               if a = 0x81 \<and> b = 0
               then (let c' = c\<lparr>linkOffset := 18\<rparr> in (pass_packet caplen data c', c'))
               else if a \<noteq> 0x08 \<or> b \<noteq> 0x00 then (NotIp, c)
               else (pass_packet caplen data c, c)
           | _ \<Rightarrow> (ReadFault, c))
      | DLT_LINUX_SLL \<Rightarrow>
          (case (rd8 data 14, rd8 data 15) of
             (Some a, Some b) \<Rightarrow> if a \<noteq> 0x08 \<or> b \<noteq> 0x00 then (NotIp, c) else (pass_packet caplen data c, c)
           | _ \<Rightarrow> (ReadFault, c))
      | _ \<Rightarrow> (BadLinkType, c))"

text \<open>\<open>breakLoop\<close>, and \<open>startLoop\<close> over the frames \<open>pcap_loop\<close> delivers.\<close>

definition breakLoop :: "capture \<Rightarrow> capture_error + capture" where
  "breakLoop c = (if running c then Inr (c\<lparr>running := False\<rparr>) else Inl AssertRunning)"

text \<open>The destructor of a capture.\<close>

definition Capture_end :: "capture \<Rightarrow> capture_error + capture" where
  "Capture_end c = (if running c then breakLoop c else Inr c)"

fun pcap_frames :: "(u32 \<times> bytes) list \<Rightarrow> capture \<Rightarrow> packet_result list \<times> capture" where
  "pcap_frames [] c = ([], c)"
| "pcap_frames ((n, d) # fs) c =
     (let (r, c1) = onPacket n d c; (rs, c2) = pcap_frames fs c1 in (r # rs, c2))"

text \<open>\<open>err\<close> is the result of \<open>pcap_loop\<close>; \<open>LOG_FATAL\<close> on an unknown one aborts.\<close>

definition startLoop :: "int \<Rightarrow> (u32 \<times> bytes) list \<Rightarrow> capture \<Rightarrow> capture_error + packet_result list \<times> capture" where
  "startLoop err frames c =
     (if running c then Inl AssertNotRunning
      else let (rs, c') = pcap_frames frames (c\<lparr>running := True\<rparr>)
           in if err = 0 \<or> err = -1 \<or> err = -2 then Inr (rs, c'\<lparr>running := False\<rparr>) else Inl LogFatal)"

section \<open>Lemmas\<close>

text \<open>The states an opened capture can be in.\<close>

definition opened :: "capture \<Rightarrow> bool" where
  "opened c \<longleftrightarrow> (linkType c = DLT_EN10MB \<and> (linkOffset c = 14 \<or> linkOffset c = 18)) \<or>
     (linkType c = DLT_LINUX_SLL \<and> linkOffset c = 16)"

lemma initLinkType_opened: "initLinkType lt c = Inr c' \<Longrightarrow> opened c'"
  by (auto simp: initLinkType_def Let_def opened_def split: link_type.splits)

definition vlan_frame :: "bytes \<Rightarrow> bool" where
  "vlan_frame d \<longleftrightarrow> 13 < length d \<and> d ! 12 = 0x81 \<and> d ! 13 = 0"

text \<open>All that a packet can change is the offset, and only a VLAN frame does.\<close>

lemma onPacket_state:
  "snd (onPacket n d c) =
     (if linkOffset c < n \<and> linkType c = DLT_EN10MB \<and> vlan_frame d then c\<lparr>linkOffset := 18\<rparr> else c)"
  by (auto simp: onPacket_def vlan_frame_def rd8_def Let_def not_le split: link_type.splits)

lemma onPacket_opened [simp]: "opened c \<Longrightarrow> opened (snd (onPacket n d c))"
  by (auto simp: onPacket_state opened_def)

lemma onPacket_no_fault:
  assumes "opened c" and "unat n \<le> length d"
  shows "fst (onPacket n d c) \<noteq> ReadFault" "fst (onPacket n d c) \<noteq> BadLinkType"
  using assms
  by (auto simp: onPacket_def opened_def pass_packet_def Let_def word_le_nat_alt not_le split: if_splits)

lemma pcap_frames_Cons [simp]:
  "pcap_frames ((n, d) # fs) c =
     (fst (onPacket n d c) # fst (pcap_frames fs (snd (onPacket n d c))),
      snd (pcap_frames fs (snd (onPacket n d c))))"
  by (simp add: split_beta)

declare pcap_frames.simps(2) [simp del]

lemma pcap_frames_opened:
  "opened c \<Longrightarrow> opened (snd (pcap_frames fs c))"
  by (induction fs arbitrary: c) (auto split: prod.splits)

lemma pcap_frames_no_fault:
  "\<lbrakk>opened c; \<forall>(n, d) \<in> set fs. unat n \<le> length d\<rbrakk> \<Longrightarrow>
   ReadFault \<notin> set (fst (pcap_frames fs c)) \<and> BadLinkType \<notin> set (fst (pcap_frames fs c))"
proof (induction fs arbitrary: c)
  case (Cons f fs)
  obtain n d where f: "f = (n, d)" by fastforce
  with Cons show ?case
    using onPacket_no_fault[of c n d] onPacket_opened[of c n d] by fastforce
qed simp

definition ip_frame :: "link_type \<Rightarrow> bytes \<Rightarrow> bool" where
  "ip_frame lt d \<longleftrightarrow> (let i = (if lt = DLT_EN10MB then 12 else 14)
     in i + 1 < length d \<and> d ! i = 0x08 \<and> d ! (i + 1) = 0)"

lemma pcap_frames_plain:
  "\<forall>(n, d) \<in> set fs. \<not> vlan_frame d \<Longrightarrow> snd (pcap_frames fs c) = c"
  by (induction fs arbitrary: c) (auto simp: onPacket_state)

lemma power_eq_numeral_31: "(2 :: int) ^ 31 = 2147483648"
  by simp

lemma sint_sub_small:
  fixes m k :: u32
  assumes "unat m < 2 ^ 31" and "unat k < 2 ^ 31"
  shows "sint (m - k) = int (unat m) - int (unat k)"
proof -
  have "m - k = word_of_int (int (unat m) - int (unat k))"
    by simp
  then have "sint (m - k) = sint (word_of_int (int (unat m) - int (unat k)) :: u32)"
    by (rule arg_cong)
  also have "\<dots> = int (unat m) - int (unat k)"
  proof (rule sint_of_int_small)
    have "unat m < 2147483648" "unat k < 2147483648"
      using assms by simp_all
    then have "int (unat m) < 2147483648" "int (unat k) < 2147483648"
      by linarith+
    then show "- (2 ^ 31) \<le> int (unat m) - int (unat k)" "int (unat m) - int (unat k) < 2 ^ 31"
      unfolding power_eq_numeral_31 by linarith+
  qed
  finally show ?thesis .
qed

text \<open>What one frame of the captured length gives, by the offset and link type in force.\<close>

definition frame_result :: "capture \<Rightarrow> nat \<Rightarrow> bytes \<Rightarrow> packet_result" where
  "frame_result c off d = (if ip_frame (linkType c) d then Passed (drop off d) (int (length d) - int off) else NotIp)"

lemma onPacket_plain:
  assumes "opened c" and "\<not> vlan_frame d" and "unat n = length d" and "length d < 2 ^ 31"
  shows "fst (onPacket n d c) =
    (if length d \<le> unat (linkOffset c) then TooShort else frame_result c (unat (linkOffset c)) d)"
  using assms
  by (auto simp: onPacket_def opened_def pass_packet_def frame_result_def ip_frame_def vlan_frame_def
      word_le_nat_alt sint_sub_small Let_def split: if_splits)

lemma onPacket_vlan:
  assumes "linkType c = DLT_EN10MB" and "vlan_frame d" and "unat n = length d" and "length d < 2 ^ 31"
    and "unat (linkOffset c) < length d"
  shows "fst (onPacket n d c) = Passed (drop 18 d) (int (length d) - 18)"
  using assms
  by (auto simp: onPacket_def pass_packet_def vlan_frame_def word_le_nat_alt sint_sub_small Let_def)

section \<open>Properties\<close>

text \<open>
  C35: Bounds of the link layer. Whatever frames arrive after the link type was set, as long as
  their buffers hold the captured length, no header byte outside a frame is read and the
  unsupported-link branch is never taken.
\<close>

theorem capture_reads_in_bounds:
  assumes "initLinkType lt Capture_init = Inr c" and "\<forall>(n, d) \<in> set frames. unat n \<le> length d"
  shows "ReadFault \<notin> set (fst (pcap_frames frames c)) \<and> BadLinkType \<notin> set (fst (pcap_frames frames c))"
  by (rule pcap_frames_no_fault) (use assms initLinkType_opened in auto)

definition sample_frame :: "u8 \<Rightarrow> u8 \<Rightarrow> bytes" where
  "sample_frame a b = [0, 0, 0, 0, 0, 0, 0, 0, 0, 0, 0, 0, a, b, 7, 7, 7, 7, 7, 7, 7, 7]"

definition sample_capture :: capture where
  "sample_capture = \<lparr>linkType = DLT_EN10MB, linkOffset = 14, running = False\<rparr>"

lemma capture_reads_in_bounds_witness:
  "ReadFault \<notin> set (fst (pcap_frames [(22, sample_frame 0x81 0), (3, [1, 2, 3])] sample_capture)) \<and>
   BadLinkType \<notin> set (fst (pcap_frames [(22, sample_frame 0x81 0), (3, [1, 2, 3])] sample_capture))"
  by (rule capture_reads_in_bounds[of DLT_EN10MB])
    (simp_all add: initLinkType_def Capture_init_def sample_capture_def sample_frame_def)

text \<open>
  C36: The link layer passes packets on unchanged: on a capture without VLAN frames the
  handlers get, for every IP frame, exactly the bytes behind the link header with their
  length, and nothing for any other frame.
\<close>

theorem capture_delivers_packets:
  assumes "initLinkType lt Capture_init = Inr c"
    and "\<forall>(n, d) \<in> set frames. unat n = length d \<and> length d < 2 ^ 31 \<and> \<not> vlan_frame d"
  shows "fst (pcap_frames frames c) =
    map (\<lambda>(n, d). let off = (if lt = DLT_EN10MB then 14 else 16)
                  in if length d \<le> off then TooShort
                     else if ip_frame lt d then Passed (drop off d) (int (length d) - int off) else NotIp) frames"
proof -
  have c: "opened c" "linkType c = lt" "unat (linkOffset c) = (if lt = DLT_EN10MB then 14 else 16)"
    using assms(1) by (auto simp: initLinkType_def Let_def opened_def split: link_type.splits)
  show ?thesis
    using assms(2)
  proof (induction frames)
    case (Cons f fs)
    obtain n d where f: "f = (n, d)" by fastforce
    with Cons.prems have "snd (onPacket n d c) = c"
      by (simp add: onPacket_state)
    with Cons f c show ?case
      by (simp add: onPacket_plain frame_result_def Let_def)
  qed simp
qed

lemma capture_delivers_packets_witness:
  "fst (pcap_frames [(22, sample_frame 8 0), (22, sample_frame 8 6)] sample_capture) = [Passed [7, 7, 7, 7, 7, 7, 7, 7] 8, NotIp]"
  by (subst capture_delivers_packets[of DLT_EN10MB])
    (simp_all add: initLinkType_def Capture_init_def sample_capture_def sample_frame_def vlan_frame_def ip_frame_def)



end
