(* ===== verification/Task_Queue.thy ===== *)
theory Task_Queue
  imports Prelude
begin

text \<open>
  \<open>dpi/TaskQueue.cc\<close>: one worker thread behind a bounded queue. The queue
  (\<open>tbb::concurrent_bounded_queue\<close>) is not part of the repository: its operations are the
  parameter \<open>Q\<close>, and what the code relies on is the hypothesis \<open>fifo Q view\<close> - documented
  behaviour: first in first out, and a size of pushes minus pops, where the pop of one
  blocked consumer may already be counted. The producer and the worker take turns in any
  order, each queue operation being atomic. Proved: tasks run in the order they were
  accepted, none is lost, the queue never grows past its limit by more than the pop in
  progress, and \<open>stop\<close> drains the queue.
\<close>

section \<open>The queue\<close>

record ('t, 'q) queue_ops =
  q_new :: 'q
  q_push :: "'t \<Rightarrow> 'q \<Rightarrow> 'q"
  q_pop :: "'q \<Rightarrow> ('t \<times> 'q) option"
  q_size :: "'q \<Rightarrow> int"

definition pops :: "('t \<times> 'q) option \<Rightarrow> ('q \<Rightarrow> 't list) \<Rightarrow> 't list \<Rightarrow> bool" where
  "pops r view ts = (case r of None \<Rightarrow> ts = [] | Some (t, q) \<Rightarrow> ts = t # view q)"

definition fifo :: "('t, 'q) queue_ops \<Rightarrow> ('q \<Rightarrow> 't list) \<Rightarrow> bool" where
  "fifo Q view \<longleftrightarrow> view (q_new Q) = [] \<and> (\<forall>t q. view (q_push Q t q) = view q @ [t]) \<and>
     (\<forall>q. pops (q_pop Q q) view (view q)) \<and>
     (\<forall>q. int (length (view q)) - 1 \<le> q_size Q q \<and> q_size Q q \<le> int (length (view q)))"

section \<open>State and operations\<close>

text \<open>
  A task is a \<open>std::function\<close>, \<open>None\<close> the empty one; \<open>exec\<close> runs it on the thread's own
  state, \<open>None\<close> being an exception, after which the process aborts.
\<close>

datatype thread_state = NotStarted | Looping | Ended | Aborted

record ('q, 's) task_queue =
  maxSize :: int
  pending :: 'q
  thread :: thread_state
  local_state :: 's

text \<open>The constructor does not set \<open>maxSize_\<close>.\<close>

definition TaskQueue :: "('t option, 'q) queue_ops \<Rightarrow> int \<Rightarrow> 's \<Rightarrow> ('q, 's) task_queue" where
  "TaskQueue Q junk s = \<lparr>maxSize = junk, pending = q_new Q, thread = NotStarted, local_state = s\<rparr>"

definition setMaxQueueSize :: "int \<Rightarrow> ('q, 's) task_queue \<Rightarrow> ('q, 's) task_queue" where
  "setMaxQueueSize n w = w\<lparr>maxSize := n\<rparr>"

definition nonBlockingRun ::
  "('t option, 'q) queue_ops \<Rightarrow> 't option \<Rightarrow> ('q, 's) task_queue \<Rightarrow> bool \<times> ('q, 's) task_queue" where
  "nonBlockingRun Q task w =
     (if q_size Q (pending w) < maxSize w then (True, w\<lparr>pending := q_push Q task (pending w)\<rparr>) else (False, w))"

text \<open>\<open>start\<close> and the call of the initialisation callback at the top of \<open>runInThread\<close>.\<close>

definition start :: "('s \<Rightarrow> 's option) \<Rightarrow> ('q, 's) task_queue \<Rightarrow> ('q, 's) task_queue" where
  "start init w = (case init (local_state w) of
     None \<Rightarrow> w\<lparr>thread := Aborted\<rparr>
   | Some s \<Rightarrow> w\<lparr>thread := Looping, local_state := s\<rparr>)"

text \<open>One turn of the worker's loop: \<open>take\<close> blocks on an empty queue.\<close>

definition turn ::
  "('t option, 'q) queue_ops \<Rightarrow> ('t \<Rightarrow> 's \<Rightarrow> 's option) \<Rightarrow> ('q, 's) task_queue \<Rightarrow> ('q, 's) task_queue" where
  "turn Q exec w = (if thread w \<noteq> Looping then w else case q_pop Q (pending w) of
     None \<Rightarrow> w
   | Some (task, q) \<Rightarrow> (case task of
       None \<Rightarrow> w\<lparr>pending := q, thread := Ended\<rparr>
     | Some t \<Rightarrow> (case exec t (local_state w) of
         None \<Rightarrow> w\<lparr>pending := q, thread := Aborted\<rparr>
       | Some s \<Rightarrow> w\<lparr>pending := q, local_state := s\<rparr>)))"

text \<open>
  \<open>stop\<close>: the busy loop on \<open>nonBlockingRun(emptyTask)\<close>, with one turn of the worker between
  two attempts, and \<open>join\<close> as turns until the thread has ended. \<open>None\<close> when the fuel runs out.
\<close>

fun stop_push ::
  "nat \<Rightarrow> ('t option, 'q) queue_ops \<Rightarrow> ('t \<Rightarrow> 's \<Rightarrow> 's option) \<Rightarrow> ('q, 's) task_queue \<Rightarrow> ('q, 's) task_queue option" where
  "stop_push 0 Q exec w = None"
| "stop_push (Suc n) Q exec w =
     (case nonBlockingRun Q None w of (True, w') \<Rightarrow> Some w' | (False, w') \<Rightarrow> stop_push n Q exec (turn Q exec w'))"

fun join ::
  "nat \<Rightarrow> ('t option, 'q) queue_ops \<Rightarrow> ('t \<Rightarrow> 's \<Rightarrow> 's option) \<Rightarrow> ('q, 's) task_queue \<Rightarrow> ('q, 's) task_queue option" where
  "join 0 Q exec w = (if thread w = Looping then None else Some w)"
| "join (Suc n) Q exec w = (if thread w = Looping then join n Q exec (turn Q exec w) else Some w)"

definition stop ::
  "nat \<Rightarrow> ('t option, 'q) queue_ops \<Rightarrow> ('t \<Rightarrow> 's \<Rightarrow> 's option) \<Rightarrow> ('q, 's) task_queue \<Rightarrow> ('q, 's) task_queue option" where
  "stop fuel Q exec w = do { w' \<leftarrow> stop_push fuel Q exec w; join fuel Q exec w' }"

section \<open>The interface the worker relies on\<close>

locale task_fifo =
  fixes Q :: "('t option, 'q) queue_ops" and view :: "'q \<Rightarrow> 't option list"
  assumes laws: "fifo Q view"
begin

lemma view_new: "view (q_new Q) = []"
  using laws unfolding fifo_def by blast

lemma view_push: "view (q_push Q t q) = view q @ [t]"
  using laws unfolding fifo_def by blast

lemma pop_law: "pops (q_pop Q q) view (view q)"
  using laws unfolding fifo_def by blast

lemma pop_None: "q_pop Q q = None \<longleftrightarrow> view q = []"
  using pop_law[of q] by (cases "q_pop Q q") (auto simp: pops_def)

lemma pop_Some: "q_pop Q q = Some (t, q') \<Longrightarrow> view q = t # view q'"
  using pop_law[of q] by (simp add: pops_def)

lemma pop_Cons: "view q = t # ts \<Longrightarrow> \<exists>q'. q_pop Q q = Some (t, q') \<and> view q' = ts"
  using pop_law[of q] by (cases "q_pop Q q") (auto simp: pops_def)

lemma size_bounds: "int (length (view q)) - 1 \<le> q_size Q q" "q_size Q q \<le> int (length (view q))"
  using laws unfolding fifo_def by blast+

end

section \<open>Runs\<close>

text \<open>The producer and the worker take turns; \<open>acc\<close> is what the queue accepted so far.\<close>

inductive reached ::
  "('t option, 'q) queue_ops \<Rightarrow> ('t \<Rightarrow> 's \<Rightarrow> 's option) \<Rightarrow> ('q, 's) task_queue \<Rightarrow>
   't option list \<Rightarrow> ('q, 's) task_queue \<Rightarrow> bool"
  for Q exec w0 where
  Start: "reached Q exec w0 [] w0"
| Accept: "reached Q exec w0 acc w \<Longrightarrow> nonBlockingRun Q t w = (True, w') \<Longrightarrow> reached Q exec w0 (acc @ [t]) w'"
| Reject: "reached Q exec w0 acc w \<Longrightarrow> nonBlockingRun Q t w = (False, w') \<Longrightarrow> reached Q exec w0 acc w'"
| Work: "reached Q exec w0 acc w \<Longrightarrow> reached Q exec w0 acc (turn Q exec w)"

text \<open>Running tasks in order, and what a worker has done with the tasks it took.\<close>

fun run_tasks :: "('t \<Rightarrow> 's \<Rightarrow> 's option) \<Rightarrow> 't list \<Rightarrow> 's \<Rightarrow> 's option" where
  "run_tasks exec [] s = Some s"
| "run_tasks exec (t # ts) s = exec t s \<bind> run_tasks exec ts"

lemma run_tasks_append [simp]: "run_tasks exec (ts @ us) s = run_tasks exec ts s \<bind> run_tasks exec us"
  by (induction ts arbitrary: s) (auto simp: Option.bind_assoc split: Option.bind_splits)

definition taken :: "('t \<Rightarrow> 's \<Rightarrow> 's option) \<Rightarrow> 's \<Rightarrow> thread_state \<Rightarrow> 't option list \<Rightarrow> 's \<Rightarrow> bool" where
  "taken exec s0 st ts s \<longleftrightarrow> (case st of
     NotStarted \<Rightarrow> ts = [] \<and> s = s0
   | Looping \<Rightarrow> (\<exists>us. ts = map Some us \<and> run_tasks exec us s0 = Some s)
   | Ended \<Rightarrow> (\<exists>us. ts = map Some us @ [None] \<and> run_tasks exec us s0 = Some s)
   | Aborted \<Rightarrow> (\<exists>us u. ts = map Some (us @ [u]) \<and> run_tasks exec us s0 = Some s \<and> exec u s = None))"

lemma taken_next:
  assumes "taken exec s0 Looping ts s"
  shows "taken exec s0 Ended (ts @ [None]) s"
    and "exec u s = None \<Longrightarrow> taken exec s0 Aborted (ts @ [Some u]) s"
    and "exec u s = Some s' \<Longrightarrow> taken exec s0 Looping (ts @ [Some u]) s'"
proof -
  obtain us where us: "ts = map Some us" "run_tasks exec us s0 = Some s"
    using assms by (auto simp: taken_def)
  show "taken exec s0 Ended (ts @ [None]) s"
    using us by (auto simp: taken_def)
  show "taken exec s0 Aborted (ts @ [Some u]) s" if "exec u s = None"
    unfolding taken_def thread_state.case by (rule exI[of _ us], rule exI[of _ u]) (use us that in simp)
  show "taken exec s0 Looping (ts @ [Some u]) s'" if "exec u s = Some s'"
    unfolding taken_def thread_state.case by (rule exI[of _ "us @ [u]"]) (use us that in simp)
qed

context task_fifo
begin

lemma nonBlockingRun_view:
  "nonBlockingRun Q t w = (r, w') \<Longrightarrow>
   view (pending w') = view (pending w) @ (if r then [t] else []) \<and> thread w' = thread w \<and>
   local_state w' = local_state w \<and> maxSize w' = maxSize w"
  by (auto simp: nonBlockingRun_def view_push split: if_splits)

text \<open>A turn moves the first pending task to the taken ones, or nothing happens.\<close>

lemma turn_taken:
  assumes "taken exec s0 (thread w) ts (local_state w)"
  shows "\<exists>us. view (pending w) = us @ view (pending (turn Q exec w)) \<and>
    taken exec s0 (thread (turn Q exec w)) (ts @ us) (local_state (turn Q exec w))"
proof (cases "thread w = Looping")
  case False
  with assms show ?thesis by (simp add: turn_def)
next
  case looping: True
  show ?thesis
  proof (cases "q_pop Q (pending w)")
    case None
    with assms looping show ?thesis by (simp add: turn_def)
  next
    case (Some r)
    then obtain t q where p: "q_pop Q (pending w) = Some (t, q)" by (cases r) simp
    from pop_Some[OF this] have "view (pending w) = [t] @ view q" by simp
    then show ?thesis
      using p looping assms taken_next[of exec s0 ts "local_state w"]
      by (intro exI[of _ "[t]"]) (auto simp: turn_def split: option.splits)
  qed
qed

lemma reached_order:
  assumes "reached Q exec w0 acc w" and "taken exec s0 (thread w0) [] (local_state w0)" and "view (pending w0) = []"
  shows "\<exists>ts. acc = ts @ view (pending w) \<and> taken exec s0 (thread w) ts (local_state w)"
  using assms
proof (induction rule: reached.induct)
  case (Work acc w)
  then obtain ts where ts: "acc = ts @ view (pending w)" "taken exec s0 (thread w) ts (local_state w)" by blast
  from turn_taken[OF ts(2)] ts(1) show ?case by fastforce
qed (fastforce dest: nonBlockingRun_view)+

lemma turn_length: "length (view (pending (turn Q exec w))) \<le> length (view (pending w))" "maxSize (turn Q exec w) = maxSize w"
  by (auto simp: turn_def dest!: pop_Some split: option.splits)

lemma started_order:
  assumes "init s = Some s0" and "reached Q exec (start init (setMaxQueueSize n (TaskQueue Q junk s))) acc w"
  shows "\<exists>ts. acc = ts @ view (pending w) \<and> taken exec s0 (thread w) ts (local_state w)"
  by (rule reached_order[OF assms(2)])
    (use assms(1) view_new in \<open>auto simp: start_def setMaxQueueSize_def TaskQueue_def taken_def\<close>)

lemma reached_bound:
  assumes "reached Q exec w0 acc w" and "view (pending w0) = []"
  shows "maxSize w = maxSize w0 \<and> int (length (view (pending w))) \<le> max 0 (maxSize w0 + 1)"
  using assms
proof (induction rule: reached.induct)
  case (Accept acc w t w')
  have "q_size Q (pending w) < maxSize w"
    using Accept.hyps(2) by (simp add: nonBlockingRun_def split: if_splits)
  with Accept size_bounds(1)[of "pending w"] nonBlockingRun_view[OF Accept.hyps(2)] show ?case
    by simp
next
  case (Work acc w)
  with turn_length[of exec w] show ?case by fastforce
qed (auto simp: nonBlockingRun_def split: if_splits)

text \<open>A looping worker that takes a task runs it.\<close>

lemma turn_task:
  assumes "thread w = Looping" and "view (pending w) = Some t # ts" and "exec t (local_state w) = Some s"
  shows "thread (turn Q exec w) = Looping \<and> view (pending (turn Q exec w)) = ts \<and>
    local_state (turn Q exec w) = s \<and> maxSize (turn Q exec w) = maxSize w"
  using pop_Cons[OF assms(2)] assms by (auto simp: turn_def)

lemma turn_end:
  assumes "thread w = Looping" and "view (pending w) = None # ts"
  shows "thread (turn Q exec w) = Ended \<and> view (pending (turn Q exec w)) = ts \<and>
    local_state (turn Q exec w) = local_state w"
  using pop_Cons[OF assms(2)] assms by (auto simp: turn_def)

lemma stop_push_ends:
  assumes "thread w = Looping" and "view (pending w) = map Some ts" and "run_tasks exec ts (local_state w) = Some s"
    and "0 < maxSize w" and "length ts < n"
  shows "\<exists>us w'. stop_push n Q exec w = Some w' \<and> thread w' = Looping \<and> view (pending w') = map Some us @ [None] \<and>
    run_tasks exec us (local_state w') = Some s \<and> length us \<le> length ts"
  using assms
proof (induction n arbitrary: w ts)
  case (Suc n)
  obtain r w' where run: "nonBlockingRun Q None w = (r, w')" by fastforce
  note v = nonBlockingRun_view[OF run]
  show ?case
  proof (cases r)
    case True
    with Suc.prems run v show ?thesis by auto
  next
    case False
    with run have full: "w' = w" "\<not> q_size Q (pending w) < maxSize w"
      by (auto simp: nonBlockingRun_def split: if_splits)
    with Suc.prems size_bounds(2)[of "pending w"] obtain u us where ts: "ts = u # us"
      by (cases ts) auto
    with Suc.prems(3) obtain s1 where s1: "exec u (local_state w) = Some s1" "run_tasks exec us s1 = Some s"
      by (auto simp: bind_eq_Some_conv)
    have t: "thread (turn Q exec w) = Looping \<and> view (pending (turn Q exec w)) = map Some us \<and>
        local_state (turn Q exec w) = s1 \<and> maxSize (turn Q exec w) = maxSize w"
      using Suc.prems ts s1 by (intro turn_task) auto
    obtain vs w1 where "stop_push n Q exec (turn Q exec w) = Some w1" "thread w1 = Looping"
      "view (pending w1) = map Some vs @ [None]" "run_tasks exec vs (local_state w1) = Some s" "length vs \<le> length us"
      using Suc.IH[of "turn Q exec w" us] t s1 Suc.prems ts by auto
    then show ?thesis
      using run False full ts by auto
  qed
qed simp

lemma join_ends:
  assumes "thread w = Looping" and "view (pending w) = map Some ts @ [None]" and "run_tasks exec ts (local_state w) = Some s"
    and "length ts < n"
  shows "\<exists>w'. join n Q exec w = Some w' \<and> thread w' = Ended \<and> view (pending w') = [] \<and> local_state w' = s"
  using assms
proof (induction ts arbitrary: n w)
  case Nil
  then obtain m where "n = Suc m" by (cases n) auto
  with Nil turn_end[of w "[]" exec] show ?case
    by (cases m) auto
next
  case (Cons t ts)
  then obtain m where m: "n = Suc m" by (cases n) auto
  from Cons.prems obtain s1 where s1: "exec t (local_state w) = Some s1" "run_tasks exec ts s1 = Some s"
    by (auto simp: bind_eq_Some_conv)
  from Cons.prems s1 turn_task[of w t "map Some ts @ [None]" exec s1]
  have "thread (turn Q exec w) = Looping \<and> view (pending (turn Q exec w)) = map Some ts @ [None] \<and>
      local_state (turn Q exec w) = s1" by auto
  with Cons.IH[of "turn Q exec w" m] s1 Cons.prems m show ?case by auto
qed

end

text \<open>A queue of lists satisfies the contract.\<close>

definition list_queue :: "('t, 't list) queue_ops" where
  "list_queue = \<lparr>q_new = [], q_push = (\<lambda>t q. q @ [t]),
     q_pop = (\<lambda>q. case q of [] \<Rightarrow> None | t # ts \<Rightarrow> Some (t, ts)), q_size = (\<lambda>q. int (length q))\<rparr>"

lemma fifo_list_queue: "fifo list_queue (\<lambda>q. q)"
  by (auto simp: fifo_def list_queue_def pops_def split: list.splits)

interpretation list_fifo: task_fifo list_queue "\<lambda>q. q"
  by unfold_locales (rule fifo_list_queue)

section \<open>Properties\<close>

text \<open>
  C31: Order. However the producer and the worker interleave, the tasks accepted so far are the
  tasks the worker took, in order, followed by those pending; and the worker's state is the
  result of running what it took, up to an empty task (which ends it) or an exception.
\<close>

theorem task_queue_order:
  assumes "fifo Q view" and "init s = Some s0"
    and "reached Q exec (start init (setMaxQueueSize n (TaskQueue Q junk s))) acc w"
  shows "\<exists>ts. acc = ts @ view (pending w) \<and> taken exec s0 (thread w) ts (local_state w)"
  by (rule task_fifo.started_order[OF task_fifo.intro[OF assms(1)] assms(2,3)])

definition sample_worker :: "(nat option list, nat) task_queue" where
  "sample_worker = start Some (setMaxQueueSize 2 (TaskQueue list_queue 0 5))"

definition sample_exec :: "nat \<Rightarrow> nat \<Rightarrow> nat option" where
  "sample_exec t s = Some (10 * s + t)"

lemma sample_reached:
  "reached list_queue sample_exec sample_worker [Some 7] (turn list_queue sample_exec (snd (nonBlockingRun list_queue (Some 7) sample_worker)))"
  using Work[OF Accept[OF Start, of list_queue "Some 7" sample_worker]]
  by (simp add: sample_worker_def start_def setMaxQueueSize_def TaskQueue_def nonBlockingRun_def list_queue_def)

lemma task_queue_order_witness:
  "\<exists>ts. [Some 7] = ts @ pending (turn list_queue sample_exec (snd (nonBlockingRun list_queue (Some 7) sample_worker))) \<and>
     taken sample_exec 5 (thread (turn list_queue sample_exec (snd (nonBlockingRun list_queue (Some 7) sample_worker)))) ts
       (local_state (turn list_queue sample_exec (snd (nonBlockingRun list_queue (Some 7) sample_worker))))"
  by (rule task_queue_order[OF fifo_list_queue _ sample_reached[unfolded sample_worker_def], folded sample_worker_def]) simp

text \<open>
  Bound. A queue with one producer never holds more than its limit, plus at most the one
  element that a pop already counted makes room for.
\<close>

theorem task_queue_bounded:
  assumes "fifo Q view" and "init s = Some s0" and "0 \<le> n"
    and "reached Q exec (start init (setMaxQueueSize n (TaskQueue Q junk s))) acc w"
  shows "int (length (view (pending w))) \<le> n + 1"
  using task_fifo.reached_bound[OF task_fifo.intro[OF assms(1)] assms(4)] assms
  by (auto simp: start_def setMaxQueueSize_def TaskQueue_def fifo_def)

lemma task_queue_bounded_witness:
  "int (length (pending (turn list_queue sample_exec (snd (nonBlockingRun list_queue (Some 7) sample_worker))))) \<le> 2 + 1"
  by (rule task_queue_bounded[OF fifo_list_queue _ _ sample_reached[unfolded sample_worker_def], folded sample_worker_def]) simp_all

text \<open>
  C32: Shutdown. \<open>stop\<close> returns, and everything pending has been run by then: with tasks that
  raise nothing, a positive limit and fuel for each pending task, the worker ends with an
  empty queue and the state the pending tasks lead to.
\<close>

theorem task_queue_stop_drains:
  assumes "fifo Q view" and "thread w = Looping" and "view (pending w) = map Some ts"
    and "run_tasks exec ts (local_state w) = Some s" and "0 < maxSize w" and "length ts < fuel"
  shows "\<exists>w'. stop fuel Q exec w = Some w' \<and> thread w' = Ended \<and> view (pending w') = [] \<and> local_state w' = s"
proof -
  note q = task_fifo.intro[OF assms(1)]
  obtain us w1 where w1: "stop_push fuel Q exec w = Some w1" "thread w1 = Looping" "view (pending w1) = map Some us @ [None]"
    "run_tasks exec us (local_state w1) = Some s" "length us \<le> length ts"
    using task_fifo.stop_push_ends[OF q assms(2-6)] by blast
  with task_fifo.join_ends[OF q w1(2-4), of fuel] assms(6) show ?thesis
    by (simp add: stop_def)
qed

lemma task_queue_stop_drains_witness:
  "\<exists>w'. stop 3 list_queue sample_exec (sample_worker\<lparr>pending := map Some [1, 2]\<rparr>) = Some w' \<and> thread w' = Ended \<and>
     pending w' = [] \<and> local_state w' = 512"
  by (rule task_queue_stop_drains[OF fifo_list_queue, where ts = "[1, 2]"])
    (simp_all add: sample_worker_def start_def setMaxQueueSize_def TaskQueue_def sample_exec_def)

end
