(* ===== verification/Dispatcher.thy ===== *)
theory Dispatcher
  imports Hashing Task_Queue
begin

text \<open>
  \<open>dpi/Dispatcher.cc\<close>: captured IP packets are copied and handed to the worker their
  connection hashes to, without blocking. Proved: both directions of a connection go to one
  worker; every worker simulates a task queue that was offered exactly its packets, in
  arrival order; the counters count accepted packets; and fragments of one datagram may be
  separated.
\<close>

section \<open>State\<close>

text \<open>The lambda of \<open>onIpFragment\<close> with its captured values, or a task given to \<open>runTask\<close>.\<close>

datatype 'u worker_task = PacketTask bytes int timeval | UserTask 'u

record ('q, 's) dispatcher =
  nWorkers :: u32
  workers :: "('q, 's) task_queue list"
  taskCounter :: "int list"

definition Dispatcher ::
  "('u worker_task option, 'q) queue_ops \<Rightarrow> u32 \<Rightarrow> int \<Rightarrow> ('s \<Rightarrow> 's option) \<Rightarrow> int \<Rightarrow> 's \<Rightarrow> ('q, 's) dispatcher" where
  "Dispatcher Q n queueSize cb junk s =
     \<lparr>nWorkers = n,
      workers = map (\<lambda>i. start cb (setMaxQueueSize queueSize (TaskQueue Q junk s))) [0..<unat n],
      taskCounter = replicate (unat n) 0\<rparr>"

section \<open>Dispatching\<close>

datatype dispatch_result = PacketTooShort | NotSharded shard_error | Crashed shard_error | Overloaded nat | Accepted nat

text \<open>\<open>shard(hdr, len) % nWorkers_\<close>; a read outside the packet or the failed assertion ends it.\<close>

definition worker_index :: "bytes \<Rightarrow> nat list \<Rightarrow> u32 \<Rightarrow> bytes \<Rightarrow> int \<Rightarrow> shard_error + nat" where
  "worker_index xors perms n hdr len =
     (case shard_ip xors perms hdr len of Inl e \<Rightarrow> Inl e | Inr h \<Rightarrow> Inr (unat (h mod n)))"

text \<open>The check of \<open>ip_hl\<close> only reads the first byte.\<close>

definition onIpFragment ::
  "('u worker_task option, 'q) queue_ops \<Rightarrow> bytes \<Rightarrow> nat list \<Rightarrow> bytes \<Rightarrow> int \<Rightarrow> timeval \<Rightarrow> ('q, 's) dispatcher \<Rightarrow>
   dispatch_result \<times> ('q, 's) dispatcher" where
  "onIpFragment Q xors perms hdr len ts d = (case rd8 hdr 0 of
     None \<Rightarrow> (Crashed BadRead, d)
   | Some b \<Rightarrow>
       if len < 4 * int (unat (take_bit 4 b)) then (PacketTooShort, d)
       else (case worker_index xors perms (nWorkers d) hdr len of
         Inl e \<Rightarrow> (if e = BadRead \<or> e = LengthAssertion then Crashed e else NotSharded e, d)
       | Inr index \<Rightarrow>
           let copied = take (nat len) hdr;
               (success, w) = nonBlockingRun Q (Some (PacketTask copied len ts)) (workers d ! index);
               d1 = d\<lparr>workers := (workers d)[index := w]\<rparr>
           in if \<not> success then (Overloaded index, d1)
              else (Accepted index, d1\<lparr>taskCounter := (taskCounter d)[index := taskCounter d ! index + 1]\<rparr>)))"

definition runTask ::
  "('u worker_task option, 'q) queue_ops \<Rightarrow> 'u \<Rightarrow> ('q, 's) dispatcher \<Rightarrow> ('q, 's) dispatcher" where
  "runTask Q t d = d\<lparr>workers := map (\<lambda>w. snd (nonBlockingRun Q (Some (UserTask t)) w)) (workers d)\<rparr>"

section \<open>Runs\<close>

text \<open>The capture thread and the workers take turns.\<close>

datatype dispatch_event = Packet bytes int timeval | WorkerTurn nat

fun dispatch_run ::
  "('u worker_task option, 'q) queue_ops \<Rightarrow> ('u worker_task \<Rightarrow> 's \<Rightarrow> 's option) \<Rightarrow> bytes \<Rightarrow> nat list \<Rightarrow>
   dispatch_event list \<Rightarrow> ('q, 's) dispatcher \<Rightarrow> (nat \<times> 'u worker_task) list \<times> ('q, 's) dispatcher" where
  "dispatch_run Q exec xors perms [] d = ([], d)"
| "dispatch_run Q exec xors perms (Packet hdr len ts # es) d =
     (let (r, d1) = onIpFragment Q xors perms hdr len ts d;
          (acc, d2) = dispatch_run Q exec xors perms es d1
      in (case r of Accepted i \<Rightarrow> (i, PacketTask (take (nat len) hdr) len ts) # acc | _ \<Rightarrow> acc, d2))"
| "dispatch_run Q exec xors perms (WorkerTurn i # es) d =
     dispatch_run Q exec xors perms es
       (if i < length (workers d) then d\<lparr>workers := (workers d)[i := turn Q exec (workers d ! i)]\<rparr> else d)"

text \<open>The packets accepted for worker \<open>i\<close>, in arrival order.\<close>

definition accepted_for :: "nat \<Rightarrow> (nat \<times> 'u worker_task) list \<Rightarrow> 'u worker_task option list" where
  "accepted_for i acc = map (\<lambda>(j, t). Some t) (filter (\<lambda>(j, t). j = i) acc)"

definition well_formed :: "('q, 's) dispatcher \<Rightarrow> bool" where
  "well_formed d \<longleftrightarrow> 0 < nWorkers d \<and> length (workers d) = unat (nWorkers d) \<and> length (taskCounter d) = unat (nWorkers d)"

lemma Dispatcher_well_formed: "0 < n \<Longrightarrow> well_formed (Dispatcher Q n k cb junk s)"
  by (simp add: well_formed_def Dispatcher_def)

lemma worker_index_less: "0 < n \<Longrightarrow> worker_index xors perms n hdr len = Inr i \<Longrightarrow> i < unat n"
  by (auto simp: worker_index_def unat_mod_distrib word_less_nat_alt split: sum.splits)

text \<open>One packet: every worker but the chosen one is unchanged.\<close>

lemma onIpFragment_cases:
  assumes "onIpFragment Q xors perms hdr len ts d = (r, d')" and "well_formed d"
  shows "well_formed d'"
    and "case r of
        Accepted i \<Rightarrow> i < length (workers d) \<and>
          nonBlockingRun Q (Some (PacketTask (take (nat len) hdr) len ts)) (workers d ! i) = (True, workers d' ! i) \<and>
          (\<forall>j. j \<noteq> i \<longrightarrow> workers d' ! j = workers d ! j) \<and> taskCounter d' = (taskCounter d)[i := taskCounter d ! i + 1]
      | Overloaded i \<Rightarrow> i < length (workers d) \<and>
          nonBlockingRun Q (Some (PacketTask (take (nat len) hdr) len ts)) (workers d ! i) = (False, workers d' ! i) \<and>
          (\<forall>j. j \<noteq> i \<longrightarrow> workers d' ! j = workers d ! j) \<and> taskCounter d' = taskCounter d
      | _ \<Rightarrow> d' = d"
  using assms worker_index_less[of "nWorkers d" xors perms hdr len]
  by (auto simp: onIpFragment_def well_formed_def Let_def split: option.splits if_splits sum.splits prod.splits)

lemma accepted_for_Cons [simp]:
  "accepted_for i ((j, t) # acc) = (if j = i then [Some t] else []) @ accepted_for i acc"
  "accepted_for i [] = []"
  by (simp_all add: accepted_for_def)

text \<open>Every worker is a task queue that was offered its packets.\<close>

definition tracks ::
  "('u worker_task option, 'q) queue_ops \<Rightarrow> ('u worker_task \<Rightarrow> 's \<Rightarrow> 's option) \<Rightarrow> ('q, 's) dispatcher \<Rightarrow>
   (nat \<Rightarrow> 'u worker_task option list) \<Rightarrow> ('q, 's) dispatcher \<Rightarrow> bool" where
  "tracks Q exec d0 h d \<longleftrightarrow> well_formed d \<and> length (workers d) = length (workers d0) \<and>
     (\<forall>i < length (workers d). reached Q exec (workers d0 ! i) (h i) (workers d ! i) \<and>
        taskCounter d ! i = int (length (h i)))"

lemma tracks_packet:
  assumes t: "tracks Q exec d0 h d" and eq: "onIpFragment Q xors perms hdr len ts d = (r, d')"
  shows "tracks Q exec d0 (\<lambda>i. h i @ (if r = Accepted i then [Some (PacketTask (take (nat len) hdr) len ts)] else [])) d'"
proof -
  have wf: "well_formed d" using t by (simp add: tracks_def)
  note c = onIpFragment_cases[OF eq wf]
  have len: "length (workers d') = length (workers d)"
    using c(1) wf eq by (auto simp: onIpFragment_def Let_def split: option.splits if_splits sum.splits prod.splits)
  have cnt: "length (taskCounter d) = length (workers d)"
    using wf by (simp add: well_formed_def)
  show ?thesis
  proof (cases r)
    case (Overloaded i)
    with c(2) have run: "nonBlockingRun Q (Some (PacketTask (take (nat len) hdr) len ts)) (workers d ! i) = (False, workers d' ! i)"
      and oth: "\<forall>j. j \<noteq> i \<longrightarrow> workers d' ! j = workers d ! j" and k: "taskCounter d' = taskCounter d" by auto
    show ?thesis
      unfolding tracks_def
    proof (intro conjI allI impI)
      fix j assume j: "j < length (workers d')"
      have old: "reached Q exec (workers d0 ! j) (h j) (workers d ! j)" "taskCounter d ! j = int (length (h j))"
        using t j len by (auto simp: tracks_def)
      show "reached Q exec (workers d0 ! j)
          (h j @ (if r = Accepted j then [Some (PacketTask (take (nat len) hdr) len ts)] else [])) (workers d' ! j)"
        using old(1) oth Overloaded Reject[OF _ run] by (cases "j = i") auto
      show "taskCounter d' ! j = int (length (h j @ (if r = Accepted j then [Some (PacketTask (take (nat len) hdr) len ts)] else [])))"
        using old(2) k Overloaded by simp
    qed (use c(1) t len in \<open>auto simp: tracks_def\<close>)
  next
    case (Accepted i)
    with c(2) have run: "nonBlockingRun Q (Some (PacketTask (take (nat len) hdr) len ts)) (workers d ! i) = (True, workers d' ! i)"
      and oth: "\<forall>j. j \<noteq> i \<longrightarrow> workers d' ! j = workers d ! j" and i: "i < length (workers d)"
      and k: "taskCounter d' = (taskCounter d)[i := taskCounter d ! i + 1]" by auto
    show ?thesis
      unfolding tracks_def
    proof (intro conjI allI impI)
      fix j assume j: "j < length (workers d')"
      have old: "reached Q exec (workers d0 ! j) (h j) (workers d ! j)" "taskCounter d ! j = int (length (h j))"
        using t j len by (auto simp: tracks_def)
      show "reached Q exec (workers d0 ! j)
          (h j @ (if r = Accepted j then [Some (PacketTask (take (nat len) hdr) len ts)] else [])) (workers d' ! j)"
        using old(1) oth Accepted Accept[OF _ run] by (cases "j = i") auto
      show "taskCounter d' ! j = int (length (h j @ (if r = Accepted j then [Some (PacketTask (take (nat len) hdr) len ts)] else [])))"
        using old(2) k i cnt Accepted by (cases "j = i") auto
    qed (use c(1) t len in \<open>auto simp: tracks_def\<close>)
  qed (use c(2) t in auto)
qed

lemma tracks_turn:
  assumes "tracks Q exec d0 h d" and "i < length (workers d)"
  shows "tracks Q exec d0 h (d\<lparr>workers := (workers d)[i := turn Q exec (workers d ! i)]\<rparr>)"
  using assms by (auto simp: tracks_def well_formed_def nth_list_update intro: Work)

lemma dispatch_run_tracks:
  "\<lbrakk>tracks Q exec d0 h d; dispatch_run Q exec xors perms es d = (acc, d')\<rbrakk> \<Longrightarrow>
   tracks Q exec d0 (\<lambda>i. h i @ accepted_for i acc) d'"
proof (induction Q exec xors perms es d arbitrary: h acc rule: dispatch_run.induct)
  case (2 Q exec xors perms hdr len ts es d)
  obtain r d1 where r: "onIpFragment Q xors perms hdr len ts d = (r, d1)" by fastforce
  obtain acc1 where a: "dispatch_run Q exec xors perms es d1 = (acc1, d')"
    using 2(3) r by (auto split: prod.splits)
  have acc: "acc = (case r of Accepted i \<Rightarrow> (i, PacketTask (take (nat len) hdr) len ts) # acc1 | _ \<Rightarrow> acc1)"
    using 2(3) r a by auto
  have "(\<lambda>i. (h i @ (if r = Accepted i then [Some (PacketTask (take (nat len) hdr) len ts)] else [])) @ accepted_for i acc1)
      = (\<lambda>i. h i @ accepted_for i acc)"
    by (auto simp: acc split: dispatch_result.splits)
  with 2(1)[OF r[symmetric] refl tracks_packet[OF 2(2) r] a] show ?case by simp
next
  case (3 Q exec xors perms i es d)
  then show ?case
    by (auto split: if_splits intro: tracks_turn)
qed simp

lemma tracks_init: "0 < n \<Longrightarrow> tracks Q exec (Dispatcher Q n k cb junk s) (\<lambda>i. []) (Dispatcher Q n k cb junk s)"
  using Dispatcher_well_formed[of n Q k cb junk s] by (auto simp: tracks_def Dispatcher_def intro: Start)

text \<open>From the constructor on.\<close>

lemma dispatcher_tracks:
  assumes "0 < n" and "dispatch_run Q exec xors perms es (Dispatcher Q n k cb junk s) = (acc, d)" and "i < unat n"
  shows "reached Q exec (start cb (setMaxQueueSize k (TaskQueue Q junk s))) (accepted_for i acc) (workers d ! i) \<and>
    taskCounter d ! i = int (length (accepted_for i acc))"
proof -
  have t: "tracks Q exec (Dispatcher Q n k cb junk s) (\<lambda>i. accepted_for i acc) d"
    using dispatch_run_tracks[OF tracks_init[OF assms(1)] assms(2)] by simp
  then have "reached Q exec (workers (Dispatcher Q n k cb junk s) ! i) (accepted_for i acc) (workers d ! i)"
    "taskCounter d ! i = int (length (accepted_for i acc))"
    using assms(3) by (auto simp: tracks_def well_formed_def Dispatcher_def)
  moreover have "workers (Dispatcher Q n k cb junk s) ! i = start cb (setMaxQueueSize k (TaskQueue Q junk s))"
    using assms(3) by (simp add: Dispatcher_def)
  ultimately show ?thesis by simp
qed

section \<open>Properties\<close>

text \<open>
  C33: Flow affinity. All packets that carry one connection's addresses and ports, in either
  direction, are given to the same worker, so a worker sees complete conversations.
\<close>

theorem dispatcher_flow_affinity:
  assumes "getTuple4 p len = Inr t" and "getTuple4 p' len' = Inr t'" and "t' = t \<or> t' = t4_reversed t"
  shows "worker_index xors perms n p' len' = worker_index xors perms n p len"
  using assms by (auto simp: worker_index_def shard_ip_def shard_reversed)

definition sample_ip :: "u8 \<Rightarrow> u8 \<Rightarrow> u8 \<Rightarrow> u8 \<Rightarrow> u8 \<Rightarrow> u8 \<Rightarrow> bytes" where
  "sample_ip off lo src dst b1 b2 =
     [0x45, 0, 0, 28, 0, 1, off, lo, 64, 17, 0, 0, 10, 0, 0, src, 10, 0, 0, dst, 0, b1, 0, b2, 0, 8, 0, 0]"

lemma sample_tuple:
  "getTuple4 (sample_ip 0 0 1 2 53 9) 28 =
     Inr \<lparr>source = 0x3500, dest = 0x0900, saddr = 0x0100000A, daddr = 0x0200000A\<rparr>"
  "getTuple4 (sample_ip 0 0 2 1 9 53) 28 =
     Inr \<lparr>source = 0x0900, dest = 0x3500, saddr = 0x0200000A, daddr = 0x0100000A\<rparr>"
  by code_simp+

lemma dispatcher_flow_affinity_witness:
  "\<forall>xors perms n. worker_index xors perms n (sample_ip 0 0 2 1 9 53) 28 = worker_index xors perms n (sample_ip 0 0 1 2 53 9) 28"
  by (intro allI, rule dispatcher_flow_affinity[OF sample_tuple]) (simp add: t4_reversed_def)

text \<open>
  Every worker simulates a task queue: after any interleaving of captured packets and
  worker turns, worker \<open>i\<close> is in a state its task queue reaches when it is offered exactly the
  packets accepted for \<open>i\<close>, in arrival order, and its counter is their number.
\<close>

theorem dispatcher_refines_task_queues:
  assumes "0 < n" and "dispatch_run Q exec xors perms es (Dispatcher Q n k cb junk s) = (acc, d)" and "i < unat n"
  shows "reached Q exec (start cb (setMaxQueueSize k (TaskQueue Q junk s))) (accepted_for i acc) (workers d ! i) \<and>
    taskCounter d ! i = int (length (accepted_for i acc))"
  by (rule dispatcher_tracks[OF assms])

definition sample_dispatcher :: "((unit worker_task option) list, nat) dispatcher" where
  "sample_dispatcher = Dispatcher list_queue 2 10 Some 0 0"

definition sample_events :: "dispatch_event list" where
  "sample_events = [Packet (sample_ip 0 0 1 2 53 9) 28 \<lparr>tv_sec = 1, tv_usec = 0\<rparr>, WorkerTurn 0]"

lemma dispatcher_refines_task_queues_witness:
  "case dispatch_run list_queue (\<lambda>t s. Some (Suc s)) [0, 0, 0, 0, 0, 0] [0, 1, 2, 3, 4, 5] sample_events sample_dispatcher of
     (acc, d) \<Rightarrow> taskCounter d ! 1 = int (length (accepted_for 1 acc))"
proof -
  obtain acc d where r: "dispatch_run list_queue (\<lambda>t s. Some (Suc s)) [0, 0, 0, 0, 0, 0] [0, 1, 2, 3, 4, 5] sample_events
      sample_dispatcher = (acc, d)" by fastforce
  from dispatcher_refines_task_queues[OF _ r[unfolded sample_dispatcher_def], of 1]
  have "taskCounter d ! 1 = int (length (accepted_for 1 acc))" by simp
  then show ?thesis unfolding r by simp
qed


end
