(* ===== verification/Noff.thy ===== *)
theory Noff
  imports Worker Capture Dispatcher
begin

text \<open>
  The program of \<open>noff.cc\<close>: \<open>main\<close> opens the capture, and either handles the packets on the
  capture thread or deals them out to workers. Proved: in the single-threaded mode the datagrams
  of every UDP client are the reports of its component's run on the captured frames; with a
  dispatcher every worker has run on the packets accepted for it so far, in order, less those
  pending in its queue.
\<close>

section \<open>Main\<close>

text \<open>What libpcap returns to the constructor of \<open>Capture\<close> and to \<open>setFilter\<close>.\<close>

record libpcap =
  pcap_open_live :: "string \<Rightarrow> link_type option"
  pcap_open_offline :: "string \<Rightarrow> link_type option"
  pcap_compile :: "string \<Rightarrow> int"
  pcap_setfilter :: int

text \<open>A NUL-terminated array as the string it holds.\<close>

definition c_string :: "string \<Rightarrow> string" where
  "c_string a = takeWhile (\<lambda>c. c \<noteq> CHR 0x00) a"

definition open_capture :: "libpcap \<Rightarrow> options \<Rightarrow> capture_error + capture" where
  "open_capture lib cfg =
     (if o_fileCapture cfg then Capture_file (pcap_open_offline lib (c_string (o_name cfg)))
      else case Capture_live (pcap_open_live lib (c_string (o_name cfg))) of
        Inl e \<Rightarrow> Inl e
      | Inr c \<Rightarrow> setFilter (pcap_compile lib ''ip'') (pcap_setfilter lib) c)"

datatype main_result = Ended main_end | CaptureEnded capture_error | WaitsForever
  | SingleThread options capture | Workers options capture

definition noff_main :: "libpcap \<Rightarrow> (char \<times> string) list \<Rightarrow> main_result" where
  "noff_main lib args = (case main_options args default_options of
     Inl e \<Rightarrow> Ended e
   | Inr cfg \<Rightarrow> (case open_capture lib cfg of
       Inl e \<Rightarrow> CaptureEnded e
     | Inr cap \<Rightarrow>
         if \<not> wait_returns cfg then WaitsForever
         else if o_singleThread cfg then SingleThread cfg cap
         else Workers cfg cap))"

section \<open>The single-threaded program\<close>

record captured =
  cf_caplen :: u32
  cf_data :: bytes
  cf_time :: timeval
  cf_junk :: ambient

record program =
  p_capture :: capture
  p_mac :: MacCount
  p_counter :: PacketCounter
  p_worker :: worker

text \<open>The datagrams of a worker's outputs, with the reports of the packet counter they cause.\<close>

definition counter_datagram :: "int list option \<Rightarrow> (udp_client \<times> string) list" where
  "counter_datagram r = (case r of None \<Rightarrow> [] | Some d \<Rightarrow> [(PacketCounterOutput, onData counter_to_string d)])"

fun count_outs :: "worker_out list \<Rightarrow> PacketCounter \<Rightarrow> (udp_client \<times> string) list \<times> PacketCounter" where
  "count_outs [] c = ([], c)"
| "count_outs (Send u s # xs) c = (let (ds, c') = count_outs xs c in ((u, s) # ds, c'))"
| "count_outs (CountTcp a t # xs) c =
     (let (r, c1) = pc_onTcpData True c a t; (ds, c') = count_outs xs c1 in (counter_datagram r @ ds, c'))"
| "count_outs (CountUdp a t # xs) c =
     (let (r, c1) = pc_onUdpData True c a t; (ds, c') = count_outs xs c1 in (counter_datagram r @ ds, c'))"

definition input_of :: "captured \<Rightarrow> bytes \<Rightarrow> int \<Rightarrow> input" where
  "input_of f data len = \<lparr>in_data = data, in_len = len, in_time = cf_time f, in_junk = cf_junk f\<rparr>"

definition passed :: "(u32 \<Rightarrow> string) \<Rightarrow> captured \<Rightarrow> packet_result \<Rightarrow> worker \<Rightarrow> (worker_out list \<times> worker) option" where
  "passed toIp f r w = (case r of
     Passed data len \<Rightarrow> worker_packet toIp (input_of f data len) w
   | TooShort \<Rightarrow> Some ([], w)
   | NotIp \<Rightarrow> Some ([], w)
   | BadLinkType \<Rightarrow> None
   | ReadFault \<Rightarrow> None)"

text \<open>
  \<open>internalCallBack\<close>: \<open>Capture::onPacket\<close>, registered by the constructor, and then
  \<open>MacCount::processMac\<close>.
\<close>

definition single_frame :: "(u32 \<Rightarrow> string) \<Rightarrow> (captured, udp_client \<times> string, program) component" where
  "single_frame toIp f p = do {
     let (r, cap) = onPacket (cf_caplen f) (cf_data f) (p_capture p);
     (outs, w) \<leftarrow> passed toIp f r (p_worker p);
     let (ds, c) = count_outs outs (p_counter p);
     let (m, mac) = processMac True (p_mac p) (unat (cf_caplen f)) (cf_data f) (cf_time f);
     Some (ds @ (case m of None \<Rightarrow> [] | Some i \<Rightarrow> [(MacCounterOutput, onData mac_to_string i)]),
       \<lparr>p_capture = cap, p_mac = mac, p_counter = c, p_worker = w\<rparr>) }"

section \<open>Every component's part\<close>

fun sent_to :: "udp_client \<Rightarrow> (udp_client \<times> string) list \<Rightarrow> string list" where
  "sent_to u [] = []"
| "sent_to u ((v, s) # ds) = (if v = u then [s] else []) @ sent_to u ds"

lemma sent_to_append [projections]: "sent_to u (xs @ ys) = sent_to u xs @ sent_to u ys"
  by (induction u xs rule: sent_to.induct) simp_all

text \<open>The packets \<open>onPacket\<close> passed on, and the calls of the packet counter.\<close>

fun inputs_of :: "captured list \<Rightarrow> packet_result list \<Rightarrow> input list" where
  "inputs_of (f # fs) (Passed data len # rs) = input_of f data len # inputs_of fs rs"
| "inputs_of (f # fs) (r # rs) = inputs_of fs rs"
| "inputs_of _ _ = []"

fun counter_calls :: "worker_out list \<Rightarrow> pc_event list" where
  "counter_calls [] = []"
| "counter_calls (Send u s # xs) = counter_calls xs"
| "counter_calls (CountTcp a t # xs) = PcTcp True a t # counter_calls xs"
| "counter_calls (CountUdp a t # xs) = PcUdp True a t # counter_calls xs"

definition mac_frame :: "captured \<Rightarrow> frame" where
  "mac_frame f = (True, unat (cf_caplen f), cf_data f, cf_time f)"

lemma counter_calls_append [projections]: "counter_calls (xs @ ys) = counter_calls xs @ counter_calls ys"
  by (induction xs rule: counter_calls.induct) simp_all

lemma pc_run_append:
  "pc_run s (xs @ ys) = (let (rs, s1) = pc_run s xs; (qs, s2) = pc_run s1 ys in (rs @ qs, s2))"
  by (induction s xs rule: pc_run.induct) (auto simp: Let_def split: prod.splits option.splits)

lemma count_outs_counter:
  "\<lbrakk>count_outs xs c = (ds, c'); sent PacketCounterOutput xs = []\<rbrakk> \<Longrightarrow>
   \<exists>rs. pc_run c (counter_calls xs) = (rs, c') \<and> sent_to PacketCounterOutput ds = map (onData counter_to_string) rs"
proof (induction xs c arbitrary: ds rule: count_outs.induct)
  case (2 u s xs c)
  then show ?case
    by (auto split: prod.splits if_splits)
next
  case (3 a t xs c)
  obtain r c1 ds1 where r: "pc_onTcpData True c a t = (r, c1)" "count_outs xs c1 = (ds1, c')" "ds = counter_datagram r @ ds1"
    using 3(2) by (auto split: prod.splits)
  obtain rs where "pc_run c1 (counter_calls xs) = (rs, c')" "sent_to PacketCounterOutput ds1 = map (onData counter_to_string) rs"
    using 3(1)[OF r(1)[symmetric] refl r(2)] 3(3) by auto
  with r show ?case
    by (cases r) (auto simp: counter_datagram_def)
next
  case (4 a t xs c)
  obtain r c1 ds1 where r: "pc_onUdpData True c a t = (r, c1)" "count_outs xs c1 = (ds1, c')" "ds = counter_datagram r @ ds1"
    using 4(2) by (auto split: prod.splits)
  obtain rs where "pc_run c1 (counter_calls xs) = (rs, c')" "sent_to PacketCounterOutput ds1 = map (onData counter_to_string) rs"
    using 4(1)[OF r(1)[symmetric] refl r(2)] 4(3) by auto
  with r show ?case
    by (cases r) (auto simp: counter_datagram_def)
qed simp

lemma count_outs_rest:
  "\<lbrakk>count_outs xs c = (ds, c'); u \<noteq> PacketCounterOutput\<rbrakk> \<Longrightarrow> sent_to u ds = sent u xs"
proof (induction xs c arbitrary: ds rule: count_outs.induct)
  case (2 v s xs c)
  then show ?case by (auto split: prod.splits)
next
  case (3 a t xs c)
  then show ?case
    by (auto simp: counter_datagram_def projections split: prod.splits option.splits)
next
  case (4 a t xs c)
  then show ?case
    by (auto simp: counter_datagram_def projections split: prod.splits option.splits)
qed simp

text \<open>One frame.\<close>

definition frame_inputs :: "captured \<Rightarrow> packet_result \<Rightarrow> input list" where
  "frame_inputs f r = (case r of Passed data len \<Rightarrow> [input_of f data len] | _ \<Rightarrow> [])"

lemma inputs_of_Cons: "inputs_of (f # fs) (r # rs) = frame_inputs f r @ inputs_of fs rs"
  by (cases r) (simp_all add: frame_inputs_def)

lemma passed_run: "passed toIp f r w = Some (outs, w') \<Longrightarrow> feed_all (worker_packet toIp) (frame_inputs f r) w = Some (outs, w')"
  by (cases r) (simp_all add: passed_def frame_inputs_def)

lemma worker_silent:
  assumes "feed_all (worker_packet toIp) ps w = Some (outs, w')"
  shows "sent PacketCounterOutput outs = []" and "sent MacCounterOutput outs = []"
  using worker_run_explained[OF assms] by (auto simp: explains_def)

lemma frame_parts:
  assumes "single_frame toIp f p = Some (ds, p')"
  obtains r outs cs m where "onPacket (cf_caplen f) (cf_data f) (p_capture p) = (r, p_capture p')"
    "passed toIp f r (p_worker p) = Some (outs, p_worker p')" "count_outs outs (p_counter p) = (cs, p_counter p')"
    "processMac True (p_mac p) (unat (cf_caplen f)) (cf_data f) (cf_time f) = (m, p_mac p')"
    "ds = cs @ (case m of None \<Rightarrow> [] | Some i \<Rightarrow> [(MacCounterOutput, onData mac_to_string i)])"
proof -
  obtain r cap where r: "onPacket (cf_caplen f) (cf_data f) (p_capture p) = (r, cap)" by fastforce
  obtain m mac where m: "processMac True (p_mac p) (unat (cf_caplen f)) (cf_data f) (cf_time f) = (m, mac)" by fastforce
  obtain outs w where w: "passed toIp f r (p_worker p) = Some (outs, w)"
    using assms r by (auto simp: single_frame_def Let_def bind_eq_Some_conv)
  obtain cs c where "count_outs outs (p_counter p) = (cs, c)" by fastforce
  with r m w that show thesis
    using assms by (auto simp: single_frame_def)
qed

section \<open>The worker threads\<close>

text \<open>
  What a thread has of its own: the number of packets it has seen (which picks the contents of
  its uninitialised memory), what it has sent, and its components. Tasks of a user never occur:
  \<open>runTask\<close> is not called; \<open>user\<close> says what they would do.
\<close>

record thread_local =
  tl_seen :: nat
  tl_out :: "worker_out list"
  tl_worker :: worker

definition thread_init :: "worker \<Rightarrow> thread_local" where
  "thread_init w = \<lparr>tl_seen = 0, tl_out = [], tl_worker = w\<rparr>"

definition thread_input :: "(nat \<Rightarrow> ambient) \<Rightarrow> nat \<Rightarrow> bytes \<Rightarrow> int \<Rightarrow> timeval \<Rightarrow> input" where
  "thread_input mem i data len t = \<lparr>in_data = data, in_len = len, in_time = t, in_junk = mem i\<rparr>"

fun thread_task :: "(u32 \<Rightarrow> string) \<Rightarrow> (nat \<Rightarrow> ambient) \<Rightarrow> ('u \<Rightarrow> thread_local \<Rightarrow> thread_local option) \<Rightarrow>
    'u worker_task \<Rightarrow> thread_local \<Rightarrow> thread_local option" where
  "thread_task toIp mem user (PacketTask data len t) s =
     map_option (\<lambda>(out, w). \<lparr>tl_seen = tl_seen s + 1, tl_out = tl_out s @ out, tl_worker = w\<rparr>)
       (worker_packet toIp (thread_input mem (tl_seen s) data len t) (tl_worker s))"
| "thread_task toIp mem user (UserTask u) s = user u s"

text \<open>\<open>Dispatcher disp(nWorkers, taskQueSize, &initInThread)\<close>: the arguments become \<open>unsigned\<close>.\<close>

definition noff_dispatcher ::
  "('u worker_task option, 'q) queue_ops \<Rightarrow> options \<Rightarrow> int \<Rightarrow> worker \<Rightarrow> ('q, thread_local) dispatcher" where
  "noff_dispatcher Q cfg junk w = Dispatcher Q (word_of_int (o_nWorkers cfg)) taskQueSize Some junk (thread_init w)"

text \<open>The inputs of the packets a thread has taken.\<close>

fun thread_inputs :: "(nat \<Rightarrow> ambient) \<Rightarrow> nat \<Rightarrow> 'u worker_task list \<Rightarrow> input list" where
  "thread_inputs mem i [] = []"
| "thread_inputs mem i (PacketTask data len t # ts) = thread_input mem i data len t # thread_inputs mem (Suc i) ts"
| "thread_inputs mem i (UserTask u # ts) = thread_inputs mem i ts"

fun is_packet :: "'u worker_task \<Rightarrow> bool" where
  "is_packet (PacketTask data len t) \<longleftrightarrow> True"
| "is_packet (UserTask u) \<longleftrightarrow> False"

lemma thread_inputs_snoc:
  "list_all is_packet us \<Longrightarrow> thread_inputs mem i (us @ [PacketTask data len t]) = thread_inputs mem i us @ [thread_input mem (i + length us) data len t]"
  by (induction mem i us rule: thread_inputs.induct) simp_all

lemma thread_run:
  "\<lbrakk>list_all is_packet ts; run_tasks (thread_task toIp mem user) ts s = Some s'\<rbrakk> \<Longrightarrow>
   tl_seen s' = tl_seen s + length ts \<and> (\<exists>out. tl_out s' = tl_out s @ out \<and>
     feed_all (worker_packet toIp) (thread_inputs mem (tl_seen s) ts) (tl_worker s) = Some (out, tl_worker s'))"
proof (induction ts arbitrary: s)
  case (Cons x ts)
  then obtain data len t where x: "x = PacketTask data len t" by (cases x) auto
  obtain out1 w where w: "worker_packet toIp (thread_input mem (tl_seen s) data len t) (tl_worker s) = Some (out1, w)"
    and r: "run_tasks (thread_task toIp mem user) ts \<lparr>tl_seen = tl_seen s + 1, tl_out = tl_out s @ out1, tl_worker = w\<rparr> = Some s'"
    using Cons.prems(2) x by (auto simp: bind_eq_Some_conv)
  from Cons.IH[OF _ r] Cons.prems(1) w x show ?case by auto
qed simp

lemma thread_started:
  "\<lbrakk>reached Q exec w0 acc w; thread w0 \<noteq> NotStarted\<rbrakk> \<Longrightarrow> thread w \<noteq> NotStarted"
  by (induction rule: reached.induct) (auto simp: nonBlockingRun_def turn_def split: if_splits option.splits)

lemma accepted_packets:
  "dispatch_run Q exec xors perms es d = (acc, d') \<Longrightarrow> list_all (\<lambda>(i, t). is_packet t) acc"
proof (induction Q exec xors perms es d arbitrary: acc rule: dispatch_run.induct)
  case (2 Q exec xors perms hdr len ts es d)
  obtain r d1 where r: "onIpFragment Q xors perms hdr len ts d = (r, d1)" by fastforce
  obtain acc1 where a: "dispatch_run Q exec xors perms es d1 = (acc1, d')"
    using 2(2) r by (auto split: prod.splits)
  have "acc = (case r of Accepted i \<Rightarrow> (i, PacketTask (take (nat len) hdr) len ts) # acc1 | _ \<Rightarrow> acc1)"
    using 2(2) r a by auto
  with 2(1)[OF r[symmetric] refl a] show ?case
    by (cases r) simp_all
next
  case (3 Q exec xors perms i es d)
  then show ?case by (auto split: if_splits)
qed simp

lemma accepted_for_packets:
  "list_all (\<lambda>(i, t). is_packet t) acc \<Longrightarrow> x \<in> set (accepted_for i acc) \<Longrightarrow> \<exists>t. x = Some t \<and> is_packet t"
  by (auto simp: accepted_for_def list_all_iff)

lemma workers_positive:
  assumes "main_options args default_options = Inr cfg"
  shows "0 < (word_of_int (o_nWorkers cfg) :: u32)" and "unat (word_of_int (o_nWorkers cfg) :: u32) = nat (o_nWorkers cfg)"
proof -
  have n: "1 \<le> o_nWorkers cfg" "o_nWorkers cfg < 2 ^ 31"
    using main_options_ok[OF default_options_ok, of args] assms by (simp_all add: options_ok_def)
  then have "uint (word_of_int (o_nWorkers cfg) :: u32) = o_nWorkers cfg"
    by (simp add: uint_word_of_int_eq take_bit_int_eq_self)
  with n show "unat (word_of_int (o_nWorkers cfg) :: u32) = nat (o_nWorkers cfg)"
    and "0 < (word_of_int (o_nWorkers cfg) :: u32)"
    by (simp_all add: word_less_def unat_eq_nat_uint)
qed

text \<open>What a thread has taken, as a run of a worker.\<close>

lemma taken_runs:
  assumes "taken (thread_task toIp mem user) (thread_init w0) st ts s" and "st \<noteq> NotStarted" and p: "\<forall>x \<in> set ts. \<exists>t. x = Some t \<and> is_packet t"
  shows "\<exists>us. ts = map Some us \<and> (case st of
       Looping \<Rightarrow> feed_all (worker_packet toIp) (thread_inputs mem 0 us) w0 = Some (tl_out s, tl_worker s)
     | Aborted \<Rightarrow> \<exists>ps p out w. thread_inputs mem 0 us = ps @ [p] \<and>
         feed_all (worker_packet toIp) ps w0 = Some (out, w) \<and> worker_packet toIp p w = None
     | _ \<Rightarrow> False)"
proof -
  let ?exec = "thread_task toIp mem user"
  have packets: "list_all is_packet us" if "ts = map Some us" for us
    using p that by (auto simp: list_all_iff)
  consider us where "st = Looping" "ts = map Some us" "run_tasks ?exec us (thread_init w0) = Some s"
    | us u where "st = Aborted" "ts = map Some (us @ [u])" "run_tasks ?exec us (thread_init w0) = Some s" "?exec u s = None"
    using assms by (cases st) (auto simp: taken_def)
  then show ?thesis
  proof cases
    case 1
    with thread_run[OF packets[OF 1(2)] 1(3)] show ?thesis
      by (intro exI[of _ us]) (auto simp: thread_init_def)
  next
    case 2
    note all = packets[OF 2(2)]
    then obtain data len t where u: "u = PacketTask data len t"
      by (cases u) auto
    from thread_run[OF _ 2(3)] all obtain out where
      "feed_all (worker_packet toIp) (thread_inputs mem 0 us) w0 = Some (out, tl_worker s)" "tl_seen s = length us"
      by (auto simp: thread_init_def)
    with 2 all u thread_inputs_snoc[of us mem 0 data len t] show ?thesis
      by (intro exI[of _ "us @ [u]"]) auto
  qed
qed

section \<open>Properties\<close>

text \<open>
  C9: The single-threaded program from frames to datagrams. Over any list of captured frames the
  capture, the MAC counter, the worker and the packet counter go through runs of their own, on
  the frames, on the packets the capture passed on, and on the calls the worker made; the two counters'
  clients are sent the text of exactly their reports, every other client exactly what the
  worker sent it.
\<close>

theorem single_thread_refines:
  assumes "feed_all (single_frame toIp) fs p = Some (ds, p')"
  shows "\<exists>rs outs reps macs.
    pcap_frames (map (\<lambda>f. (cf_caplen f, cf_data f)) fs) (p_capture p) = (rs, p_capture p') \<and>
    feed_all (worker_packet toIp) (inputs_of fs rs) (p_worker p) = Some (outs, p_worker p') \<and>
    pc_run (p_counter p) (counter_calls outs) = (reps, p_counter p') \<and>
    mac_run (p_mac p) (map mac_frame fs) = (macs, p_mac p') \<and>
    sent_to PacketCounterOutput ds = map (onData counter_to_string) reps \<and>
    sent_to MacCounterOutput ds = map (onData mac_to_string) macs \<and>
    (\<forall>u. u \<noteq> PacketCounterOutput \<and> u \<noteq> MacCounterOutput \<longrightarrow> sent_to u ds = sent u outs)"
  using assms
proof (induction fs arbitrary: p ds)
  case (Cons f fs)
  obtain d1 p1 d2 where f: "single_frame toIp f p = Some (d1, p1)" and fs: "feed_all (single_frame toIp) fs p1 = Some (d2, p')"
    and ds: "ds = d1 @ d2" using Cons.prems by (auto simp: bind_eq_Some_conv)
  obtain r o1 cs m where one: "onPacket (cf_caplen f) (cf_data f) (p_capture p) = (r, p_capture p1)"
    "passed toIp f r (p_worker p) = Some (o1, p_worker p1)" "count_outs o1 (p_counter p) = (cs, p_counter p1)"
    "processMac True (p_mac p) (unat (cf_caplen f)) (cf_data f) (cf_time f) = (m, p_mac p1)"
    and d1: "d1 = cs @ (case m of None \<Rightarrow> [] | Some i \<Rightarrow> [(MacCounterOutput, onData mac_to_string i)])"
    using frame_parts[OF f] .
  obtain rs o2 reps macs where rest:
    "pcap_frames (map (\<lambda>f. (cf_caplen f, cf_data f)) fs) (p_capture p1) = (rs, p_capture p')"
    "feed_all (worker_packet toIp) (inputs_of fs rs) (p_worker p1) = Some (o2, p_worker p')"
    "pc_run (p_counter p1) (counter_calls o2) = (reps, p_counter p')" "mac_run (p_mac p1) (map mac_frame fs) = (macs, p_mac p')"
    and sent: "sent_to PacketCounterOutput d2 = map (onData counter_to_string) reps" "sent_to MacCounterOutput d2 = map (onData mac_to_string) macs"
      "\<forall>u. u \<noteq> PacketCounterOutput \<and> u \<noteq> MacCounterOutput \<longrightarrow> sent_to u d2 = sent u o2"
    using Cons.IH[OF fs] by blast
  note w = passed_run[OF one(2)]
  obtain qs where qs: "pc_run (p_counter p) (counter_calls o1) = (qs, p_counter p1)"
    "sent_to PacketCounterOutput cs = map (onData counter_to_string) qs"
    using count_outs_counter[OF one(3) worker_silent(1)[OF w]] by blast
  have run: "feed_all (worker_packet toIp) (inputs_of (f # fs) (r # rs)) (p_worker p) = Some (o1 @ o2, p_worker p')"
    unfolding inputs_of_Cons by (rule feed_all_join[OF w rest(2)])
  have mac: "mac_run (p_mac p) (map mac_frame (f # fs)) = ((case m of None \<Rightarrow> [] | Some i \<Rightarrow> [i]) @ macs, p_mac p')"
    using one(4) rest(4) by (auto simp: mac_frame_def split: option.split)
  show ?case
    using one(1) rest(1,3) run qs mac sent count_outs_rest[OF one(3)] worker_silent(2)[OF w]
    by (intro exI[of _ "r # rs"] exI[of _ "o1 @ o2"] exI[of _ "qs @ reps"] exI[of _ "(case m of None \<Rightarrow> [] | Some i \<Rightarrow> [i]) @ macs"])
      (auto simp: ds d1 projections pc_run_append split: option.split)
qed simp

text \<open>
  C7: The multi-threaded program. Whatever the options, and however captured packets and worker turns interleave,
  the packets accepted for worker \<open>i\<close> are those it has taken, in order, followed by those pending;
  while it runs, what it has sent and its components' states are a worker's run on
  the packets taken, and it has stopped only if its last packet ended the process.
\<close>

theorem workers_refine_runs:
  assumes "fifo Q view" and "main_options args default_options = Inr cfg" and "i < nat (o_nWorkers cfg)"
    and "dispatch_run Q (thread_task toIp mem user) xors perms es (noff_dispatcher Q cfg junk w0) = (acc, d)"
  shows "\<exists>ts. accepted_for i acc = map Some ts @ view (pending (workers d ! i)) \<and>
    (case thread (workers d ! i) of
       Looping \<Rightarrow> feed_all (worker_packet toIp) (thread_inputs mem 0 ts) w0 =
         Some (tl_out (local_state (workers d ! i)), tl_worker (local_state (workers d ! i)))
     | Aborted \<Rightarrow> \<exists>ps p out w. thread_inputs mem 0 ts = ps @ [p] \<and>
         feed_all (worker_packet toIp) ps w0 = Some (out, w) \<and> worker_packet toIp p w = None
     | _ \<Rightarrow> False)"
proof -
  let ?exec = "thread_task toIp mem user" and ?q = "workers d ! i"
  note n = workers_positive[OF assms(2)]
  have r: "reached Q ?exec (start Some (setMaxQueueSize taskQueSize (TaskQueue Q junk (thread_init w0)))) (accepted_for i acc) ?q"
    using dispatcher_tracks[OF n(1) assms(4)[unfolded noff_dispatcher_def]] assms(3) n(2) by simp
  obtain ts where ts: "accepted_for i acc = ts @ view (pending ?q)" "taken ?exec (thread_init w0) (thread ?q) ts (local_state ?q)"
    using task_fifo.started_order[OF task_fifo.intro[OF assms(1)] _ r] by auto
  have "thread ?q \<noteq> NotStarted"
    by (rule thread_started[OF r]) (simp add: start_def)
  moreover have "\<forall>x \<in> set ts. \<exists>t. x = Some t \<and> is_packet t"
  proof
    fix x assume "x \<in> set ts"
    then have "x \<in> set (accepted_for i acc)"
      using ts(1) by simp
    from accepted_for_packets[OF accepted_packets[OF assms(4)] this] show "\<exists>t. x = Some t \<and> is_packet t" .
  qed
  ultimately show ?thesis
    using taken_runs[OF ts(2)] ts(1) by fastforce
qed

definition sample_ethernet :: captured where
  "sample_ethernet = \<lparr>cf_caplen = 42, cf_data = replicate 12 0 @ [8, 0] @ sample_datagram, cf_time = \<lparr>tv_sec = 5, tv_usec = 0\<rparr>,
     cf_junk = sample_ambient\<rparr>"

definition fresh_program :: program where
  "fresh_program = \<lparr>p_capture = \<lparr>linkType = DLT_EN10MB, linkOffset = 14, running = True\<rparr>, p_mac = MacCount_init,
     p_counter = PacketCounter_init\<lparr>has_callback := True\<rparr>, p_worker = fresh_worker\<rparr>"

lemma single_thread_refines_witness:
  "\<exists>ds p' rs outs. feed_all (single_frame inet_ntop) [sample_ethernet] fresh_program = Some (ds, p') \<and>
     pcap_frames (map (\<lambda>f. (cf_caplen f, cf_data f)) [sample_ethernet]) (p_capture fresh_program) = (rs, p_capture p') \<and>
     feed_all (worker_packet inet_ntop) (inputs_of [sample_ethernet] rs) (p_worker fresh_program) = Some (outs, p_worker p')"
proof -
  obtain w where w: "worker_packet inet_ntop (sample_input sample_datagram 5) fresh_worker =
      Some ([CountUdp datagram_tuple \<lparr>tv_sec = 5, tv_usec = 0\<rparr>], w)"
    using sample_delivered[of inet_ntop] by blast
  have "fst (onPacket 42 (replicate 12 0 @ [8, 0] @ sample_datagram) \<lparr>linkType = DLT_EN10MB, linkOffset = 14, running = True\<rparr>) =
      Passed sample_datagram 28"
    by code_simp
  then obtain cap where "onPacket 42 (replicate 12 0 @ [8, 0] @ sample_datagram) \<lparr>linkType = DLT_EN10MB, linkOffset = 14, running = True\<rparr> =
      (Passed sample_datagram 28, cap)"
    by (metis prod.collapse)
  moreover have "input_of sample_ethernet sample_datagram 28 = sample_input sample_datagram 5"
    by (simp add: input_of_def sample_ethernet_def sample_input_def sample_datagram_def)
  ultimately obtain ds p' where run: "feed_all (single_frame inet_ntop) [sample_ethernet] fresh_program = Some (ds, p')"
    using w by (simp add: single_frame_def passed_def fresh_program_def split_beta) (simp add: sample_ethernet_def)
  show ?thesis
    by (rule exI, rule exI, insert single_thread_refines[OF run], elim exE conjE, intro exI conjI, rule run) assumption+
qed

lemma workers_refine_runs_witness:
  "\<exists>acc d ts. dispatch_run list_queue (thread_task inet_ntop (\<lambda>_. sample_ambient) (\<lambda>(u :: unit) s. Some s)) [0, 0, 0, 0, 0, 0] [0, 1, 2, 3, 4, 5]
       [Packet sample_datagram 28 \<lparr>tv_sec = 5, tv_usec = 0\<rparr>, WorkerTurn 0] (noff_dispatcher list_queue default_options 0 fresh_worker) = (acc, d) \<and>
     accepted_for 0 acc = map Some ts @ pending (workers d ! 0)"
proof -
  obtain acc d where run: "dispatch_run list_queue (thread_task inet_ntop (\<lambda>_. sample_ambient) (\<lambda>(u :: unit) s. Some s)) [0, 0, 0, 0, 0, 0] [0, 1, 2, 3, 4, 5]
       [Packet sample_datagram 28 \<lparr>tv_sec = 5, tv_usec = 0\<rparr>, WorkerTurn 0] (noff_dispatcher list_queue default_options 0 fresh_worker) = (acc, d)"
    by fastforce
  have "main_options [] default_options = Inr default_options" "0 < nat (o_nWorkers default_options)"
    by (simp_all add: default_options_def)
  from workers_refine_runs[OF fifo_list_queue this run] obtain ts where "accepted_for 0 acc = map Some ts @ pending (workers d ! 0)"
    by blast
  with run show ?thesis by blast
qed

end
