(* ===== verification/Http_Names.thy ===== *)
theory Http_Names
  imports Http_Parser
begin

text \<open>
  The matchers of \<open>http_parser_execute\<close> against plain comparisons: the name of a header is
  recognised character by character exactly when it equals one of the five constants up to the
  case of its letters, and every method is recognised by its name.
\<close>

section \<open>Header names\<close>

definition header_class :: "bytes \<Rightarrow> header_states" where
  "header_class name =
     (if name = bytes_of ''connection'' \<or> name = bytes_of ''proxy-connection'' then h_connection
      else if name = bytes_of ''content-length'' then h_content_length
      else if name = bytes_of ''transfer-encoding'' then h_transfer_encoding
      else if name = bytes_of ''upgrade'' then h_upgrade else h_general)"

definition recognised :: "header_states \<Rightarrow> header_states" where
  "recognised h = (if h \<in> {h_connection, h_content_length, h_transfer_encoding, h_upgrade} then h else h_general)"

definition is_name :: "bytes \<Rightarrow> bool" where
  "is_name name \<longleftrightarrow> (\<forall>ch \<in> set name. TOKEN ch \<noteq> 0)"

lemma is_name_simps [simp]: "is_name []" "is_name (ch # cs) \<longleftrightarrow> TOKEN ch \<noteq> 0 \<and> is_name cs"
  by (simp_all add: is_name_def)

lemma TOKEN_space: "TOKEN (byte_of CHR '' '') = 0"
  by code_simp

lemma general_run: "is_name cs \<Longrightarrow> field_loop cs p h_general i = Some (p + length cs, h_general, i)"
  by (induction cs arbitrary: p) (simp_all add: match_field_def)

lemma full_run:
  assumes "is_name cs" and "\<And>t ch i. match_field t ch h i = Some (if ch \<noteq> byte_of CHR '' '' then h_general else h, i)"
  shows "field_loop cs p h i = Some (p + length cs, if cs = [] then h else h_general, i)"
  using assms TOKEN_space by (cases cs) (auto simp: general_run)

lemma match_run:
  assumes "is_name cs" and "Suc i < length X"
    and hm: "\<And>t ch i. match_field t ch hm i = match_const X hm full h_general t i"
    and full: "\<And>t ch i. match_field t ch full i = Some (if ch \<noteq> byte_of CHR '' '' then h_general else full, i)"
  shows "\<exists>h i'. field_loop cs p hm i = Some (p + length cs, h, i') \<and>
     h = (if map TOKEN cs = drop (Suc i) (bytes_of X) then full else if prefix (map TOKEN cs) (drop (Suc i) (bytes_of X)) then hm else h_general)"
  using assms(1,2)
proof (induction cs arbitrary: p i)
  case (Cons ch cs)
  have X: "drop (Suc i) (bytes_of X) = byte_of (X ! Suc i) # drop (Suc (Suc i)) (bytes_of X)"
    using Cons.prems(2) by (simp add: bytes_of_def Cons_nth_drop_Suc[symmetric])
  show ?case
  proof (cases "TOKEN ch = byte_of (X ! Suc i)")
    case False
    then have "match_field (TOKEN ch) ch hm i = Some (h_general, Suc i)"
      using Cons.prems(2) by (simp add: hm match_const_def const_at_def Let_def)
    with False Cons.prems show ?thesis
      unfolding X by (simp add: general_run)
  next
    case True
    show ?thesis
    proof (cases "Suc i = length X - 1")
      case last: True
      then have "match_field (TOKEN ch) ch hm i = Some (full, Suc i)" "drop (Suc (Suc i)) (bytes_of X) = []"
        using Cons.prems(2) True by (simp_all add: hm match_const_def const_at_def Let_def bytes_of_def)
      with True Cons.prems full_run[OF _ full, of cs "Suc p" "Suc i"] show ?thesis
        unfolding X by simp
    next
      case False
      then have "match_field (TOKEN ch) ch hm i = Some (hm, Suc i)" "Suc (Suc i) < length X"
        using Cons.prems(2) True by (simp_all add: hm match_const_def const_at_def Let_def)
      with True Cons.prems Cons.IH[of "Suc i" "Suc p"] show ?thesis
        unfolding X by (auto split: if_splits)
    qed
  qed
qed (use assms(2) in \<open>simp add: bytes_of_def\<close>)


lemma name_bytes:
  "bytes_of ''connection'' = [99, 111, 110, 110, 101, 99, 116, 105, 111, 110]"
  "bytes_of ''content-length'' = [99, 111, 110, 116, 101, 110, 116, 45, 108, 101, 110, 103, 116, 104]"
  "bytes_of ''proxy-connection'' = [112, 114, 111, 120, 121, 45, 99, 111, 110, 110, 101, 99, 116, 105, 111, 110]"
  "bytes_of ''transfer-encoding'' = [116, 114, 97, 110, 115, 102, 101, 114, 45, 101, 110, 99, 111, 100, 105, 110, 103]"
  "bytes_of ''upgrade'' = [117, 112, 103, 114, 97, 100, 101]"
  "byte_of CHR ''c'' = 99" "byte_of CHR ''o'' = 111" "byte_of CHR ''n'' = 110" "byte_of CHR ''t'' = 116" "byte_of CHR ''p'' = 112"
  "byte_of CHR ''u'' = 117"
  by code_simp+

text \<open>The name constants, the state that matches each and the full match.\<close>

lemma matchers:
  "match_field t ch h_matching_connection i = match_const ''connection'' h_matching_connection h_connection h_general t i"
  "match_field t ch h_matching_proxy_connection i = match_const ''proxy-connection'' h_matching_proxy_connection h_connection h_general t i"
  "match_field t ch h_matching_content_length i = match_const ''content-length'' h_matching_content_length h_content_length h_general t i"
  "match_field t ch h_matching_transfer_encoding i = match_const ''transfer-encoding'' h_matching_transfer_encoding h_transfer_encoding h_general t i"
  "match_field t ch h_matching_upgrade i = match_const ''upgrade'' h_matching_upgrade h_upgrade h_general t i"
  "match_field t ch h_connection i = Some (if ch \<noteq> byte_of CHR '' '' then h_general else h_connection, i)"
  "match_field t ch h_content_length i = Some (if ch \<noteq> byte_of CHR '' '' then h_general else h_content_length, i)"
  "match_field t ch h_transfer_encoding i = Some (if ch \<noteq> byte_of CHR '' '' then h_general else h_transfer_encoding, i)"
  "match_field t ch h_upgrade i = Some (if ch \<noteq> byte_of CHR '' '' then h_general else h_upgrade, i)"
  by (simp_all add: match_field_def)

lemma con_matchers:
  "match_field t ch h_C i = Some (if t = 111 then h_CO else h_general, Suc i)"
  "match_field t ch h_CO i = Some (if t = 110 then h_CON else h_general, Suc i)"
  "match_field t ch h_CON i = Some (if t = 110 then h_matching_connection else if t = 116 then h_matching_content_length else h_general, Suc i)"
  "match_field t ch h_general i = Some (h_general, i)"
  by (simp_all add: match_field_def name_bytes)

lemma class_other:
  assumes "\<not> prefix [99, 111, 110] name" and "hd name \<notin> {112, 116, 117}"
  shows "header_class name = h_general"
proof -
  have "prefix [99, 111, 110] (bytes_of ''connection'')" "prefix [99, 111, 110] (bytes_of ''content-length'')"
    "hd (bytes_of ''proxy-connection'') = 112" "hd (bytes_of ''transfer-encoding'') = 116" "hd (bytes_of ''upgrade'') = 117"
    by code_simp+
  with assms show ?thesis
    by (auto simp: header_class_def)
qed

lemma class_con:
  "header_class (99 # 111 # 110 # 110 # xs) = (if xs = drop (Suc (Suc (Suc (Suc 0)))) (bytes_of ''connection'') then h_connection else h_general)"
  "header_class (99 # 111 # 110 # 116 # xs) = (if xs = drop (Suc (Suc (Suc (Suc 0)))) (bytes_of ''content-length'') then h_content_length else h_general)"
  "d \<noteq> 110 \<Longrightarrow> d \<noteq> 116 \<Longrightarrow> header_class (99 # 111 # 110 # d # xs) = h_general"
  by (simp_all add: header_class_def name_bytes)

lemma con_run:
  assumes "is_name cs"
  shows "\<exists>h i'. field_loop cs p h_C 0 = Some (p + length cs, h, i') \<and> recognised h = header_class (99 # map TOKEN cs)"
proof (cases cs)
  case Nil
  then show ?thesis by (simp add: recognised_def class_other)
next
  case (Cons a cs1)
  note c1 = this
  show ?thesis
  proof (cases cs1)
    case Nil
    with assms c1 show ?thesis by (simp add: con_matchers recognised_def class_other)
  next
    case (Cons b cs2)
    note c2 = this
    show ?thesis
    proof (cases "TOKEN a = 111 \<and> TOKEN b = 110")
      case False
      with c1 c2 have "header_class (99 # map TOKEN cs) = h_general"
        by (intro class_other) auto
      moreover have "\<exists>i'. field_loop cs p h_C 0 = Some (p + length cs, h_general, i')"
        using False assms c1 c2 by (cases "TOKEN a = 111") (simp_all add: con_matchers general_run)
      ultimately show ?thesis
        by (auto simp: recognised_def)
    next
      case True
      show ?thesis
      proof (cases cs2)
        case Nil
        with assms c1 c2 True show ?thesis by (simp add: con_matchers recognised_def header_class_def name_bytes)
      next
        case (Cons d cs3)
        have name: "is_name cs3" and long: "Suc (Suc (Suc (Suc 0))) < length ''connection''" "Suc (Suc (Suc (Suc 0))) < length ''content-length''"
          using assms c1 c2 Cons by simp_all
        have step: "field_loop cs p h_C 0 = field_loop cs3 (Suc (Suc (Suc p)))
            (if TOKEN d = 110 then h_matching_connection else if TOKEN d = 116 then h_matching_content_length else h_general) (Suc (Suc (Suc 0)))"
          using assms c1 c2 Cons True by (simp add: con_matchers)
        have map: "99 # map TOKEN cs = 99 # 111 # 110 # TOKEN d # map TOKEN cs3" and len: "p + length cs = Suc (Suc (Suc p)) + length cs3"
          using c1 c2 Cons True by simp_all
        have recog: "recognised h_matching_connection = h_general" "recognised h_matching_content_length = h_general"
          "recognised h_connection = h_connection" "recognised h_content_length = h_content_length" "recognised h_general = h_general"
          by (simp_all add: recognised_def)
        consider "TOKEN d = 110" | "TOKEN d = 116" | "TOKEN d \<noteq> 110" "TOKEN d \<noteq> 116" by blast
        then show ?thesis
        proof cases
          case 1
          from match_run[OF name long(1) matchers(1,6), of "Suc (Suc (Suc p))"] show ?thesis
            unfolding step map len by (auto simp: 1 class_con recog split: if_splits)
        next
          case 2
          from match_run[OF name long(2) matchers(3,7), of "Suc (Suc (Suc p))"] show ?thesis
            unfolding step map len by (auto simp: 2 class_con recog split: if_splits)
        next
          case 3
          then show ?thesis
            unfolding step map len by (simp add: class_con recog general_run[OF name])
        qed
      qed
    qed
  qed
qed

lemma single_run:
  assumes "is_name cs" and hm: "\<And>t ch i. match_field t ch hm i = match_const X hm full h_general t i"
    and full: "\<And>t ch i. match_field t ch full i = Some (if ch \<noteq> byte_of CHR '' '' then h_general else full, i)"
    and X: "Suc 0 < length X" "bytes_of X = x # drop (Suc 0) (bytes_of X)" "recognised hm = h_general" "recognised full = full"
    and other: "\<And>xs. header_class (x # xs) = (if x # xs = bytes_of X then full else h_general)"
  shows "\<exists>h i'. field_loop cs p hm 0 = Some (p + length cs, h, i') \<and> recognised h = header_class (x # map TOKEN cs)"
proof -
  have general: "recognised h_general = h_general"
    by (simp add: recognised_def)
  have "x # map TOKEN cs = bytes_of X \<longleftrightarrow> map TOKEN cs = drop (Suc 0) (bytes_of X)"
    by (subst X(2)) simp
  with match_run[OF assms(1) X(1) hm full, of p] X(3,4) general show ?thesis
    unfolding other by (auto split: if_splits)
qed

lemma class_single:
  "header_class (112 # xs) = (if 112 # xs = bytes_of ''proxy-connection'' then h_connection else h_general)"
  "header_class (116 # xs) = (if 116 # xs = bytes_of ''transfer-encoding'' then h_transfer_encoding else h_general)"
  "header_class (117 # xs) = (if 117 # xs = bytes_of ''upgrade'' then h_upgrade else h_general)"
  by (simp_all add: header_class_def name_bytes)

lemma first_letters:
  "first_header_state t = (if t = 99 then h_C else if t = 112 then h_matching_proxy_connection
     else if t = 116 then h_matching_transfer_encoding else if t = 117 then h_matching_upgrade else h_general)"
  by (simp add: first_header_state_def name_bytes)

lemma tail_bytes:
  "bytes_of ''proxy-connection'' = 112 # drop (Suc 0) (bytes_of ''proxy-connection'')"
  "bytes_of ''transfer-encoding'' = 116 # drop (Suc 0) (bytes_of ''transfer-encoding'')"
  "bytes_of ''upgrade'' = 117 # drop (Suc 0) (bytes_of ''upgrade'')"
  by (simp_all add: name_bytes)

lemma name_run:
  assumes "is_name cs"
  shows "\<exists>h i'. field_loop cs p (first_header_state t) 0 = Some (p + length cs, h, i') \<and> recognised h = header_class (t # map TOKEN cs)"
proof -
  consider "t = 99" | "t = 112" | "t = 116" | "t = 117" | "t \<notin> {99, 112, 116, 117}" by blast
  then show ?thesis
  proof cases
    case 1
    with con_run[OF assms, of p] show ?thesis by (simp add: first_letters)
  next
    case 2
    with single_run[OF assms matchers(2,6) _ tail_bytes(1) _ _ class_single(1), of p] show ?thesis
      by (simp add: first_letters recognised_def)
  next
    case 3
    with single_run[OF assms matchers(4,8) _ tail_bytes(2) _ _ class_single(2), of p] show ?thesis
      by (simp add: first_letters recognised_def)
  next
    case 4
    with single_run[OF assms matchers(5,9) _ tail_bytes(3) _ _ class_single(3), of p] show ?thesis
      by (simp add: first_letters recognised_def)
  next
    case 5
    then have "header_class (t # map TOKEN cs) = h_general"
      by (intro class_other) auto
    with 5 general_run[OF assms, of p 0] show ?thesis
      by (simp add: first_letters recognised_def)
  qed
qed

text \<open>
  C17: Header names are recognised exactly. For a name of token characters the character-wise
  matcher of \<open>http_parser_execute\<close>, started by the first character, reads the name to its end and
  ends in the state of \<open>Connection\<close>, \<open>Content-Length\<close>, \<open>Transfer-Encoding\<close> or \<open>Upgrade\<close> if and only
  if the name is that constant (or \<open>Proxy-Connection\<close>) up to the case of letters.
\<close>

theorem header_names_recognised:
  assumes "is_name (ch # cs)"
  shows "\<exists>h i. field_loop cs p (first_header_state (TOKEN ch)) 0 = Some (p + length cs, h, i) \<and>
     recognised h = header_class (map TOKEN (ch # cs))"
  using name_run[of cs p "TOKEN ch"] assms by simp

lemma header_names_recognised_witness:
  "\<exists>h i. field_loop (bytes_of ''ontent-LENGTH'') 1 (first_header_state (TOKEN 67)) 0 = Some (1 + 13, h, i) \<and> recognised h = h_content_length"
proof -
  have "is_name (67 # bytes_of ''ontent-LENGTH'')" "length (bytes_of ''ontent-LENGTH'') = 13"
    "header_class (map TOKEN (67 # bytes_of ''ontent-LENGTH'')) = h_content_length"
    by code_simp+
  with header_names_recognised[of 67 "bytes_of ''ontent-LENGTH''" 1] show ?thesis
    by simp
qed

section \<open>Methods\<close>

text \<open>The state \<open>s_req_method\<close> over several characters.\<close>

fun method_steps :: "bytes \<Rightarrow> 'a exec \<Rightarrow> 'a exec option" where
  "method_steps [] c = Some c"
| "method_steps (ch # cs) c = (case at_req_method ch c of Next c' \<Rightarrow> method_steps cs c' | _ \<Rightarrow> None)"

lemma method_steps_append:
  "method_steps (xs @ ys) c = Option.bind (method_steps xs c) (method_steps ys)"
  by (induction xs arbitrary: c) (auto split: step.split)

definition method_next :: "u8 \<Rightarrow> http_method \<times> nat \<Rightarrow> (http_method \<times> nat) option" where
  "method_next ch = (\<lambda>(m, i).
     if ch = 0 \<or> ch = byte_of CHR '' '' then None
     else case const_at (method_strings m) i of None \<Rightarrow> None | Some e \<Rightarrow>
       if ch = e then Some (m, i + 1)
       else if IS_ALPHA ch then map_option (\<lambda>m'. (m', i + 1)) (other_method m i ch)
       else if ch = byte_of CHR ''-'' \<and> i = 1 \<and> m = HTTP_MKCOL then Some (HTTP_MSEARCH, i + 1)
       else None)"

lemma at_req_method_next:
  assumes n: "method_next ch (p_method c, index c) = Some (m, i)"
  shows "at_req_method ch c = Next (c\<lparr>p_method := m, index := i\<rparr>)"
proof -
  have ch: "ch \<noteq> 0" "ch \<noteq> byte_of CHR '' ''"
    using n by (simp_all add: method_next_def split: if_split_asm)
  obtain e where e: "const_at (method_strings (p_method c)) (index c) = Some e"
    using n ch by (cases "const_at (method_strings (p_method c)) (index c)") (simp_all add: method_next_def)
  consider "ch = e" | m' where "ch \<noteq> e" "IS_ALPHA ch" "other_method (p_method c) (index c) ch = Some m'"
    | "ch \<noteq> e" "\<not> IS_ALPHA ch" "ch = byte_of CHR ''-''" "index c = 1" "p_method c = HTTP_MKCOL"
    using n ch e by (cases "ch = e"; cases "IS_ALPHA ch"; simp add: method_next_def split: if_split_asm)
  then show ?thesis
  proof cases
    case 1
    with n ch e show ?thesis by (cases c) (simp add: method_next_def at_req_method_def)
  next
    case 2
    with n ch e show ?thesis by (simp add: method_next_def at_req_method_def)
  next
    case 3
    have "method_next ch (p_method c, index c) = Some (HTTP_MSEARCH, index c + 1)"
      unfolding method_next_def prod.case e option.case using 3 ch by (simp only: if_False if_True simp_thms)
    with n have m: "m = HTTP_MSEARCH" "i = index c + 1" by simp_all
    show ?thesis
      unfolding at_req_method_def e option.case m using 3 ch by (simp only: if_False if_True simp_thms)
  qed
qed

fun method_run :: "bytes \<Rightarrow> http_method \<times> nat \<Rightarrow> (http_method \<times> nat) option" where
  "method_run [] s = Some s"
| "method_run (ch # cs) s = Option.bind (method_next ch s) (method_run cs)"

lemma method_steps_run:
  "method_run cs (p_method c, index c) = Some (m, i) \<Longrightarrow> method_steps cs c = Some (c\<lparr>p_method := m, index := i\<rparr>)"
proof (induction cs arbitrary: c)
  case (Cons ch cs)
  then obtain m' i' where n: "method_next ch (p_method c, index c) = Some (m', i')" and "method_run cs (m', i') = Some (m, i)"
    by (cases "method_next ch (p_method c, index c)") auto
  with Cons.IH[of "c\<lparr>p_method := m', index := i'\<rparr>"] show ?case
    by (simp add: at_req_method_next[OF n])
qed simp

definition method_found :: "http_method \<Rightarrow> bool" where
  "method_found m \<longleftrightarrow> (case first_method (hd (bytes_of (method_strings m))) of None \<Rightarrow> False
     | Some m0 \<Rightarrow> method_run (tl (bytes_of (method_strings m))) (m0, 1) = Some (m, length (method_strings m)))"

lemma byte_of_letter:
  "byte_of CHR ''A'' = 65" "byte_of CHR ''B'' = 66" "byte_of CHR ''C'' = 67" "byte_of CHR ''D'' = 68" "byte_of CHR ''E'' = 69" "byte_of CHR ''F'' = 70"
  "byte_of CHR ''G'' = 71" "byte_of CHR ''H'' = 72" "byte_of CHR ''I'' = 73" "byte_of CHR ''J'' = 74" "byte_of CHR ''K'' = 75" "byte_of CHR ''L'' = 76"
  "byte_of CHR ''M'' = 77" "byte_of CHR ''N'' = 78" "byte_of CHR ''O'' = 79" "byte_of CHR ''P'' = 80" "byte_of CHR ''Q'' = 81" "byte_of CHR ''R'' = 82"
  "byte_of CHR ''S'' = 83" "byte_of CHR ''T'' = 84" "byte_of CHR ''U'' = 85" "byte_of CHR ''V'' = 86" "byte_of CHR ''W'' = 87" "byte_of CHR ''X'' = 88"
  "byte_of CHR ''Y'' = 89" "byte_of CHR ''Z'' = 90" "byte_of CHR ''-'' = 45" "byte_of CHR '' '' = 32"
  by (code_simp+)

lemma other_method_byte:
  "other_method m i ch = map_of (map (\<lambda>(m, i, b, m'). ((m, i, b), m'))
     [(HTTP_POST, 1, 85, HTTP_PUT), (HTTP_POST, 1, 65, HTTP_PATCH), (HTTP_CONNECT, 1, 72, HTTP_CHECKOUT),
      (HTTP_CONNECT, 2, 80, HTTP_COPY), (HTTP_MKCOL, 1, 79, HTTP_MOVE), (HTTP_MKCOL, 1, 69, HTTP_MERGE),
      (HTTP_MKCOL, 2, 65, HTTP_MKACTIVITY), (HTTP_MKCOL, 3, 65, HTTP_MKCALENDAR), (HTTP_SUBSCRIBE, 1, 69, HTTP_SEARCH),
      (HTTP_REPORT, 2, 66, HTTP_REBIND), (HTTP_POST, 1, 82, HTTP_PROPFIND), (HTTP_PROPFIND, 4, 80, HTTP_PROPPATCH),
      (HTTP_PUT, 2, 82, HTTP_PURGE), (HTTP_LOCK, 1, 73, HTTP_LINK), (HTTP_UNLOCK, 2, 83, HTTP_UNSUBSCRIBE),
      (HTTP_UNLOCK, 2, 66, HTTP_UNBIND), (HTTP_UNLOCK, 3, 73, HTTP_UNLINK)]) (m, i, ch)"
  by (simp only: other_method_def list.map prod.case byte_of_letter)

lemma letter_alpha:
  "IS_ALPHA 65" "IS_ALPHA 66" "IS_ALPHA 67" "IS_ALPHA 68" "IS_ALPHA 69" "IS_ALPHA 70" "IS_ALPHA 71" "IS_ALPHA 72" "IS_ALPHA 73" "IS_ALPHA 74"
  "IS_ALPHA 75" "IS_ALPHA 76" "IS_ALPHA 77" "IS_ALPHA 78" "IS_ALPHA 79" "IS_ALPHA 80" "IS_ALPHA 81" "IS_ALPHA 82" "IS_ALPHA 83" "IS_ALPHA 84"
  "IS_ALPHA 85" "IS_ALPHA 86" "IS_ALPHA 87" "IS_ALPHA 88" "IS_ALPHA 89" "IS_ALPHA 90"
  by (code_simp+)

lemma dash_not_alpha: "\<not> IS_ALPHA 45"
  by code_simp

lemma every_method_found: "method_found m"
  by (cases m)
    (simp_all add: method_found_def first_method_def method_next_def const_at_def bytes_of_def other_method_byte byte_of_letter letter_alpha dash_not_alpha)

lemma method_name_end:
  "\<lbrakk>p_method c = m; index c = length (method_strings m)\<rbrakk> \<Longrightarrow>
    at_req_method (byte_of CHR '' '') c = Next (c\<lparr>state := s_req_spaces_before_url, index := length (method_strings m) + 1\<rparr>)"
  by (simp add: at_req_method_def const_at_def) (simp add: byte_of_def)

text \<open>
  Printing and reading a method are inverse: the first letter of \<open>http_method_str m\<close> is known,
  and the rest of the name with the blank behind it leads the request line to the URL with the
  method \<open>m\<close>, for each of the 33 methods.
\<close>

theorem method_roundtrip:
  "\<exists>m0. first_method (hd (bytes_of (http_method_str m))) = Some m0 \<and>
     method_steps (tl (bytes_of (http_method_str m)) @ [byte_of CHR '' '']) (c\<lparr>p_method := m0, index := 1\<rparr>) =
       Some (c\<lparr>p_method := m, index := length (http_method_str m) + 1, state := s_req_spaces_before_url\<rparr>)"
proof -
  obtain m0 where "first_method (hd (bytes_of (method_strings m))) = Some m0"
      and "method_run (tl (bytes_of (method_strings m))) (m0, 1) = Some (m, length (method_strings m))"
    using every_method_found[of m] by (auto simp: method_found_def split: option.splits)
  with method_steps_run[of "tl (bytes_of (method_strings m))" "c\<lparr>p_method := m0, index := 1\<rparr>"] show ?thesis
    by (simp add: http_method_str_def method_steps_append method_name_end)
qed

end
