(* ===== verification/Http_Lines.thy ===== *)
theory Http_Lines
  imports Http_App Http_Names
begin

text \<open>
  How the states of \<open>http_parser_execute\<close> read well-formed header lines with the callbacks of
  \<open>Http.cc\<close>: steps of the main loop as equations between its states, characters that are read
  one by one (\<open>walk\<close>), and whole header lines, of requests as of responses. The count \<open>nread\<close>
  stays below \<open>HTTP_MAX_HEADER_SIZE\<close> as long as there is \<open>room\<close>.
\<close>

section \<open>Steps of the main loop\<close>

lemma count_fits:
  assumes "unat (nread c) + v \<le> HTTP_MAX_HEADER_SIZE"
  shows "COUNT_HEADER_SIZE v c k = k (c\<lparr>nread := nread c + of_nat v\<rparr>)" and "unat (nread c + of_nat v) = unat (nread c) + v"
proof -
  have max: "HTTP_MAX_HEADER_SIZE < 2 ^ 32"
    by (simp add: HTTP_MAX_HEADER_SIZE_def)
  then have v: "unat (of_nat v :: u32) = v"
    using assms max by (simp add: unat_of_nat take_bit_nat_eq_self)
  then show sum: "unat (nread c + of_nat v) = unat (nread c) + v"
    using assms max by (subst unat_add_lem[THEN iffD1]) simp_all
  have "unat (of_nat HTTP_MAX_HEADER_SIZE :: u32) = HTTP_MAX_HEADER_SIZE"
    using max by (simp add: unat_of_nat take_bit_nat_eq_self)
  with sum assms show "COUNT_HEADER_SIZE v c k = k (c\<lparr>nread := nread c + of_nat v\<rparr>)"
    by (simp add: COUNT_HEADER_SIZE_def Let_def word_less_nat_alt)
qed

lemma count_turn:
  assumes "pos c < length data" and "PARSING_HEADER (state c)" and "unat (nread c) < HTTP_MAX_HEADER_SIZE"
  shows "exec_loop S data False c = exec_loop S data True (c\<lparr>nread := nread c + 1\<rparr>)"
proof -
  have "exec_turn S data False c = exec_turn S data True (c\<lparr>nread := nread c + 1\<rparr>)"
    using assms count_fits(1)[of c 1] by (simp add: exec_turn_def)
  with assms(1) show ?thesis
    by (subst (1 2) exec_loop.simps) (simp split: step.split)
qed

lemma next_turn:
  assumes "drop (pos c) data = ch # rest" and "exec_state S data ch c = Next c'"
  shows "exec_loop S data True c = exec_loop S data False (c'\<lparr>pos := pos c' + 1\<rparr>)"
proof -
  have "pos c < length data"
    by (rule ccontr) (use assms(1) in simp)
  moreover have "data ! pos c = ch"
    using assms(1) calculation by (simp add: Cons_nth_drop_Suc[symmetric])
  ultimately show ?thesis
    using assms(2) by (subst exec_loop.simps) (simp add: exec_turn_def)
qed

lemma again_turn:
  assumes "drop (pos c) data = ch # rest" and "exec_state S data ch c = Again c'"
  shows "exec_loop S data True c = exec_loop S data True c'"
proof -
  have "pos c < length data"
    by (rule ccontr) (use assms(1) in simp)
  moreover have "data ! pos c = ch"
    using assms(1) calculation by (simp add: Cons_nth_drop_Suc[symmetric])
  ultimately show ?thesis
    using assms(2) by (subst exec_loop.simps) (simp add: exec_turn_def)
qed

text \<open>Characters that the states read one by one, without a jump of the position.\<close>

fun walk :: "'a http_parser_settings \<Rightarrow> bytes \<Rightarrow> bytes \<Rightarrow> 'a exec \<Rightarrow> 'a exec option" where
  "walk S data [] c = Some c"
| "walk S data (ch # cs) c =
     (if \<not> PARSING_HEADER (state c) then None
      else case exec_state S data ch (c\<lparr>nread := nread c + 1\<rparr>) of
        Next c' \<Rightarrow> if pos c' = pos c \<and> nread c' = nread c + 1 then walk S data cs (c'\<lparr>pos := pos c + 1\<rparr>) else None
      | _ \<Rightarrow> None)"

lemma walk_append: "walk S data (xs @ ys) c = Option.bind (walk S data xs c) (walk S data ys)"
  by (induction xs arbitrary: c) (auto split: step.split)

definition room :: "nat \<Rightarrow> 'a exec \<Rightarrow> bool" where
  "room n c \<longleftrightarrow> unat (nread c) + n \<le> HTTP_MAX_HEADER_SIZE"

lemma room_step: "room (Suc n) c \<Longrightarrow> unat (nread c) < HTTP_MAX_HEADER_SIZE \<and> unat (nread c + 1) = unat (nread c) + 1"
  using count_fits(2)[of c 1] by (simp add: room_def)

lemma walk_run:
  assumes "walk S data cs c = Some c'" and "drop (pos c) data = cs @ rest" and "room (length cs + n) c"
  shows "exec_loop S data False c = exec_loop S data False c' \<and> drop (pos c') data = rest \<and> pos c' = pos c + length cs \<and> room n c'"
  using assms
proof (induction cs arbitrary: c)
  case (Cons ch cs)
  let ?c = "c\<lparr>nread := nread c + 1\<rparr>"
  obtain d where d: "exec_state S data ch ?c = Next d" "pos d = pos c" "nread d = nread c + 1"
      and s: "PARSING_HEADER (state c)" and w: "walk S data cs (d\<lparr>pos := pos c + 1\<rparr>) = Some c'"
    using Cons.prems(1) by (auto split: if_splits step.splits)
  have p: "pos c < length data"
    by (rule ccontr) (use Cons.prems(2) in simp)
  have r: "unat (nread c) < HTTP_MAX_HEADER_SIZE" "unat (nread c + 1) = unat (nread c) + 1"
    using room_step[of "length cs + n" c] Cons.prems(3) by simp_all
  have "drop (pos (d\<lparr>pos := pos c + 1\<rparr>)) data = cs @ rest"
    using Cons.prems(2) p by (simp add: Cons_nth_drop_Suc[symmetric])
  moreover have "room (length cs + n) (d\<lparr>pos := pos c + 1\<rparr>)"
    using r Cons.prems(3) by (simp add: room_def d(3))
  ultimately have ih: "exec_loop S data False (d\<lparr>pos := pos c + 1\<rparr>) = exec_loop S data False c' \<and> drop (pos c') data = rest \<and>
      pos c' = pos (d\<lparr>pos := pos c + 1\<rparr>) + length cs \<and> room n c'"
    by (rule Cons.IH[OF w])
  have "exec_loop S data False c = exec_loop S data False (d\<lparr>pos := pos c + 1\<rparr>)"
    using count_turn[OF p s r(1), of S] next_turn[of ?c data ch "cs @ rest" S d] Cons.prems(2) d by simp
  then show ?case
    using ih by (intro conjI) (simp, blast, simp, blast)
qed simp

definition after_chars :: "nat \<Rightarrow> 'a exec \<Rightarrow> 'a exec" where
  "after_chars n c = c\<lparr>nread := nread c + of_nat n, pos := pos c + n\<rparr>"

definition line_at :: "http_parser_type \<Rightarrow> state \<Rightarrow> http_app \<Rightarrow> http_app exec \<Rightarrow> bool" where
  "line_at t s a c \<longleftrightarrow> state c = s \<and> app c = a \<and> p_type c = t \<and> http_errno c = HPE_OK \<and> marks c = (\<lambda>_. None) \<and>
     flags c = 0 \<and> content_length c = ULLONG_MAX"

lemma version_bytes:
  "bytes_of ''HTTP/1.1'' = [72, 84, 84, 80, 47, 49, 46, 49]" "byte_of CHR ''H'' = 72" "byte_of CHR ''T'' = 84" "byte_of CHR ''P'' = 80"
  "byte_of CHR ''/'' = 47" "byte_of CHR ''1'' = 49" "byte_of CHR ''.'' = 46" "byte_of CHR ''9'' = 57" "byte_of CHR '' '' = 32"
  "byte_of CHR ''0'' = 48" "IS_NUM 49" "digit 49 = 1" "byte_of CHR '':'' = 58" "TOKEN 58 = 0" "TOKEN 32 = 0" "TOKEN 9 = 0" "TOKEN 13 = 0" "TOKEN 10 = 0"
  by code_simp+

section \<open>Header lines\<close>

definition valid_header :: "bytes \<times> bytes \<Rightarrow> bool" where
  "valid_header = (\<lambda>(name, value). name \<noteq> [] \<and> is_name name \<and> header_class (map TOKEN name) = h_general \<and>
     value \<noteq> [] \<and> hd value \<noteq> byte_of CHR '' '' \<and> hd value \<noteq> 9 \<and> list_all (\<lambda>ch. IS_HEADER_CHAR ch \<and> ch \<noteq> CR \<and> ch \<noteq> LF) value)"

definition header_line :: "bytes \<times> bytes \<Rightarrow> bytes" where
  "header_line = (\<lambda>(name, value). name @ [byte_of CHR '':'', byte_of CHR '' ''] @ value @ [CR, LF])"

definition field_read :: "http_parser_type \<Rightarrow> bytes \<Rightarrow> http_app \<Rightarrow> http_app" where
  "field_read t name = (if t = HTTP_REQUEST
     then on_request (\<lambda>r. r\<lparr>hq_currentHeaderField := map tolower name, hq_bytes := hq_bytes r + int (length name)\<rparr>)
     else on_response (\<lambda>r. r\<lparr>hs_currentHeaderField := map tolower name, hs_bytes := hs_bytes r + int (length name)\<rparr>))"

definition value_read :: "http_parser_type \<Rightarrow> bytes \<Rightarrow> http_app \<Rightarrow> http_app" where
  "value_read t v = (if t = HTTP_REQUEST
     then on_request (\<lambda>r. r\<lparr>hq_headers := (hq_headers r)(hq_currentHeaderField r \<mapsto> v), hq_bytes := hq_bytes r + int (length v)\<rparr>)
     else on_response (\<lambda>r. r\<lparr>hs_headers := (hs_headers r)(hs_currentHeaderField r \<mapsto> v), hs_bytes := hs_bytes r + int (length v)\<rparr>))"

definition header_read :: "http_parser_type \<Rightarrow> bytes \<times> bytes \<Rightarrow> http_app \<Rightarrow> http_app" where
  "header_read t = (\<lambda>(name, value) a. value_read t value (field_read t name a))"

lemma field_callback:
  assumes "p_type c = t" and "t \<noteq> HTTP_BOTH" and "http_errno c = HPE_OK" and "marks c Header_field = Some p" and "p \<le> pos c" and "pos c \<le> length data"
    and "take (pos c - p) (drop p data) = n"
  shows "CALLBACK_DATA settings data Header_field c k = k (c\<lparr>app := field_read t n (app c), marks := (marks c)(Header_field := None)\<rparr>)"
  using assms
  by (cases t) (simp_all add: callback_defs callback_data_def settings_def onHeaderFiled_def HttpParser.truncate_def field_read_def)

lemma value_callback:
  assumes "p_type c = t" and "t \<noteq> HTTP_BOTH" and "http_errno c = HPE_OK" and "marks c Header_value = Some p" and "p \<le> pos c" and "pos c \<le> length data"
    and "take (pos c - p) (drop p data) = v" and "app c = field_read t n a" and "n \<noteq> []"
  shows "CALLBACK_DATA settings data Header_value c k = k (c\<lparr>app := header_read t (n, v) a, marks := (marks c)(Header_value := None)\<rparr>)"
  using assms
  by (cases t) (simp_all add: callback_defs callback_data_def settings_def onHeaderValue_def HttpParser.truncate_def field_read_def header_read_def
      value_read_def on_request_def on_response_def Let_def)

definition same_start :: "'a exec \<Rightarrow> 'a exec \<Rightarrow> bool" where
  "same_start c c' \<longleftrightarrow> p_method c' = p_method c \<and> http_major c' = http_major c \<and> http_minor c' = http_minor c \<and> status_code c' = status_code c"

definition at_line :: "http_parser_type \<Rightarrow> http_app \<Rightarrow> http_app exec \<Rightarrow> bool" where
  "at_line t a c \<longleftrightarrow> line_at t s_header_field_start a c \<or> line_at t s_header_value_lws a c \<and> header_state c = h_general"

lemma line_start:
  assumes "at_line t a c" and "drop (pos c) data = ch # rest" and "ch \<noteq> byte_of CHR '' ''" and "ch \<noteq> 9" and "unat (nread c) < HTTP_MAX_HEADER_SIZE"
  shows "\<exists>c'. exec_loop S data False c = exec_loop S data True c' \<and> line_at t s_header_field_start a c' \<and> pos c' = pos c \<and>
    nread c' = nread c + 1 \<and> same_start c c'"
proof -
  let ?c = "c\<lparr>nread := nread c + 1\<rparr>"
  have p: "pos c < length data"
    by (rule ccontr) (use assms(2) in simp)
  have "exec_loop S data False c = exec_loop S data True ?c"
    using assms(1,5) p by (intro count_turn) (auto simp: at_line_def line_at_def PARSING_HEADER_def)
  moreover have "line_at t s_header_field_start a ?c \<or> exec_state S data ch ?c = Again (?c\<lparr>state := s_header_field_start\<rparr>) \<and> line_at t s_header_value_lws a ?c"
    using assms(1,3,4)
    by (auto simp: at_line_def line_at_def exec_state_def at_header_value_lws_def finish_header_def token_flag_def)
  moreover have "exec_state S data ch ?c = Again (?c\<lparr>state := s_header_field_start\<rparr>) \<Longrightarrow>
      exec_loop S data True ?c = exec_loop S data True (?c\<lparr>state := s_header_field_start\<rparr>)"
    using again_turn[of ?c data ch rest S] assms(2) by simp
  ultimately show ?thesis
    by (elim disjE conjE) (rule exI[of _ ?c], simp add: same_start_def,
        rule exI[of _ "?c\<lparr>state := s_header_field_start\<rparr>"], simp add: line_at_def same_start_def)
qed

lemma field_loop_stop: "is_name cs \<Longrightarrow> TOKEN ch = 0 \<Longrightarrow> field_loop (cs @ ch # rest) p h i = field_loop cs p h i"
  by (induction cs arbitrary: p h i) (auto split: option.split)

lemma first_field_state: "field_state (first_header_state x) \<and> 0 \<le> index_bound (first_header_state x)"
  by (simp add: first_header_state_def field_state_def)

lemma general_field:
  assumes "is_name cs" and "header_class (t # map TOKEN cs) = h_general"
  shows "\<exists>h i. field_loop cs p (first_header_state t) 0 = Some (p + length cs, h, i) \<and> field_state h \<and> recognised h = h_general"
proof -
  obtain h i where "field_loop cs p (first_header_state t) 0 = Some (p + length cs, h, i)" "recognised h = h_general"
    using name_run[OF assms(1), of p t] assms(2) by auto
  with field_loop_ok[of "first_header_state t" 0 cs p] first_field_state[of t] show ?thesis
    by auto
qed

lemma line_end_CR:
  assumes "drop p data = us @ CR # rest" and "length us < HTTP_MAX_HEADER_SIZE" and "list_all (\<lambda>ch. ch \<noteq> CR \<and> ch \<noteq> LF) us"
  shows "line_end data p = p + length us"
proof -
  let ?r = "take (min (length data - p) HTTP_MAX_HEADER_SIZE) (drop p data)"
  have "length data - p = length us + 1 + length rest"
    using arg_cong[OF assms(1), of length] by simp
  then obtain ys where r: "?r = us @ CR # ys"
    using assms(1,2) by (cases "min (length data - p) HTTP_MAX_HEADER_SIZE - length us") auto
  have "takeWhile (\<lambda>ch. ch \<noteq> CR \<and> ch \<noteq> LF) (us @ CR # ys) = us"
    using assms(3) by (induction us) simp_all
  with r show ?thesis
    by (simp add: line_end_def Let_def)
qed

lemma general_value_start:
  assumes "field_state h" and "recognised h = h_general" and "header_state c = h" and "marks c Header_value = None"
  shows "at_header_value_start ch c = Next (c\<lparr>marks := (marks c)(Header_value := Some (pos c)), state := s_header_value, index := 0, header_state := h_general\<rparr>)"
  using assms by (cases h) (simp_all add: at_header_value_start_def MARK_def field_state_def recognised_def)

text \<open>The loop over the rest \<open>vs\<close> of a value, entered behind its first character.\<close>

lemma value_loop_skip:
  assumes vs: "drop (pos c) data = vs @ CR # rest" and "list_all (\<lambda>ch. IS_HEADER_CHAR ch \<and> ch \<noteq> CR \<and> ch \<noteq> LF) vs"
    and small: "length vs < HTTP_MAX_HEADER_SIZE"
  shows "value_loop S data start h_general c = CALLBACK_DATA S data Header_value
    (c\<lparr>pos := pos c + length vs, state := s_header_almost_done, header_state := h_general\<rparr>) (value_end data start h_general)"
proof -
  have long: "length data = pos c + length vs + 1 + length rest"
    using arg_cong[OF vs, of length] by simp
  have nth: "data ! pos c = (vs @ CR # rest) ! 0" and nth2: "data ! (pos c + length vs) = CR"
    using arg_cong[OF vs, of "\<lambda>xs. xs ! 0"] arg_cong[OF vs, of "\<lambda>xs. xs ! length vs"] long by simp_all
  let ?d = "c\<lparr>pos := pos c + length vs\<rparr>"
  have fin: "value_loop S data start h_general ?d = CALLBACK_DATA S data Header_value
      (?d\<lparr>state := s_header_almost_done, header_state := h_general\<rparr>) (value_end data start h_general)"
    using long nth2 by (subst value_loop.simps) (simp add: Let_def)
  show ?thesis
  proof (cases vs)
    case Nil
    with fin show ?thesis by simp
  next
    case (Cons ch us)
    have "line_end data (pos c) = pos c + length vs"
      using vs small assms(2) by (intro line_end_CR) (auto simp: list_all_iff)
    then have "value_loop S data start h_general c = value_loop S data start h_general ?d"
      using long nth Cons assms(2) by (subst value_loop.simps) (simp add: match_value_def)
    with fin show ?thesis by simp
  qed
qed

lemma value_loop_read:
  assumes vs: "drop (pos c) data = vs @ CR # rest" "list_all (\<lambda>ch. IS_HEADER_CHAR ch \<and> ch \<noteq> CR \<and> ch \<noteq> LF) vs"
    and c: "p_type c = t" "t \<noteq> HTTP_BOTH" "http_errno c = HPE_OK" "marks c = (\<lambda>_. None)(Header_value := Some p)" "p \<le> pos c"
      "take (pos c + length vs - p) (drop p data) = v" "app c = field_read t n a" "n \<noteq> []" and room: "room (length vs) c"
      and small: "length vs < HTTP_MAX_HEADER_SIZE"
  shows "value_loop settings data (pos c) h_general c = Next (c\<lparr>pos := pos c + length vs, nread := nread c + of_nat (length vs),
    state := s_header_almost_done, header_state := h_general, app := header_read t (n, v) a, marks := \<lambda>_. None\<rparr>)"
proof -
  have long: "length data = pos c + length vs + 1 + length rest"
    using arg_cong[OF vs(1), of length] by simp
  have "value_loop settings data (pos c) h_general c = value_end data (pos c) h_general
      (c\<lparr>pos := pos c + length vs, state := s_header_almost_done, header_state := h_general, app := header_read t (n, v) a, marks := \<lambda>_. None\<rparr>)"
    using long c by (subst value_loop_skip[OF vs small]) (simp add: value_callback[where p = p and t = t and v = v and n = n and a = a])
  also have "\<dots> = Next (c\<lparr>pos := pos c + length vs, nread := nread c + of_nat (length vs),
      state := s_header_almost_done, header_state := h_general, app := header_read t (n, v) a, marks := \<lambda>_. None\<rparr>)"
    using room long by (simp add: value_end_def count_fits room_def)
  finally show ?thesis .
qed

lemma drop_more: "drop p data = xs @ ys \<Longrightarrow> drop (p + length xs) data = ys"
  by (metis add.commute append_eq_conv_conj drop_drop)

lemma nth_input: "drop p data = xs @ ch # ys \<Longrightarrow> p + length xs < length data \<and> data ! (p + length xs) = ch"
proof -
  assume "drop p data = xs @ ch # ys"
  then have d: "drop (p + length xs) data = ch # ys"
    by (rule drop_more)
  then have "p + length xs < length data"
    by (metis drop_all leI list.distinct(1))
  with d show ?thesis
    by (metis Cons_nth_drop_Suc list.inject)
qed

lemma field_part:
  assumes c: "line_at t s_header_field_start a c" "t \<noteq> HTTP_BOTH" and input: "drop (pos c) data = name @ byte_of CHR '':'' # rest"
    and name: "name \<noteq> []" "is_name name" "header_class (map TOKEN name) = h_general" and room: "room (length name + k) c"
  shows "\<exists>c'. exec_loop settings data True c = exec_loop settings data False c' \<and> drop (pos c') data = rest \<and> room k c' \<and>
    line_at t s_header_value_discard_ws (field_read t name a) c' \<and> field_state (header_state c') \<and> recognised (header_state c') = h_general \<and> same_start c c'"
proof -
  obtain n0 ns where n: "name = n0 # ns"
    using name(1) by (cases name) auto
  with name have t0: "TOKEN n0 \<noteq> 0" and ns: "is_name ns" and cls: "header_class (TOKEN n0 # map TOKEN ns) = h_general"
    by simp_all
  then have n0: "n0 \<noteq> CR" "n0 \<noteq> LF"
    using version_bytes by (auto simp: CR_def LF_def)
  let ?p = "pos c + 1"
  let ?d = "c\<lparr>marks := (\<lambda>_. None)(Header_field := Some (pos c)), index := 0, state := s_header_field, header_state := first_header_state (TOKEN n0), pos := ?p\<rparr>"
  let ?e = "?d\<lparr>nread := nread c + 1\<rparr>"
  have "exec_state settings data n0 c = Next (?d\<lparr>pos := pos c\<rparr>)"
    using c t0 n0 by (simp add: line_at_def exec_state_def at_header_field_start_def MARK_def Let_def)
  then have 1: "exec_loop settings data True c = exec_loop settings data False ?d"
    using next_turn[of c data n0 "ns @ byte_of CHR '':'' # rest" settings "?d\<lparr>pos := pos c\<rparr>"] input n by simp
  have in1: "drop ?p data = ns @ byte_of CHR '':'' # rest"
    using drop_more[of "pos c" data "[n0]"] input n by simp
  have r: "unat (nread c) < HTTP_MAX_HEADER_SIZE" "unat (nread c + 1) = unat (nread c) + 1" "room (length ns + k) ?e"
    using room room_step[of "length ns + k" c] n by (auto simp: room_def)
  have 2: "exec_loop settings data False ?d = exec_loop settings data True ?e"
    using r(1) nth_input[OF in1] by (subst count_turn) (auto simp: PARSING_HEADER_def)
  obtain h i where l: "field_loop ns ?p (first_header_state (TOKEN n0)) 0 = Some (?p + length ns, h, i)" and h: "field_state h" "recognised h = h_general"
    using general_field[OF ns cls, of ?p] by blast
  let ?f = "?e\<lparr>pos := ?p + length ns, header_state := h, index := i, nread := nread ?e + of_nat (length ns), state := s_header_value_discard_ws,
      app := field_read t name a, marks := \<lambda>_. None\<rparr>"
  have "field_loop (drop ?p data) ?p (first_header_state (TOKEN n0)) 0 = Some (?p + length ns, h, i)"
    unfolding in1 using l field_loop_stop[OF ns version_bytes(14)] version_bytes(13) by simp
  then have "at_header_field settings data ?e = COUNT_HEADER_SIZE (length ns) (?e\<lparr>pos := ?p + length ns, header_state := h, index := i\<rparr>) (\<lambda>c.
      CALLBACK_DATA settings data Header_field (c\<lparr>state := s_header_value_discard_ws\<rparr>) Next)"
    using nth_input[OF in1] by (simp add: at_header_field_def COUNT_HEADER_SIZE_def Let_def)
  also have "\<dots> = Next ?f"
    using c r(3) nth_input[OF in1] input n
    by (subst count_fits) (simp_all add: room_def line_at_def field_callback[where p = "pos c" and t = t and n = name])
  finally have "exec_state settings data (hd (ns @ [byte_of CHR '':''])) ?e = Next ?f"
    by (simp add: exec_state_def)
  moreover have "drop (pos ?e) data = hd (ns @ [byte_of CHR '':'']) # tl (ns @ byte_of CHR '':'' # rest)"
    using in1 by (cases ns) simp_all
  ultimately have "exec_loop settings data True ?e = exec_loop settings data False (?f\<lparr>pos := pos ?f + 1\<rparr>)"
    by (rule next_turn[rotated])
  moreover have "drop (pos (?f\<lparr>pos := pos ?f + 1\<rparr>)) data = rest"
    using drop_more[of ?p data "ns @ [byte_of CHR '':'']" rest] in1 by (simp add: algebra_simps)
  moreover have "room k (?f\<lparr>pos := pos ?f + 1\<rparr>)"
    using r(3) count_fits(2)[of ?e "length ns"] by (simp add: room_def)
  ultimately show ?thesis
    using 1 2 c h by (intro exI[of _ "?f\<lparr>pos := pos ?f + 1\<rparr>"]) (simp add: line_at_def same_start_def)
qed

text \<open>The blank and the first character of a value.\<close>

definition value_entered :: "'a exec \<Rightarrow> 'a exec" where
  "value_entered c = c\<lparr>marks := (\<lambda>_. None)(Header_value := Some (pos c + 1)), nread := nread c + 1 + 1 + 1, state := s_header_value, index := 0,
     header_state := h_general, pos := pos c + 1 + 1\<rparr>"

lemma value_enter:
  assumes c: "state c = s_header_value_discard_ws" "marks c = (\<lambda>_. None)"
    and h: "field_state (header_state c)" "recognised (header_state c) = h_general"
    and input: "drop (pos c) data = byte_of CHR '' '' # ch # vs @ CR # rest"
    and v: "ch \<noteq> byte_of CHR '' ''" "ch \<noteq> 9" "ch \<noteq> CR" "ch \<noteq> LF" and room: "room (length vs + 3 + k) c"
  shows "exec_loop S data False c = exec_loop S data True (value_entered c)" and "drop (pos (value_entered c)) data = vs @ CR # rest"
    and "room (length vs + k) (value_entered c)"
proof -
  let ?b = "c\<lparr>nread := nread c + 1, pos := pos c + 1\<rparr>"
  let ?d = "c\<lparr>marks := (\<lambda>_. None)(Header_value := Some (pos c + 1)), nread := nread c + 1 + 1, state := s_header_value, index := 0, header_state := h_general, pos := pos c + 1 + 1\<rparr>"
  have "exec_state S data ch (?b\<lparr>nread := nread ?b + 1\<rparr>) = Next (?d\<lparr>pos := pos c + 1\<rparr>)"
    using c v general_value_start[OF h, of "?b\<lparr>nread := nread ?b + 1\<rparr>" ch]
    by (simp add: exec_state_def at_header_value_discard_ws_def)
  then have w: "walk S data [byte_of CHR '' '', ch] c = Some ?d"
    using c by (simp add: PARSING_HEADER_def exec_state_def[of _ _ "byte_of CHR '' ''"] at_header_value_discard_ws_def)
  have "room (length [byte_of CHR '' '', ch] + (length vs + 1 + k)) c"
    using room by (simp add: room_def)
  from walk_run[OF w _ this, of "vs @ CR # rest"] input
  have 1: "exec_loop S data False c = exec_loop S data False ?d" and in1: "drop (pos ?d) data = vs @ CR # rest" and r1: "room (length vs + 1 + k) ?d"
    by simp_all
  have r: "unat (nread ?d) < HTTP_MAX_HEADER_SIZE" "room (length vs + k) (?d\<lparr>nread := nread ?d + 1\<rparr>)"
    using r1 room_step[of "length vs + k" ?d] by (auto simp: room_def)
  have "exec_loop S data False ?d = exec_loop S data True (?d\<lparr>nread := nread ?d + 1\<rparr>)"
    using r(1) nth_input[OF in1] by (intro count_turn) (auto simp: PARSING_HEADER_def)
  moreover have e: "?d\<lparr>nread := nread ?d + 1\<rparr> = value_entered c"
    by (simp add: value_entered_def)
  ultimately show "exec_loop S data False c = exec_loop S data True (value_entered c)"
    using 1 by simp
  show "drop (pos (value_entered c)) data = vs @ CR # rest" "room (length vs + k) (value_entered c)"
    using in1 r(2) unfolding e by (simp_all add: value_entered_def)
qed

lemma value_part:
  assumes c: "line_at t s_header_value_discard_ws (field_read t n a) c" "t \<noteq> HTTP_BOTH" "n \<noteq> []"
    and h: "field_state (header_state c)" "recognised (header_state c) = h_general"
    and input: "drop (pos c) data = byte_of CHR '' '' # v @ CR # LF # rest"
    and v: "v \<noteq> []" "hd v \<noteq> byte_of CHR '' ''" "hd v \<noteq> 9" "list_all (\<lambda>ch. IS_HEADER_CHAR ch \<and> ch \<noteq> CR \<and> ch \<noteq> LF) v"
    and room: "room (length v + 3 + k) c"
  shows "\<exists>c'. exec_loop settings data False c = exec_loop settings data False c' \<and> drop (pos c') data = rest \<and> room k c' \<and>
    line_at t s_header_value_lws (header_read t (n, v) a) c' \<and> header_state c' = h_general \<and> same_start c c'"
proof -
  obtain v0 vs where v0: "v = v0 # vs"
    using v(1) by (cases v) auto
  let ?e = "value_entered c"
  have "room (length vs + 3 + (1 + k)) c"
    using room v0 by (simp add: room_def)
  then have enter: "exec_loop settings data False c = exec_loop settings data True ?e" and in1: "drop (pos ?e) data = vs @ CR # LF # rest"
      and r: "room (length vs + (1 + k)) ?e"
    using value_enter[where c = c and data = data and ch = v0 and vs = vs and rest = "LF # rest" and k = "1 + k"] c(1) h input v v0 by (simp_all add: line_at_def)
  have small: "room (length vs) ?e" "length vs < HTTP_MAX_HEADER_SIZE"
    using r by (simp_all add: room_def)
  let ?f = "?e\<lparr>pos := pos ?e + length vs, nread := nread ?e + of_nat (length vs), state := s_header_almost_done, header_state := h_general,
      app := header_read t (n, v) a, marks := \<lambda>_. None\<rparr>"
  have "drop (pos c + 1) data = v @ CR # LF # rest"
    using drop_more[of "pos c" data "[byte_of CHR '' '']" "v @ CR # LF # rest"] input by simp
  then have "value_loop settings data (pos ?e) h_general ?e = Next ?f"
    using c v0 v(4) in1 small by (intro value_loop_read[where p = "pos c + 1" and v = v and t = t and n = n and rest = "LF # rest"])
      (simp_all add: line_at_def value_entered_def)
  then have "exec_state settings data (hd (vs @ [CR])) ?e = Next ?f"
    by (simp add: exec_state_def at_header_value_def value_entered_def)
  moreover have "drop (pos ?e) data = hd (vs @ [CR]) # tl (vs @ CR # LF # rest)"
    using in1 by (cases vs) simp_all
  ultimately have 3: "exec_loop settings data True ?e = exec_loop settings data False (?f\<lparr>pos := pos ?f + 1\<rparr>)"
    by (rule next_turn[rotated])
  let ?g = "?f\<lparr>pos := pos ?f + 1\<rparr>"
  have in2: "drop (pos ?g) data = [LF] @ rest"
    using drop_more[of "pos ?e" data "vs @ [CR]" "LF # rest"] in1 by (simp add: algebra_simps)
  have r2: "room (length [LF] + k) ?g"
    using r count_fits(2)[of ?e "length vs"] by (simp add: room_def)
  have "walk settings data [LF] ?g = Some (after_chars 1 (?g\<lparr>state := s_header_value_lws\<rparr>))"
    by (simp add: PARSING_HEADER_def exec_state_def expect_LF_def after_chars_def)
  from walk_run[OF this in2 r2] have "exec_loop settings data False ?g = exec_loop settings data False (after_chars 1 (?g\<lparr>state := s_header_value_lws\<rparr>))"
      "drop (pos (after_chars 1 (?g\<lparr>state := s_header_value_lws\<rparr>))) data = rest" "room k (after_chars 1 (?g\<lparr>state := s_header_value_lws\<rparr>))"
    by blast+
  with enter 3 c(1) show ?thesis
    by (intro exI[of _ "after_chars 1 (?g\<lparr>state := s_header_value_lws\<rparr>)"]) (simp add: line_at_def same_start_def after_chars_def value_entered_def)
qed

lemma header_line_read:
  assumes c: "at_line t a c" "t \<noteq> HTTP_BOTH" and "valid_header nv" and input: "drop (pos c) data = header_line nv @ rest"
    and room: "room (length (header_line nv) + k) c"
  shows "\<exists>c'. exec_loop settings data False c = exec_loop settings data False c' \<and> drop (pos c') data = rest \<and> room k c' \<and>
    at_line t (header_read t nv a) c' \<and> same_start c c'"
proof -
  obtain name v where nv: "nv = (name, v)" by (cases nv)
  then have name: "name \<noteq> []" "is_name name" "header_class (map TOKEN name) = h_general"
      and v: "v \<noteq> []" "hd v \<noteq> byte_of CHR '' ''" "hd v \<noteq> 9" "list_all (\<lambda>ch. IS_HEADER_CHAR ch \<and> ch \<noteq> CR \<and> ch \<noteq> LF) v"
    using assms(3) by (simp_all add: valid_header_def)
  have in0: "drop (pos c) data = name @ byte_of CHR '':'' # byte_of CHR '' '' # v @ CR # LF # rest"
    using input nv by (simp add: header_line_def)
  have r: "room (Suc (length name + (length v + 3 + k))) c"
    using room nv by (simp add: room_def header_line_def)
  have "TOKEN (hd name) \<noteq> 0"
    using name(1,2) by (cases name) simp_all
  then have "hd name \<noteq> byte_of CHR '' ''" "hd name \<noteq> 9"
    using version_bytes by auto
  moreover have "drop (pos c) data = hd name # tl name @ byte_of CHR '':'' # byte_of CHR '' '' # v @ CR # LF # rest"
    using in0 name(1) by (cases name) simp_all
  ultimately obtain c1 where c1: "exec_loop settings data False c = exec_loop settings data True c1" "line_at t s_header_field_start a c1"
      "pos c1 = pos c" "nread c1 = nread c + 1" "same_start c c1"
    using line_start[OF c(1)] room_step[OF r] by blast
  have "room (length name + (length v + 3 + k)) c1"
    using room_step[OF r] r c1(4) by (simp add: room_def)
  from field_part[OF c1(2) c(2) _ name this] in0 c1(3) obtain c2 where c2:
      "exec_loop settings data True c1 = exec_loop settings data False c2" "drop (pos c2) data = byte_of CHR '' '' # v @ CR # LF # rest"
      "room (length v + 3 + k) c2" "line_at t s_header_value_discard_ws (field_read t name a) c2" "field_state (header_state c2)"
      "recognised (header_state c2) = h_general" "same_start c1 c2"
    by auto
  from value_part[OF c2(4) c(2) name(1) c2(5,6,2) v c2(3)] c1(1,5) c2(1,7) nv show ?thesis
    by (auto simp: same_start_def at_line_def)
qed

lemma header_lines_read:
  assumes "at_line t a c" "t \<noteq> HTTP_BOTH" and "list_all valid_header hs" and "drop (pos c) data = concat (map header_line hs) @ rest"
    and "room (length (concat (map header_line hs)) + k) c"
  shows "\<exists>c'. exec_loop settings data False c = exec_loop settings data False c' \<and> drop (pos c') data = rest \<and> room k c' \<and>
    at_line t (fold (header_read t) hs a) c' \<and> same_start c c'"
  using assms
proof (induction hs arbitrary: c a)
  case Nil
  then show ?case by (auto simp: same_start_def)
next
  case (Cons nv hs)
  obtain c1 where c1: "exec_loop settings data False c = exec_loop settings data False c1" "drop (pos c1) data = concat (map header_line hs) @ rest"
      "room (length (concat (map header_line hs)) + k) c1" "at_line t (header_read t nv a) c1" "same_start c c1"
    using header_line_read[of t a c nv data "concat (map header_line hs) @ rest" "length (concat (map header_line hs)) + k"] Cons.prems
    by (auto simp: algebra_simps)
  from Cons.IH[OF c1(4) Cons.prems(2) _ c1(2,3)] Cons.prems(3) c1(1,5) show ?case
    by (auto simp: same_start_def)
qed

lemma blank_CR: "CR \<noteq> byte_of CHR '' ''" "CR \<noteq> 9" "CR \<noteq> LF"
  by (simp_all add: version_bytes CR_def LF_def)

text \<open>The empty line: the state \<open>s_headers_done\<close> still stands on its line feed.\<close>

lemma empty_line_read:
  assumes c: "at_line t a c" and input: "drop (pos c) data = CR # LF # rest" and room: "room 2 c"
  shows "\<exists>c'. exec_loop settings data False c = exec_loop settings data True c' \<and> drop (pos c') data = LF # rest \<and>
    line_at t s_headers_almost_done a c' \<and> same_start c c'"
proof -
  have r: "room (Suc 1) c"
    using room by (simp add: room_def)
  obtain c1 where c1: "exec_loop settings data False c = exec_loop settings data True c1" "line_at t s_header_field_start a c1"
      "pos c1 = pos c" "nread c1 = nread c + 1" "same_start c c1"
    using line_start[OF c input blank_CR(1,2)] room_step[OF r] by blast
  let ?d = "c1\<lparr>state := s_headers_almost_done, pos := pos c1 + 1\<rparr>"
  have "exec_state settings data CR c1 = Next (c1\<lparr>state := s_headers_almost_done\<rparr>)"
    using c1(2) by (simp add: line_at_def exec_state_def at_header_field_start_def)
  then have 1: "exec_loop settings data True c1 = exec_loop settings data False ?d"
    using next_turn[of c1 data CR "LF # rest" settings "c1\<lparr>state := s_headers_almost_done\<rparr>"] input c1(3) by simp
  have in1: "drop (pos ?d) data = LF # rest"
    using drop_more[of "pos c1" data "[CR]" "LF # rest"] input c1(3) by simp
  have "unat (nread ?d) < HTTP_MAX_HEADER_SIZE"
    using c1(4) room_step[OF r] r by (simp add: room_def)
  then have "exec_loop settings data False ?d = exec_loop settings data True (?d\<lparr>nread := nread ?d + 1\<rparr>)"
    using nth_input[of "pos ?d" data "[]" LF rest] in1 by (intro count_turn) (auto simp: PARSING_HEADER_def)
  with 1 c1 in1 show ?thesis
    by (intro exI[of _ "?d\<lparr>nread := nread ?d + 1\<rparr>"]) (simp add: line_at_def same_start_def)
qed

section \<open>The end of the input\<close>

lemma loop_past_end:
  assumes "exec_loop S data False c = Some r" and "drop (pos c) data = []"
  shows "pos c = length data"
proof (rule ccontr)
  assume "pos c \<noteq> length data"
  with assms(2) have "exec_turn S data False c = Abort"
    by (simp add: exec_turn_def)
  with assms(1) \<open>pos c \<noteq> length data\<close> show False
    by (subst (asm) exec_loop.simps) simp
qed

lemma loop_end:
  assumes "pos c = length data" and "marks c = (\<lambda>_. None)" and "http_errno c = HPE_OK"
  shows "exec_loop S data False c = Some (length data, c)"
  using assms by (subst exec_loop.simps) (simp add: exec_finish_def callback_defs callback_data_def)

lemma execute_loop:
  "\<lbrakk>data \<noteq> []; http_errno p = HPE_OK\<rbrakk> \<Longrightarrow> http_parser_execute S data p a =
    map_option (\<lambda>(n, c). (n, HttpParser.truncate c, app c)) (exec_loop S data False ((begin_exec p a)\<lparr>marks := first_marks (state p)\<rparr>))"
  by (simp add: http_parser_execute_def)

end
