(* ===== verification/Http_Message.thy ===== *)
theory Http_Message
  imports Http_Lines
begin

text \<open>
  What the handler of \<open>app/http/Http.cc\<close> reports of well-formed requests: whole requests are read
  by the equations of \<open>Http_Lines\<close> and the report of each is compared with the message that was
  encoded.
\<close>

section \<open>Request lines\<close>

lemma walk_method:
  "\<lbrakk>method_run cs (p_method c, index c) = Some (m, i); state c = s_req_method\<rbrakk> \<Longrightarrow>
    walk S data cs c = Some (after_chars (length cs) (c\<lparr>p_method := m, index := i\<rparr>))"
proof (induction cs arbitrary: c)
  case (Cons ch cs)
  then obtain m' i' where n: "method_next ch (p_method c, index c) = Some (m', i')" and r: "method_run cs (m', i') = Some (m, i)"
    by (cases "method_next ch (p_method c, index c)") auto
  have "exec_state S data ch (c\<lparr>nread := nread c + 1\<rparr>) = Next (c\<lparr>nread := nread c + 1, p_method := m', index := i'\<rparr>)"
    using Cons.prems(2) at_req_method_next[of ch "c\<lparr>nread := nread c + 1\<rparr>" m' i'] n by (simp add: exec_state_def)
  with Cons.IH[of "c\<lparr>nread := nread c + 1, p_method := m', index := i', pos := pos c + 1\<rparr>"] r Cons.prems(2) show ?case
    by (simp add: PARSING_HEADER_def after_chars_def algebra_simps)
qed (simp add: after_chars_def)

lemma method_start:
  assumes "state c = s_start_req" and "http_errno c = HPE_OK" and "on_message_begin S = None"
  shows "walk S data (bytes_of (method_strings m) @ [byte_of CHR '' '']) c =
    Some (after_chars (length (method_strings m) + 1) (c\<lparr>flags := 0, content_length := ULLONG_MAX, p_method := m,
      index := length (method_strings m) + 1, state := s_req_spaces_before_url\<rparr>))"
proof -
  obtain m0 where m0: "first_method (hd (bytes_of (method_strings m))) = Some m0"
      and r: "method_run (tl (bytes_of (method_strings m))) (m0, 1) = Some (m, length (method_strings m))"
    using every_method_found[of m] by (auto simp: method_found_def split: option.splits)
  obtain ch cs where cs: "bytes_of (method_strings m) = ch # cs"
    using method_nonempty[of m] by (cases "method_strings m") (auto simp: bytes_of_def)
  then have len: "length (method_strings m) = length cs + 1"
    by (metis bytes_of_def length_Cons length_map Suc_eq_plus1)
  let ?c = "c\<lparr>nread := nread c + 1, flags := 0, content_length := ULLONG_MAX, p_method := m0, index := 1, state := s_req_method\<rparr>"
  have "first_method ch = Some m0"
    using m0 cs by simp
  then have alpha: "IS_ALPHA ch" "ch \<noteq> CR" "ch \<noteq> LF"
    by (auto simp: first_method_def byte_of_letter letter_alpha CR_def LF_def split: if_splits)
  have "exec_state S data ch (c\<lparr>nread := nread c + 1\<rparr>) = Next ?c"
    using assms alpha \<open>first_method ch = Some m0\<close>
    by (simp add: exec_state_def at_start_req_def callback_defs callback_notify_def Let_def)
  then have "walk S data ((ch # cs) @ [byte_of CHR '' '']) c = walk S data (cs @ [byte_of CHR '' '']) (?c\<lparr>pos := pos c + 1\<rparr>)"
    using assms(1) by (simp add: PARSING_HEADER_def)
  also have "\<dots> = walk S data [byte_of CHR '' ''] (after_chars (length cs) (?c\<lparr>pos := pos c + 1, p_method := m, index := length (method_strings m)\<rparr>))"
    using walk_method[of cs "?c\<lparr>pos := pos c + 1\<rparr>" m "length (method_strings m)" S data] r cs by (simp add: walk_append del: walk.simps)
  also have "\<dots> = Some (after_chars (length (method_strings m) + 1) (c\<lparr>flags := 0, content_length := ULLONG_MAX, p_method := m,
      index := length (method_strings m) + 1, state := s_req_spaces_before_url\<rparr>))"
    by (simp add: after_chars_def PARSING_HEADER_def exec_state_def method_name_end len algebra_simps)
  finally show ?thesis by (simp add: cs)
qed

lemma url_char_not_blank: "parse_url_char s ch \<noteq> s_dead \<Longrightarrow> ch \<noteq> byte_of CHR '' '' \<and> ch \<noteq> CR \<and> ch \<noteq> LF"
  by (auto simp: parse_url_char_def)

lemma url_exec:
  assumes "state c \<in> url_states" and "parse_url_char (state c) ch \<noteq> s_dead"
  shows "exec_state S data ch c = Next (c\<lparr>state := parse_url_char (state c) ch\<rparr>)"
  using assms url_char_not_blank[OF assms(2)]
  by (auto simp: url_states_def exec_state_def at_req_schema_def at_req_url_def url_step_def)

lemma dead_url: "foldl parse_url_char s_dead us = s_dead"
  by (induction us) (simp_all add: parse_url_char_def)

lemma url_states_parsing: "s \<in> url_states \<Longrightarrow> PARSING_HEADER s"
  by (auto simp: url_states_def PARSING_HEADER_def)

lemma walk_url:
  "\<lbrakk>state c \<in> url_states; foldl parse_url_char (state c) us \<noteq> s_dead\<rbrakk> \<Longrightarrow>
    walk S data us c = Some (after_chars (length us) (c\<lparr>state := foldl parse_url_char (state c) us\<rparr>))"
proof (induction us arbitrary: c)
  case (Cons ch us)
  have alive: "parse_url_char (state c) ch \<noteq> s_dead"
    using Cons.prems(2) dead_url by auto
  then have "exec_state S data ch (c\<lparr>nread := nread c + 1\<rparr>) = Next (c\<lparr>nread := nread c + 1, state := parse_url_char (state c) ch\<rparr>)"
    using url_exec[of "c\<lparr>nread := nread c + 1\<rparr>" ch S data] Cons.prems(1) by simp
  moreover have "parse_url_char (state c) ch \<in> url_states"
    using alive parse_url_char_states[of "state c" ch] by auto
  ultimately show ?case
    using Cons.IH[of "c\<lparr>nread := nread c + 1, state := parse_url_char (state c) ch, pos := pos c + 1\<rparr>"] Cons.prems url_states_parsing
    by (simp add: after_chars_def algebra_simps)
qed (simp add: after_chars_def)

definition url_ends :: "state set" where
  "url_ends = {s_req_server, s_req_server_with_at, s_req_path, s_req_query_string_start, s_req_query_string, s_req_fragment_start, s_req_fragment}"

definition valid_url :: "bytes \<Rightarrow> bool" where
  "valid_url u \<longleftrightarrow> foldl parse_url_char s_req_spaces_before_url u \<in> url_ends"

definition request_line :: "http_method \<Rightarrow> bytes \<Rightarrow> bytes" where
  "request_line m u = bytes_of (http_method_str m) @ [byte_of CHR '' ''] @ u @ [byte_of CHR '' ''] @ bytes_of ''HTTP/1.1'' @ [CR, LF]"

definition url_read :: "bytes \<Rightarrow> http_app \<Rightarrow> http_app" where
  "url_read u = on_request (\<lambda>r. r\<lparr>hq_url := u, hq_bytes := hq_bytes r + int (length u)\<rparr>)"

lemma url_ends_states: "s \<in> url_ends \<Longrightarrow> s \<in> url_states"
  by (auto simp: url_ends_def url_states_def)

lemma url_end_exec: "state c \<in> url_ends \<Longrightarrow> exec_state S data ch c = at_req_url S data ch c"
  by (auto simp: url_ends_def exec_state_def)

lemma walk_version:
  assumes "state c = s_req_http_start"
  shows "walk S data (bytes_of ''HTTP/1.1'' @ [CR, LF]) c =
    Some (after_chars 10 (c\<lparr>http_major := 1, http_minor := 1, state := s_header_field_start\<rparr>))"
  using assms
  by (simp add: version_bytes PARSING_HEADER_def exec_state_def at_req_http_start_def at_literal_def STRICT_CHECK_def CR_def LF_def
      at_first_http_major_def at_http_major_def at_first_http_minor_def at_req_http_minor_def expect_LF_def after_chars_def)

lemma url_callback:
  assumes "p_type c = HTTP_REQUEST" and "http_errno c = HPE_OK" and "marks c Url = Some p" and "p \<le> pos c" and "pos c \<le> length data"
    and "take (pos c - p) (drop p data) = u"
  shows "CALLBACK_DATA settings data Url c k = k (c\<lparr>app := url_read u (app c), marks := (marks c)(Url := None)\<rparr>)"
  using assms by (simp add: callback_defs callback_data_def settings_def onUrl_def HttpParser.truncate_def url_read_def)

lemma walk_url_whole:
  assumes "state c = s_req_spaces_before_url" and "p_method c \<noteq> HTTP_CONNECT" and "valid_url u"
    and "p_type c = HTTP_REQUEST" and "http_errno c = HPE_OK" and "marks c = (\<lambda>_. None)"
    and input: "drop (pos c) data = u @ byte_of CHR '' '' # rest"
  shows "walk settings data (u @ [byte_of CHR '' '']) c =
    Some (after_chars (length u + 1) (c\<lparr>state := s_req_http_start, app := url_read u (app c)\<rparr>))"
proof -
  obtain ch us where u: "u = ch # us"
    using assms(3) by (cases u) (auto simp: valid_url_def url_ends_def)
  let ?s = "parse_url_char s_req_spaces_before_url ch"
  have fin: "foldl parse_url_char ?s us \<in> url_ends"
    using assms(3) u by (simp add: valid_url_def)
  have alive: "?s \<noteq> s_dead"
    using fin dead_url[of us] by (auto simp: url_ends_def)
  let ?c = "c\<lparr>nread := nread c + 1, marks := (\<lambda>_. None)(Url := Some (pos c)), state := ?s, pos := pos c + 1\<rparr>"
  have "walk settings data (u @ [byte_of CHR '' '']) c = walk settings data (us @ [byte_of CHR '' '']) ?c"
    using assms(1,2,6) alive url_char_not_blank[OF alive] u
    by (simp add: PARSING_HEADER_def exec_state_def at_req_spaces_before_url_def MARK_def url_step_def)
  also have "\<dots> = walk settings data [byte_of CHR '' ''] (after_chars (length us) (?c\<lparr>state := foldl parse_url_char ?s us\<rparr>))"
    using walk_url[of ?c us settings data] alive parse_url_char_states[of s_req_spaces_before_url ch] fin
    by (auto simp: walk_append url_ends_def simp del: walk.simps)
  also have "\<dots> = Some (after_chars (length u + 1) (c\<lparr>state := s_req_http_start, app := url_read u (app c)\<rparr>))"
  proof -
    let ?d = "after_chars (length us) (?c\<lparr>state := foldl parse_url_char ?s us\<rparr>)"
    have long: "length data = pos c + length u + 1 + length rest"
      using arg_cong[OF input, of length] by simp
    have "take (length u) (drop (pos c) data) = u"
      using input by simp
    then have "CALLBACK_DATA settings data Url (?d\<lparr>nread := nread ?d + 1, state := s_req_http_start\<rparr>) Next =
        Next (?d\<lparr>nread := nread ?d + 1, state := s_req_http_start, app := url_read u (app c), marks := \<lambda>_. None\<rparr>)"
      using assms(4-6) u long by (subst url_callback[where p = "pos c" and u = u]) (auto simp: after_chars_def)
    then have "exec_state settings data (byte_of CHR '' '') (?d\<lparr>nread := nread ?d + 1\<rparr>) =
        Next (?d\<lparr>nread := nread ?d + 1, state := s_req_http_start, app := url_read u (app c), marks := \<lambda>_. None\<rparr>)"
      using fin by (subst url_end_exec) (simp_all add: after_chars_def at_req_url_def)
    then show ?thesis
      using fin url_states_parsing[OF url_ends_states] assms(6) u by (simp add: after_chars_def algebra_simps)
  qed
  finally show ?thesis .
qed

lemma request_line_read:
  assumes "state c = s_start_req" and "p_type c = HTTP_REQUEST" and "http_errno c = HPE_OK" and "marks c = (\<lambda>_. None)"
    and "m \<noteq> HTTP_CONNECT" and "valid_url u" and "drop (pos c) data = request_line m u @ rest"
  shows "\<exists>c'. walk settings data (request_line m u) c = Some c' \<and> line_at HTTP_REQUEST s_header_field_start (url_read u (app c)) c' \<and>
    p_method c' = m \<and> http_major c' = 1 \<and> http_minor c' = 1"
proof -
  let ?n = "length (method_strings m) + 1"
  let ?c = "after_chars ?n (c\<lparr>flags := 0, content_length := ULLONG_MAX, p_method := m, index := ?n, state := s_req_spaces_before_url\<rparr>)"
  have meth: "walk settings data (bytes_of (method_strings m) @ [byte_of CHR '' '']) c = Some ?c"
    by (rule method_start) (use assms in \<open>simp_all add: settings_def\<close>)
  have "drop (pos ?c) data = drop ?n (drop (pos c) data)"
    by (simp add: after_chars_def add.commute)
  also have "\<dots> = u @ byte_of CHR '' '' # bytes_of ''HTTP/1.1'' @ [CR, LF] @ rest"
    unfolding assms(7) request_line_def http_method_str_def by (simp add: bytes_of_def)
  finally have url: "walk settings data (u @ [byte_of CHR '' '']) ?c =
      Some (after_chars (length u + 1) (?c\<lparr>state := s_req_http_start, app := url_read u (app ?c)\<rparr>))"
    using assms(2-6) by (intro walk_url_whole) (simp_all add: after_chars_def)
  have "request_line m u = (bytes_of (method_strings m) @ [byte_of CHR '' '']) @ (u @ [byte_of CHR '' '']) @ (bytes_of ''HTTP/1.1'' @ [CR, LF])"
    by (simp add: request_line_def http_method_str_def)
  then show ?thesis
    using assms(2-4) by (simp only: walk_append[of _ _ _ "_ @ _"] meth url bind.bind_lunit)
      (subst walk_version, auto simp: line_at_def after_chars_def)
qed

section \<open>Requests\<close>

type_synonym request = "http_method \<times> bytes \<times> (bytes \<times> bytes) list"

definition encode_request :: "request \<Rightarrow> bytes" where
  "encode_request = (\<lambda>(m, u, hs). request_line m u @ concat (map header_line hs) @ [CR, LF])"

definition valid_request :: "request \<Rightarrow> bool" where
  "valid_request = (\<lambda>(m, u, hs). m \<noteq> HTTP_CONNECT \<and> valid_url u \<and> list_all valid_header hs \<and>
     length (encode_request (m, u, hs)) \<le> HTTP_MAX_HEADER_SIZE)"

definition request_reported :: "http_method \<Rightarrow> http_app \<Rightarrow> http_app" where
  "request_reported m a =
     (let a = on_request (\<lambda>r. r\<lparr>hq_method := http_method_str m\<rparr>) a; a = emit (RequestReport (currentHttpRequest a)) a
      in on_request (\<lambda>r. r\<lparr>hq_headers := Map.empty, hq_bytes := 0\<rparr>) a)"

definition request_app :: "request \<Rightarrow> http_app \<Rightarrow> http_app" where
  "request_app = (\<lambda>(m, u, hs) a. request_reported m (fold (header_read HTTP_REQUEST) hs (url_read u a)))"

definition ready :: "http_app \<Rightarrow> http_app exec \<Rightarrow> bool" where
  "ready a c \<longleftrightarrow> state c = s_start_req \<and> app c = a \<and> p_type c = HTTP_REQUEST \<and> http_errno c = HPE_OK \<and> marks c = (\<lambda>_. None) \<and> nread c = 0"

lemma request_end:
  assumes c: "at_line HTTP_REQUEST a c" and input: "drop (pos c) data = CR # LF # rest" and room: "room 2 c"
    and start: "p_method c = m" "m \<noteq> HTTP_CONNECT" "http_major c = 1" "http_minor c = 1"
  shows "\<exists>c'. exec_loop settings data False c = exec_loop settings data False c' \<and> drop (pos c') data = rest \<and> ready (request_reported m a) c'"
proof -
  obtain c1 where c1: "exec_loop settings data False c = exec_loop settings data True c1" "drop (pos c1) data = LF # rest"
      "line_at HTTP_REQUEST s_headers_almost_done a c1" "same_start c c1"
    using empty_line_read[OF c input room] by blast
  let ?d = "c1\<lparr>app := request_reported m a, state := s_headers_done, upgrade := False\<rparr>"
  have "exec_state settings data LF c1 = Again ?d"
    using c1(3,4) start
    by (simp add: line_at_def same_start_def exec_state_def at_headers_almost_done_def STRICT_CHECK_def headers_complete_def settings_def
        onHeadersComplete_def HttpParser.truncate_def request_reported_def Let_def)
  then have 1: "exec_loop settings data True c1 = exec_loop settings data True ?d"
    by (rule again_turn[OF c1(2)])
  let ?e = "?d\<lparr>nread := 0, state := s_start_req\<rparr>"
  have "exec_state settings data LF ?d = Next ?e"
    using c1(3,4) start
    by (simp add: line_at_def same_start_def exec_state_def at_headers_done_def STRICT_CHECK_def message_complete_def callback_defs
        callback_notify_def settings_def NEW_MESSAGE_def http_should_keep_alive_def http_message_needs_eof_def start_state_def Let_def ULLONG_MAX_def)
  then have 2: "exec_loop settings data True ?d = exec_loop settings data False (?e\<lparr>pos := pos ?e + 1\<rparr>)"
    using next_turn[of ?d data LF rest settings ?e] c1(2) by simp
  have "drop (pos (?e\<lparr>pos := pos ?e + 1\<rparr>)) data = rest"
    using drop_more[of "pos c1" data "[LF]" rest] c1(2) by simp
  with 1 2 c1(1,3) show ?thesis
    by (intro exI[of _ "?e\<lparr>pos := pos ?e + 1\<rparr>"]) (simp add: ready_def line_at_def)
qed

lemma request_read:
  assumes c: "ready a c" and "valid_request r" and input: "drop (pos c) data = encode_request r @ rest"
  shows "\<exists>c'. exec_loop settings data False c = exec_loop settings data False c' \<and> drop (pos c') data = rest \<and> ready (request_app r a) c'"
proof -
  obtain m u hs where r: "r = (m, u, hs)" by (cases r)
  let ?hs = "concat (map header_line hs)"
  have v: "m \<noteq> HTTP_CONNECT" "valid_url u" "list_all valid_header hs"
    using assms(2) r by (simp_all add: valid_request_def)
  have room: "room (length (request_line m u) + (length ?hs + 2)) c"
    using assms(2) c r by (simp add: valid_request_def encode_request_def room_def ready_def)
  have in0: "drop (pos c) data = request_line m u @ ?hs @ CR # LF # rest"
    using input r by (simp add: encode_request_def)
  obtain c1 where w: "walk settings data (request_line m u) c = Some c1" and
      c1: "line_at HTTP_REQUEST s_header_field_start (url_read u a) c1" "p_method c1 = m" "http_major c1 = 1" "http_minor c1 = 1"
    using request_line_read[of c m u data "?hs @ CR # LF # rest"] c v in0 by (auto simp: ready_def)
  have e1: "exec_loop settings data False c = exec_loop settings data False c1" "drop (pos c1) data = ?hs @ CR # LF # rest" "room (length ?hs + 2) c1"
    using walk_run[OF w in0 room] by blast+
  obtain c2 where c2: "exec_loop settings data False c1 = exec_loop settings data False c2" "drop (pos c2) data = CR # LF # rest" "room 2 c2"
      "at_line HTTP_REQUEST (fold (header_read HTTP_REQUEST) hs (url_read u a)) c2" "same_start c1 c2"
    using header_lines_read[OF _ _ v(3) e1(2,3)] c1(1) by (auto simp: at_line_def)
  from request_end[OF c2(4,2,3), of m] v(1) c1 c2(1,5) e1(1) r show ?thesis
    by (auto simp: same_start_def request_app_def)
qed

lemma requests_read:
  assumes "ready a c" and "list_all valid_request rs" and "drop (pos c) data = concat (map encode_request rs) @ rest"
  shows "\<exists>c'. exec_loop settings data False c = exec_loop settings data False c' \<and> drop (pos c') data = rest \<and> ready (fold request_app rs a) c'"
  using assms
proof (induction rs arbitrary: a c)
  case (Cons r rs)
  then obtain c1 where "exec_loop settings data False c = exec_loop settings data False c1"
      "drop (pos c1) data = concat (map encode_request rs) @ rest" "ready (request_app r a) c1"
    using request_read[of a c r data "concat (map encode_request rs) @ rest"] by auto
  with Cons.IH[of "request_app r a" c1] Cons.prems(2) show ?case by auto
qed auto

section \<open>Calls of the parser\<close>

definition parser_ready :: "HttpParser \<Rightarrow> bool" where
  "parser_ready p \<longleftrightarrow> state p = s_start_req \<and> p_type p = HTTP_REQUEST \<and> http_errno p = HPE_OK \<and> nread p = 0 \<and> wf 0 p"

lemma encode_nonempty: "encode_request r \<noteq> []"
  by (cases r) (simp add: encode_request_def)

lemma requests_executed:
  assumes p: "parser_ready p" and rs: "list_all valid_request rs"
  shows "\<exists>p'. http_parser_execute settings (concat (map encode_request rs)) p a = Some (length (concat (map encode_request rs)), p', fold request_app rs a) \<and>
    parser_ready p'"
proof (cases rs)
  case Nil
  have "HttpParser.truncate (begin_exec p a) = p" "app (begin_exec p a) = a"
    by (simp_all add: begin_exec_def HttpParser.truncate_def HttpParser.extend_def)
  with Nil p show ?thesis
    by (simp add: http_parser_execute_def exec_eof_def parser_ready_def) (simp add: begin_exec_def HttpParser.extend_def)
next
  case (Cons r rs')
  let ?data = "concat (map encode_request rs)"
  let ?c = "(begin_exec p a)\<lparr>marks := first_marks (state p)\<rparr>"
  have data: "?data \<noteq> []"
    using Cons encode_nonempty by simp
  have "first_marks s_start_req = (\<lambda>_. None)"
    by (rule ext) (simp add: first_marks_def)
  then have "ready a ?c" "drop (pos ?c) ?data = ?data @ []"
    using p by (simp_all add: ready_def parser_ready_def begin_exec_def HttpParser.extend_def)
  from requests_read[OF this(1) rs this(2)] obtain c' where c': "exec_loop settings ?data False ?c = exec_loop settings ?data False c'"
      "drop (pos c') ?data = []" "ready (fold request_app rs a) c'"
    by blast
  obtain n p' a' where e: "http_parser_execute settings ?data p a = Some (n, p', a')" and wf: "http_errno p' = HPE_OK \<Longrightarrow> wf 0 p'"
    using execute_safe[of p settings ?data a] p unfolding parser_ready_def by metis
  then obtain r where r: "exec_loop settings ?data False ?c = Some r"
    using p execute_loop[OF data, of p settings a] by (cases "exec_loop settings ?data False ?c") (simp_all add: parser_ready_def)
  then have "pos c' = length ?data"
    using loop_past_end[of settings ?data c' r] c'(1,2) by simp
  then have "exec_loop settings ?data False ?c = Some (length ?data, c')"
    using c'(1,3) by (simp add: loop_end ready_def)
  then have "http_parser_execute settings ?data p a = Some (length ?data, HttpParser.truncate c', fold request_app rs a)"
    using p execute_loop[OF data, of p settings a] c'(3) by (simp add: parser_ready_def ready_def)
  moreover have "parser_ready (HttpParser.truncate c')"
  proof -
    have "p' = HttpParser.truncate c'"
      using e calculation by simp
    with wf c'(3) show ?thesis
      unfolding parser_ready_def ready_def by (simp add: HttpParser.truncate_def)
  qed
  ultimately show ?thesis by blast
qed

section \<open>Requests of a connection\<close>

definition header_map :: "(bytes \<times> bytes) list \<Rightarrow> bytes \<rightharpoonup> bytes" where
  "header_map hs = map_of (rev (map (\<lambda>(name, value). (map tolower name, value)) hs))"

definition header_bytes :: "(bytes \<times> bytes) list \<Rightarrow> nat" where
  "header_bytes hs = sum_list (map (\<lambda>(name, value). length name + length value) hs)"

definition reports_request :: "tuple4 \<Rightarrow> timeval \<Rightarrow> request \<Rightarrow> http_output \<Rightarrow> bool" where
  "reports_request t4 t = (\<lambda>(m, u, hs) out. \<exists>q. out = RequestReport q \<and> hq_t4 q = t4 \<and> hq_timeStamp q = t \<and>
     hq_method q = http_method_str m \<and> hq_url q = u \<and> hq_headers q = header_map hs \<and> hq_bytes q = int (length u + header_bytes hs))"

definition idle_app :: "tuple4 \<Rightarrow> timeval \<Rightarrow> http_app \<Rightarrow> bool" where
  "idle_app t4 t a \<longleftrightarrow> hq_t4 (currentHttpRequest a) = t4 \<and> hq_timeStamp (currentHttpRequest a) = t \<and>
     hq_headers (currentHttpRequest a) = Map.empty \<and> hq_bytes (currentHttpRequest a) = 0 \<and> \<not> aborted a"

lemma headers_read:
  "\<exists>f. fold (header_read HTTP_REQUEST) hs a = a\<lparr>currentHttpRequest := (currentHttpRequest a)\<lparr>
     hq_headers := hq_headers (currentHttpRequest a) ++ header_map hs,
     hq_bytes := hq_bytes (currentHttpRequest a) + int (header_bytes hs), hq_currentHeaderField := f\<rparr>\<rparr>"
proof (induction hs arbitrary: a)
  case Nil
  show ?case by (rule exI[of _ "hq_currentHeaderField (currentHttpRequest a)"]) (simp add: header_map_def header_bytes_def)
next
  case (Cons nv hs)
  obtain n v where nv: "nv = (n, v)" by (cases nv)
  obtain f where "fold (header_read HTTP_REQUEST) hs (header_read HTTP_REQUEST nv a) = (header_read HTTP_REQUEST nv a)\<lparr>currentHttpRequest :=
     (currentHttpRequest (header_read HTTP_REQUEST nv a))\<lparr>
     hq_headers := hq_headers (currentHttpRequest (header_read HTTP_REQUEST nv a)) ++ header_map hs,
     hq_bytes := hq_bytes (currentHttpRequest (header_read HTTP_REQUEST nv a)) + int (header_bytes hs), hq_currentHeaderField := f\<rparr>\<rparr>"
    using Cons.IH by blast
  then show ?case
    by (intro exI[of _ f]) (simp add: nv header_read_def value_read_def field_read_def on_request_def header_map_def header_bytes_def)
qed

lemma request_app_reports:
  assumes "idle_app t4 t a"
  shows "\<exists>out. outputs (request_app r a) = outputs a @ [out] \<and> reports_request t4 t r out \<and> idle_app t4 t (request_app r a)"
proof -
  obtain m u hs where r: "r = (m, u, hs)" by (cases r)
  obtain f where "fold (header_read HTTP_REQUEST) hs (url_read u a) = (url_read u a)\<lparr>currentHttpRequest := (currentHttpRequest (url_read u a))\<lparr>
     hq_headers := hq_headers (currentHttpRequest (url_read u a)) ++ header_map hs,
     hq_bytes := hq_bytes (currentHttpRequest (url_read u a)) + int (header_bytes hs), hq_currentHeaderField := f\<rparr>\<rparr>"
    using headers_read by blast
  with assms r show ?thesis
    by (simp add: request_app_def request_reported_def url_read_def on_request_def emit_def reports_request_def idle_app_def Let_def)
qed

lemma requests_app_report:
  "idle_app t4 t a \<Longrightarrow> \<exists>outs. outputs (fold request_app rs a) = outputs a @ outs \<and> list_all2 (reports_request t4 t) rs outs \<and>
     idle_app t4 t (fold request_app rs a)"
proof (induction rs arbitrary: a)
  case (Cons r rs)
  obtain out where out: "outputs (request_app r a) = outputs a @ [out]" "reports_request t4 t r out" "idle_app t4 t (request_app r a)"
    using request_app_reports[OF Cons.prems] by blast
  obtain outs where outs: "outputs (fold request_app rs (request_app r a)) = outputs (request_app r a) @ outs"
      "list_all2 (reports_request t4 t) rs outs" "idle_app t4 t (fold request_app rs (request_app r a))"
    using Cons.IH[OF out(3)] by blast
  with out(1,2) show ?case
    by (intro exI[of _ "out # outs"]) simp
qed simp

definition client_ready :: "tuple4 \<Rightarrow> timeval \<Rightarrow> Http \<Rightarrow> bool" where
  "client_ready t4 t h \<longleftrightarrow> (\<exists>d. http_table h t4 = Some d \<and> parser_ready (requestParser d) \<and> idle_app t4 t (app_of d))"

lemma requests_data:
  assumes h: "client_ready t4 t h" and "dest t4 = 80" and rs: "list_all valid_request rs"
  shows "\<exists>outs h'. http_onTcpData t4 (concat (map encode_request rs)) FROMCLIENT h = Some (outs, h') \<and>
    list_all2 (reports_request t4 t) rs outs \<and> client_ready t4 t h'"
proof -
  obtain d where d: "http_table h t4 = Some d" "parser_ready (requestParser d)" "idle_app t4 t (app_of d)"
    using h by (auto simp: client_ready_def)
  obtain p' where p': "http_parser_execute settings (concat (map encode_request rs)) (requestParser d) (app_of d) =
      Some (length (concat (map encode_request rs)), p', fold request_app rs (app_of d))" "parser_ready p'"
    using requests_executed[OF d(2) rs] by blast
  obtain outs where "outputs (fold request_app rs (app_of d)) = outputs (app_of d) @ outs" "list_all2 (reports_request t4 t) rs outs"
      "idle_app t4 t (fold request_app rs (app_of d))"
    using requests_app_report[OF d(3)] by blast
  with d p' assms(2) show ?thesis
    by (simp add: http_onTcpData_def run_parser_def client_ready_def idle_app_def) (simp add: app_of_def)
qed

lemma requests_run:
  assumes "dest t4 = 80"
  shows "\<lbrakk>client_ready t4 t h; list_all (\<lambda>(t', rs). list_all valid_request rs) segs\<rbrakk> \<Longrightarrow>
    \<exists>outs h'. http_run (map (\<lambda>(t', rs). (t', TcpData i t4 (concat (map encode_request rs)) FROMCLIENT)) segs) h = Some (outs, h') \<and>
      list_all2 (reports_request t4 t) (concat (map snd segs)) outs"
proof (induction segs arbitrary: h)
  case (Cons seg segs)
  obtain t' rs where seg: "seg = (t', rs)" by (cases seg)
  obtain outs h1 where 1: "http_onTcpData t4 (concat (map encode_request rs)) FROMCLIENT h = Some (outs, h1)"
      "list_all2 (reports_request t4 t) rs outs" "client_ready t4 t h1"
    using requests_data[OF Cons.prems(1) assms, of rs] Cons.prems(2) seg by auto
  obtain outs' h' where 2: "http_run (map (\<lambda>(t', rs). (t', TcpData i t4 (concat (map encode_request rs)) FROMCLIENT)) segs) h1 = Some (outs', h')"
      "list_all2 (reports_request t4 t) (concat (map snd segs)) outs'"
    using Cons.IH[OF 1(3)] Cons.prems(2) by auto
  show ?case
    using 1 2 seg by (intro exI[of _ "outs @ outs'"] exI[of _ h']) (simp add: list_all2_appendI)
qed simp

lemma connection_ready:
  assumes "dest t4 = 80" and "http_table h t4 = None"
  shows "\<exists>h'. onTcpConnection t4 t h = Some ([], h') \<and> client_ready t4 t h'"
  using assms http_parser_init_wf[of HTTP_REQUEST]
  by (simp add: onTcpConnection_def client_ready_def HttpDetail_init_def parser_ready_def idle_app_def app_of_def HttpRequest_init_def)
    (simp add: http_parser_init_def)

text \<open>
  C12: Requests are reported. When a connection to port 80 is opened and its client then sends any
  segments, each holding any number of whole requests, the handler reports exactly these requests
  in their order: with the address and the time of the connection, the printed method, the URL,
  every header under its lower-case name (the last value where a name is repeated), and the size
  of URL and headers. A request is a request line for HTTP/1.1 with any method but CONNECT and any
  URL that the URL automaton accepts, and header lines whose names are none of the names that
  control the connection or the body; it fits \<open>HTTP_MAX_HEADER_SIZE\<close>.
\<close>

theorem http_requests_reported:
  assumes "dest t4 = 80" and "http_table h t4 = None" and "list_all (\<lambda>(t', rs). list_all valid_request rs) segs"
  shows "\<exists>outs h'. http_run ((t, TcpConnected i t4) #
      map (\<lambda>(t', rs). (t', TcpData i t4 (concat (map encode_request rs)) FROMCLIENT)) segs) h = Some (outs, h') \<and>
    list_all2 (reports_request t4 t) (concat (map snd segs)) outs"
proof -
  obtain h1 where h1: "onTcpConnection t4 t h = Some ([], h1)" "client_ready t4 t h1"
    using connection_ready[OF assms(1,2)] by blast
  from requests_run[OF assms(1) h1(2) assms(3)] h1(1) show ?thesis
    by auto
qed

definition sample_requests :: "request list" where
  "sample_requests = [(HTTP_GET, bytes_of ''/a?x=1'', [(bytes_of ''Host'', bytes_of ''b.org'')]),
     (HTTP_HEAD, bytes_of ''*'', [])]"

lemma sample_requests_valid: "list_all valid_request sample_requests"
proof -
  have "valid_url (bytes_of ''/a?x=1'')" "valid_url (bytes_of ''*'')" "valid_header (bytes_of ''Host'', bytes_of ''b.org'')"
    by code_simp+
  then show ?thesis
    by (simp add: sample_requests_def valid_request_def encode_request_def request_line_def header_line_def http_method_str_def
        bytes_of_def HTTP_MAX_HEADER_SIZE_def)
qed

theorem http_requests_reported_witness:
  "\<exists>outs h'. http_run [(\<lparr>tv_sec = 7, tv_usec = 0\<rparr>, TcpConnected 0 \<lparr>source = 5000, dest = 80, saddr = 1, daddr = 2\<rparr>),
      (\<lparr>tv_sec = 8, tv_usec = 0\<rparr>, TcpData 0 \<lparr>source = 5000, dest = 80, saddr = 1, daddr = 2\<rparr> (concat (map encode_request sample_requests)) FROMCLIENT)]
      (Http_init (\<lambda>_. 0)) = Some (outs, h') \<and>
    list_all2 (reports_request \<lparr>source = 5000, dest = 80, saddr = 1, daddr = 2\<rparr> \<lparr>tv_sec = 7, tv_usec = 0\<rparr>) sample_requests outs"
  using http_requests_reported[of "\<lparr>source = 5000, dest = 80, saddr = 1, daddr = 2\<rparr>" "Http_init (\<lambda>_. 0)" "[(\<lparr>tv_sec = 8, tv_usec = 0\<rparr>, sample_requests)]" "\<lparr>tv_sec = 7, tv_usec = 0\<rparr>" 0]
    sample_requests_valid by (simp add: Http_init_def del: http_run.simps)

end
