(* ===== verification/Http_Flow.thy ===== *)
theory Http_Flow
  imports Worker Http_Message
begin

text \<open>
  From packets to records: a worker that is given the packets of one HTTP connection. The IP layer, the TCP
  engine, the HTTP handler and the wiring, each proved in its own theory, are put together here.
\<close>

section \<open>Unfragmented TCP packets\<close>

definition whole_tcp :: "input \<Rightarrow> bool" where
  "whole_tcp p \<longleftrightarrow> (case ip_view (in_data p) of None \<Rightarrow> False | Some iph \<Rightarrow>
     valid_ip iph (in_len p) \<and> \<not> is_fragment iph \<and> ip_p iph = IPPROTO_TCP \<and> 4 * ip_hl iph + 20 \<le> length (in_data p))"

abbreviation handed_on :: "input \<Rightarrow> ip_out" where
  "handed_on p \<equiv> ToTcp (in_data p) (skblen_of False (in_data p))"

definition tcp_part :: "input \<Rightarrow> bytes \<times> int \<times> input" where
  "tcp_part p = (in_data p, skblen_of False (in_data p), p)"

lemma tcp_layer_part: "tcp_layer (tcp_part p) s = (let (es, s') = processTcp (in_data p) (skblen_of False (in_data p)) (in_time p) s
    in Some (map (Pair (in_time p)) es, s'))"
  by (simp add: tcp_part_def)

lemma whole_handed_on:
  assumes "whole_tcp p" and "startIpfragProc junk tv (in_data p) (in_len p) s = Some (xs, s')"
  shows "xs = [handed_on p]"
proof -
  obtain iph where "ip_view (in_data p) = Some iph" "valid_ip iph (in_len p)" "\<not> is_fragment iph" "ip_p iph = IPPROTO_TCP"
    using assms(1) by (auto simp: whole_tcp_def split: option.splits)
  with assms(2) show ?thesis
    by (auto simp: startIpfragProc_def ipDefragStub_def genIpProc_def Let_def)
qed

lemma whole_ips:
  "\<lbrakk>\<forall>p \<in> set ps. whole_tcp p; feed_all ip_layer ps s = Some (ips, s')\<rbrakk> \<Longrightarrow> tcp_packets ips = map tcp_part ps"
proof (induction ps arbitrary: s ips)
  case (Cons p ps)
  then obtain o1 s1 o2 where p: "ip_layer p s = Some (o1, s1)" and ps: "feed_all ip_layer ps s1 = Some (o2, s')" and ips: "ips = o1 @ o2"
    by (auto simp: bind_eq_Some_conv)
  have "o1 = [(handed_on p, p)]"
    using p Cons.prems(1) by (auto simp: ip_layer_def dest!: whole_handed_on[rotated])
  moreover have "tcp_packets o2 = map tcp_part ps"
    using Cons.IH[OF _ ps] Cons.prems(1) by simp
  ultimately show ?case
    by (simp add: ips tcp_part_def)
qed simp

text \<open>Nothing but the HTTP handler can end the process on such a packet.\<close>

lemma whole_step:
  assumes w: "worker_ok a t w" and p: "whole_tcp p" and t: "t \<le> ms_since a (in_time p)"
    and ms: "- (2 ^ 31) \<le> ms_since a (in_time p)" "ms_since a (in_time p) < 2 ^ 31" and sec: "0 \<le> tv_sec (in_time p)"
    and tcp: "tcp_layer (tcp_part p) (w_tcp w) = Some (es, tcp)" and http: "http_run es (w_http w) = Some (hs, h)"
  shows "\<exists>out w'. worker_packet toIp p w = Some (out, w') \<and> worker_ok a (ms_since a (in_time p)) w' \<and> w_tcp w' = tcp \<and> w_http w' = h"
proof -
  let ?run = "startIpfragProc (junk_frag (in_junk p)) (in_time p) (in_data p) (in_len p) (w_ip w)"
  have reach: "frag_reach t (w_ip w)" "time0 (w_ip w) = a"
    using w by (simp_all add: worker_ok_def)
  obtain xs ip where "?run = Some (xs, ip)"
    using startIpfragProc_step[OF frag_reach_wf[OF reach(1)], of "in_time p"] now_is_ms[of "w_ip w" "in_time p"] ms t reach(2) by metis
  then have run: "?run = Some ([handed_on p], ip)"
    using whole_handed_on[OF p] by simp
  obtain iph where i: "ip_view (in_data p) = Some iph" "4 * ip_hl iph + 20 \<le> length (in_data p)"
    using p by (auto simp: whole_tcp_def split: option.splits)
  then obtain hdr where "tcp_view (in_data p) (4 * ip_hl iph) = Some hdr"
    by (simp add: tcp_view_def)
  with i obtain th where th: "processTcpHeader (in_data p) (skblen_of False (in_data p)) (in_time p) = Some th"
    by (simp add: processTcpHeader_def)
  obtain closed s where s: "ts_onTcpData True (junk_time (in_junk p)) (in_data p) (skblen_of False (in_data p)) (in_time p) (w_session w) = Some (closed, s)"
    using session_packet_ok[OF _ th sec, of "w_session w"] w unfolding worker_ok_def by blast
  obtain es' where es: "processTcp (in_data p) (skblen_of False (in_data p)) (in_time p) (w_tcp w) = (es', tcp)" "es = map (Pair (in_time p)) es'"
    using tcp by (auto simp: tcp_part_def split: prod.splits)
  obtain outs where o: "onTcpEvents toIp (in_time p) es' (w_http w) = Some (outs, h)"
    using onTcpEvents_run[of toIp "in_time p" es' "w_http w"] http es(2) by fastforce
  have "worker_packet toIp p w = onTcpPacket toIp (in_data p) (skblen_of False (in_data p)) p (w\<lparr>w_ip := ip\<rparr>)"
    using run by (simp add: worker_packet_def)
  then obtain out w' where "worker_packet toIp p w = Some (out, w')" "w_tcp w' = tcp" "w_http w' = h"
    using th s es(1) o by (simp add: onTcpPacket_def)
  moreover from this worker_packet_step(2)[OF w t ms sec] have "worker_ok a (ms_since a (in_time p)) w'"
    by blast
  ultimately show ?thesis by blast
qed

lemma http_run_append:
  "http_run (es @ fs) h = (case http_run es h of None \<Rightarrow> None | Some (out, h1) \<Rightarrow>
     (case http_run fs h1 of None \<Rightarrow> None | Some (out', h2) \<Rightarrow> Some (out @ out', h2)))"
  by (simp add: feed_all_append split: Option.bind_splits option.splits flip: http_run_feed)

lemma whole_run:
  "\<lbrakk>worker_ok a t w; on_time a ps; \<forall>p \<in> set ps. whole_tcp p \<and> t \<le> ms_since a (in_time p);
    feed_all tcp_layer (map tcp_part ps) (w_tcp w) = Some (es, tcp); http_run es (w_http w) = Some (hs, h)\<rbrakk> \<Longrightarrow>
   \<exists>out w'. feed_all (worker_packet toIp) ps w = Some (out, w')"
proof (induction ps arbitrary: w t es hs)
  case (Cons p ps)
  obtain e1 tcp1 e2 where 1: "tcp_layer (tcp_part p) (w_tcp w) = Some (e1, tcp1)" and 2: "feed_all tcp_layer (map tcp_part ps) tcp1 = Some (e2, tcp)"
    and es: "es = e1 @ e2"
    using Cons.prems(4) by (auto simp: bind_eq_Some_conv)
  obtain h1 g1 g2 where h1: "http_run e1 (w_http w) = Some (g1, h1)" and h2: "http_run e2 h1 = Some (g2, h)"
    using Cons.prems(5) by (auto simp: es http_run_append split: option.splits)
  obtain o1 w1 where w1: "worker_packet toIp p w = Some (o1, w1)" "worker_ok a (ms_since a (in_time p)) w1" "w_tcp w1 = tcp1" "w_http w1 = h1"
    using whole_step[OF Cons.prems(1) _ _ _ _ _ 1 h1, of toIp] Cons.prems(2,3) unfolding on_time_def by (metis list.set_intros(1))
  have "on_time a ps" "\<forall>x \<in> set ps. whole_tcp x \<and> ms_since a (in_time p) \<le> ms_since a (in_time x)"
    using Cons.prems(2,3) by (auto simp: on_time_def)
  from Cons.IH[OF w1(2) this, of e2 g2] 2 h2 w1 show ?case by auto
qed simp

section \<open>One connection\<close>

text \<open>The packets of the moves, and the callbacks they cause.\<close>

definition talk :: "tuple4 \<Rightarrow> nat \<Rightarrow> (move \<times> input) list \<Rightarrow> (timeval \<times> tcp_event) list" where
  "talk a i ms = concat (map (\<lambda>(m, p). map (Pair (in_time p)) (said i a m)) ms)"

lemma dialogue_run:
  "\<lbrakk>alone b a x s; established c v k w n x; dialogue c v a n k w (map (\<lambda>(m, p). (m, in_data p)) ms); k \<le> n; n < 2 ^ 31; a \<noteq> t4_reversed a;
    \<forall>p \<in> snd ` set ms. tv_sec (in_time p) < b \<and> b \<le> tv_sec (in_time p) + 30\<rbrakk> \<Longrightarrow>
   \<exists>s'. feed_all tcp_layer (map tcp_part (map snd ms)) s = Some (talk a (s_id x) ms, s')"
proof (induction ms arbitrary: x s k w n)
  case Nil
  then show ?case by (simp add: talk_def)
next
  case (Cons mp ms)
  obtain m p where mp: "mp = (m, p)" by (cases mp)
  have t: "tv_sec (in_time p) < b" "b \<le> tv_sec (in_time p) + 30"
    using Cons.prems(7) mp by simp_all
  have d: "dialogue c v a n k w ((m, in_data p) # map (\<lambda>(m, p). (m, in_data p)) ms)"
    using Cons.prems(3) mp by simp
  obtain x' s' k' w' n' where "processTcp (in_data p) (skblen_of False (in_data p)) (in_time p) s = (said (s_id x) a m, s')"
      "alone b a x' s'" "s_id x' = s_id x" "established c v k' w' n' x'" "dialogue c v a n' k' w' (map (\<lambda>(m, p). (m, in_data p)) ms)" "k' \<le> n'" "n' < 2 ^ 31"
    by (rule dialogue_step[OF Cons.prems(1,2) d t Cons.prems(6,4,5)])
  moreover have "\<forall>p \<in> snd ` set ms. tv_sec (in_time p) < b \<and> b \<le> tv_sec (in_time p) + 30"
    using Cons.prems(7) by simp
  moreover note Cons.IH[OF calculation(2,4-7) Cons.prems(6) calculation(8)]
  then obtain s'' where "feed_all tcp_layer (map tcp_part (map snd ms)) s' = Some (talk a (s_id x') ms, s'')"
    by blast
  ultimately show ?case
    by (simp add: mp tcp_layer_part talk_def del: tcp_layer.simps)
qed

lemma connection_run:
  assumes d: "three_way c v win a (in_data p1) (in_data p2) (in_data p3) wins" "dialogue c v a 0 0 win (map (\<lambda>(m, p). (m, in_data p)) ms)"
    and a: "a \<noteq> t4_reversed a" and s: "empty_table b s" "no_urgent s"
    and t: "\<forall>p \<in> {p1, p2, p3} \<union> snd ` set ms. tv_sec (in_time p) < b \<and> b \<le> tv_sec (in_time p) + 30"
  shows "\<exists>i s'. feed_all tcp_layer (map tcp_part ([p1, p2, p3] @ map snd ms)) s = Some ((in_time p3, TcpConnected i a) # talk a i ms, s')"
proof -
  have t1: "tv_sec (in_time p1) < b" "b \<le> tv_sec (in_time p1) + 30" "tv_sec (in_time p2) < b" "tv_sec (in_time p3) < b"
    and t2: "\<forall>p \<in> snd ` set ms. tv_sec (in_time p) < b \<and> b \<le> tv_sec (in_time p) + 30"
    using t by auto
  show ?thesis
  proof (rule three_way_run[OF disjI1[OF s(1)] d(1) a t1])
    fix x s1 s2 s3
    assume 1: "processTcp (in_data p1) (skblen_of False (in_data p1)) (in_time p1) s = ([], s1)"
      "processTcp (in_data p2) (skblen_of False (in_data p2)) (in_time p2) s1 = ([], s2)"
      "processTcp (in_data p3) (skblen_of False (in_data p3)) (in_time p3) s2 = ([TcpConnected (s_id x) a], s3)"
      and x: "alone b a x s3" "no_urgent s \<Longrightarrow> established c v 0 win 0 x"
    obtain s' where "feed_all tcp_layer (map tcp_part (map snd ms)) s3 = Some (talk a (s_id x) ms, s')"
      using dialogue_run[OF x(1) x(2)[OF s(2)] d(2) _ _ a t2] by auto
    with 1 show ?thesis
      by (intro exI[of _ "s_id x"] exI[of _ s']) (simp add: tcp_layer_part del: tcp_layer.simps)
  qed
qed

text \<open>The bytes of the client, segment by segment, with their times.\<close>

fun spoken :: "(move \<times> input) list \<Rightarrow> (timeval \<times> bytes) list" where
  "spoken [] = []"
| "spoken ((Says fl win data, p) # ms) = (in_time p, data) # spoken ms"
| "spoken ((Acks fl win j, p) # ms) = spoken ms"

lemma talk_spoken: "talk a i ms = map (\<lambda>(t, data). (t, TcpData i a data FROMCLIENT)) (spoken ms)"
  by (induction ms rule: spoken.induct) (simp_all add: talk_def)

lemma request_reports:
  "list_all2 (reports_request a t) rs hs \<Longrightarrow> hs = map RequestReport (requests hs) \<and> responses hs = []"
  by (induction rule: list_all2_induct) (auto simp: reports_request_def)

section \<open>Properties\<close>

text \<open>
  C6: From packets to records. A fresh worker is given, as unfragmented packets within 30 seconds
  and in the order of time, the handshake of a connection to port 80, and then segments of the client, each holding any number of whole
  requests, in the order of their sequence numbers and inside the window, with acknowledgements of the server
  anywhere between them. It does not end the process, and the request output is sent exactly one datagram per
  request, in order: the printed record with the connection's address, the time of
  its third segment, and the method, URL and headers of the request. Nothing is sent for responses.
\<close>

theorem requests_sent:
  assumes "three_way c v win a (in_data p1) (in_data p2) (in_data p3) wins" and "dialogue c v a 0 0 win (map (\<lambda>(m, p). (m, in_data p)) ms)"
    and "map snd (spoken ms) = map (\<lambda>rs. concat (map encode_request rs)) rss" and "list_all (list_all valid_request) rss"
    and "dest a = 80" and "a \<noteq> t4_reversed a" and "\<forall>i. \<not> h_urg_seen (snd (junk_half i))"
    and "\<forall>p \<in> set ([p1, p2, p3] @ map snd ms). whole_tcp p \<and> tv_sec (in_time p1) \<le> tv_sec (in_time p) \<and> tv_sec (in_time p) < tv_sec (in_time p1) + 30"
    and "on_time (tv_sec tv) ([p1, p2, p3] @ map snd ms)"
  shows "\<exists>out w qs. feed_all (worker_packet toIp) ([p1, p2, p3] @ map snd ms) (worker_init tv n xors perm junk_half junk_status) = Some (out, w) \<and>
    sent HttpRequestOutput out = map (onData (http_request_to_string toIp)) qs \<and>
    list_all2 (reports_request a (in_time p3)) (concat rss) (map RequestReport qs) \<and> sent HttpResponseOutput out = []"
proof -
  let ?ps = "[p1, p2, p3] @ map snd ms" and ?w = "worker_init tv n xors perm junk_half junk_status"
  let ?tcp = "TcpFragment_init xors perm junk_half" and ?b = "tv_sec (in_time p1) + 30"
  have "empty_table ?b ?tcp" "no_urgent ?tcp"
    using assms(7) by (simp_all add: TcpFragment_init_def tcpInit_def empty_table_def no_urgent_def quiet_def)
  moreover have "\<forall>p \<in> {p1, p2, p3} \<union> snd ` set ms. tv_sec (in_time p) < ?b \<and> ?b \<le> tv_sec (in_time p) + 30"
    using assms(8) by auto
  ultimately obtain i s' where tcp: "feed_all tcp_layer (map tcp_part ?ps) ?tcp = Some ((in_time p3, TcpConnected i a) # talk a i ms, s')"
    using connection_run[OF assms(1,2,6)] by blast
  let ?segs = "zip (map fst (spoken ms)) rss"
  have len: "length rss = length (spoken ms)"
    using arg_cong[OF assms(3), of length] by simp
  have "spoken ms = zip (map fst (spoken ms)) (map snd (spoken ms))"
    by (simp add: zip_map_fst_snd)
  also have "\<dots> = map (\<lambda>(t, rs). (t, concat (map encode_request rs))) ?segs"
    unfolding assms(3) by (simp add: zip_map2)
  finally have spoken: "spoken ms = map (\<lambda>(t, rs). (t, concat (map encode_request rs))) ?segs" .
  have talk: "talk a i ms = map (\<lambda>(t, rs). (t, TcpData i a (concat (map encode_request rs)) FROMCLIENT)) ?segs"
    unfolding talk_spoken by (subst spoken) (simp add: case_prod_beta comp_def)
  obtain h1 where h1: "onTcpConnection a (in_time p3) (Http_init junk_status) = Some ([], h1)" "client_ready a (in_time p3) h1"
    using connection_ready[of a "Http_init junk_status" "in_time p3"] assms(5) by (auto simp: Http_init_def)
  have "list_all (\<lambda>(t', rs). list_all valid_request rs) ?segs" "concat (map snd ?segs) = concat rss"
    using assms(4) len by (auto simp: list_all_iff dest: set_zip_rightD)
  with requests_run[OF assms(5) h1(2), of ?segs i] talk obtain hs h' where
    http: "http_run (talk a i ms) h1 = Some (hs, h')" "list_all2 (reports_request a (in_time p3)) (concat rss) hs"
    by auto
  with h1(1) have run: "http_run ((in_time p3, TcpConnected i a) # talk a i ms) (Http_init junk_status) = Some (hs, h')"
    by simp
  have "\<forall>p \<in> set ?ps. whole_tcp p \<and> - (2 ^ 31) \<le> ms_since (tv_sec tv) (in_time p)"
    using assms(8,9) by (auto simp: on_time_def)
  moreover have init: "w_tcp ?w = ?tcp" "w_http ?w = Http_init junk_status"
    by (simp_all add: worker_init_def)
  ultimately obtain out w where w: "feed_all (worker_packet toIp) ?ps ?w = Some (out, w)"
    using whole_run[OF worker_init_ok assms(9) _ tcp[folded init(1)] run[folded init(2)]] by blast
  obtain ips where ips: "feed_all ip_layer ?ps (w_ip ?w) = Some (ips, w_ip w)" "explains toIp ips ?w out w"
    using worker_run_explained[OF w] by blast
  have "tcp_packets ips = map tcp_part ?ps"
    by (rule whole_ips[OF _ ips(1)]) (use assms(8) in blast)
  with ips(2) obtain es where "feed_all tcp_layer (map tcp_part ?ps) ?tcp = Some (es, w_tcp w)" "http_explains toIp es (Http_init junk_status) out (w_http w)"
    unfolding explains_def tcp_explains_def init by auto
  with tcp have "http_explains toIp ((in_time p3, TcpConnected i a) # talk a i ms) (Http_init junk_status) out (w_http w)"
    by (simp only: option.inject prod.inject)
  with run have "sent HttpRequestOutput out = map (onData (http_request_to_string toIp)) (requests hs)"
    "sent HttpResponseOutput out = map (onData (http_response_to_string toIp)) (responses hs)"
    unfolding http_explains_def http_run_feed by auto
  with w http(2) request_reports[OF http(2)] show ?thesis by auto
qed

text \<open>A handshake, two requests in one segment, the server's acknowledgement, and a third request.\<close>

definition client_packet :: "u8 \<Rightarrow> bytes \<Rightarrow> bytes" where
  "client_packet sq data =
     [0x45, 0, 0, 40 + of_nat (length data), 0, 0, 0, 0, 64, 6, 0, 0, 10, 0, 0, 1, 10, 0, 0, 2, 4, 0, 0, 80, 0, 0, 0, sq, 0, 0, 0, 201, 0x50, 24, 16, 0, 0, 0, 0, 0] @ data"

definition first_data :: bytes where
  "first_data = concat (map encode_request sample_requests)"

definition last_request :: "request list" where
  "last_request = [(HTTP_GET, bytes_of ''/'', [])]"

definition last_data :: bytes where
  "last_data = concat (map encode_request last_request)"

definition sample_talk :: "(move \<times> input) list" where
  "sample_talk = [(Says 24 4096 first_data, sample_input (client_packet 101 first_data) 6),
     (Acks 16 4096 55, sample_input (sample_segment False 201 156 16) 6), (Says 24 4096 last_data, sample_input (client_packet 156 last_data) 7)]"

lemma sample_data:
  "length first_data = 55" "length last_data = 18" "first_data \<noteq> []" "last_data \<noteq> []"
  "tcp_segment (client_packet 101 first_data) sample_addr 101 201 24 4096 first_data"
  "tcp_segment (sample_segment False 201 156 16) (t4_reversed sample_addr) 201 156 16 4096 []"
  "tcp_segment (client_packet 156 last_data) sample_addr 156 201 24 4096 last_data"
  "plain_flags 24" "plain_flags 16"
  by code_simp+

lemma sample_dialogue: "dialogue 100 200 sample_addr 0 0 4096 (map (\<lambda>(m, p). (m, in_data p)) sample_talk)"
  using sample_data segment_flags(7) by (simp add: sample_talk_def sample_input_def)

definition whole_bytes :: "bytes \<Rightarrow> bool" where
  "whole_bytes d \<longleftrightarrow> (case ip_view d of None \<Rightarrow> False | Some iph \<Rightarrow>
     valid_ip iph (int (length d)) \<and> \<not> is_fragment iph \<and> ip_p iph = IPPROTO_TCP \<and> 4 * ip_hl iph + 20 \<le> length d)"

lemma whole_sample: "whole_tcp (sample_input d t) = whole_bytes d"
  by (simp add: whole_tcp_def whole_bytes_def sample_input_def split: option.split)

lemma sample_whole:
  "whole_bytes (sample_segment True 100 0 2)" "whole_bytes (sample_segment False 200 101 18)" "whole_bytes (sample_segment True 101 201 16)"
  "whole_bytes (client_packet 101 first_data)" "whole_bytes (sample_segment False 201 156 16)" "whole_bytes (client_packet 156 last_data)"
  by code_simp+

lemma last_request_valid: "list_all valid_request last_request"
proof -
  have "valid_url (bytes_of ''/'')"
    by code_simp
  then show ?thesis
    by (simp add: last_request_def valid_request_def encode_request_def request_line_def http_method_str_def bytes_of_def HTTP_MAX_HEADER_SIZE_def)
qed

lemma requests_sent_witness:
  "\<exists>out w qs. feed_all (worker_packet inet_ntop) ([sample_input (sample_segment True 100 0 2) 5, sample_input (sample_segment False 200 101 18) 5,
       sample_input (sample_segment True 101 201 16) 5] @ map snd sample_talk) fresh_worker = Some (out, w) \<and>
     sent HttpRequestOutput out = map (onData (http_request_to_string inet_ntop)) qs \<and>
     list_all2 (reports_request sample_addr \<lparr>tv_sec = 5, tv_usec = 0\<rparr>) (sample_requests @ last_request) (map RequestReport qs) \<and> sent HttpResponseOutput out = []"
proof -
  let ?p1 = "sample_input (sample_segment True 100 0 2) 5" and ?p2 = "sample_input (sample_segment False 200 101 18) 5"
    and ?p3 = "sample_input (sample_segment True 101 201 16) 5"
  have d: "three_way 100 200 4096 sample_addr (in_data ?p1) (in_data ?p2) (in_data ?p3) (4096, 4096)"
    using sample_opening by (simp add: sample_input_def)
  have spoken: "map snd (spoken sample_talk) = map (\<lambda>rs. concat (map encode_request rs)) [sample_requests, last_request]"
    by (simp add: sample_talk_def first_data_def last_data_def)
  have valid: "list_all (list_all valid_request) [sample_requests, last_request]"
    using sample_requests_valid last_request_valid by simp
  have addr: "dest sample_addr = 80" "sample_addr \<noteq> t4_reversed sample_addr"
    by (simp_all add: sample_addr_def t4_reversed_def)
  have urg: "\<forall>i :: nat. \<not> h_urg_seen (snd (sample_half, sample_half))"
    by (simp add: sample_half_def)
  have time: "in_time (sample_input x t) = \<lparr>tv_sec = t, tv_usec = 0\<rparr>" for x t
    by (simp add: sample_input_def)
  have whole: "\<forall>p \<in> set ([?p1, ?p2, ?p3] @ map snd sample_talk). whole_tcp p \<and> tv_sec (in_time ?p1) \<le> tv_sec (in_time p) \<and>
      tv_sec (in_time p) < tv_sec (in_time ?p1) + 30"
    using sample_whole by (simp add: sample_talk_def whole_sample time)
  have "on_time (tv_sec \<lparr>tv_sec = 4, tv_usec = 0\<rparr>) ([?p1, ?p2, ?p3] @ map snd sample_talk)"
    by (simp add: sample_talk_def on_time_def ms_since_def time c_div_def)
  from requests_sent[OF d sample_dialogue spoken valid addr urg whole this, of inet_ntop 3001 "[]" "[]" "\<lambda>_. 0"]
  show ?thesis
    by (simp add: fresh_worker_def time)
qed

end
