(* ===== verification/Http_Response.thy ===== *)
theory Http_Response
  imports Http_Message
begin

text \<open>
  What the handler of \<open>app/http/Http.cc\<close> reports of the response of a server: the status line, the
  header lines by the lemmas of \<open>Http_Lines\<close>, and a body that ends with the connection.
\<close>

section \<open>Responses\<close>

type_synonym response = "nat \<times> bytes \<times> (bytes \<times> bytes) list"

definition status_line :: "nat \<Rightarrow> bytes \<Rightarrow> bytes" where
  "status_line code reason = bytes_of ''HTTP/1.1'' @ [byte_of CHR '' ''] @ map (\<lambda>d. 48 + of_nat d) [code div 100, code div 10 mod 10, code mod 10] @
     [byte_of CHR '' ''] @ reason @ [CR, LF]"

definition status_read :: "nat \<Rightarrow> bytes \<Rightarrow> http_app \<Rightarrow> http_app" where
  "status_read code reason = (if reason = [] then (\<lambda>a. a) else
     on_response (\<lambda>r. r\<lparr>hs_statusCode := int code, hs_status := reason, hs_bytes := hs_bytes r + int (length reason)\<rparr>))"

lemma digits: "d < 10 \<Longrightarrow> IS_NUM (48 + of_nat d) \<and> digit (48 + of_nat d) = of_nat d"
proof -
  have "list_all (\<lambda>d. IS_NUM (48 + of_nat d) \<and> digit (48 + of_nat d) = of_nat d) [0..<10]"
    by code_simp
  then show "d < 10 \<Longrightarrow> IS_NUM (48 + of_nat d) \<and> digit (48 + of_nat d) = of_nat d"
    by (simp add: list_all_iff)
qed

lemma code_word:
  assumes "n < 1000"
  shows "\<not> (of_nat n :: u16) > 999" and "unat (of_nat n :: u16) = n"
proof -
  show "unat (of_nat n :: u16) = n"
    using assms by (simp add: unat_of_nat take_bit_nat_eq_self)
  with assms show "\<not> (of_nat n :: u16) > 999"
    by (simp add: word_less_nat_alt)
qed

lemma walk_code:
  assumes "state c = s_res_first_status_code" and "code < 1000"
  shows "walk S data (map (\<lambda>d. 48 + of_nat d) [code div 100, code div 10 mod 10, code mod 10]) c =
    Some (after_chars 3 (c\<lparr>status_code := of_nat code, state := s_res_status_code\<rparr>))"
proof -
  have d: "code div 100 < 10" "code div 10 mod 10 < 10" "code mod 10 < 10"
    using assms(2) by simp_all
  have s: "(of_nat (code div 100) :: u16) * 10 + of_nat (code div 10 mod 10) = of_nat (code div 10)"
    "(of_nat (code div 10) :: u16) * 10 + of_nat (code mod 10) = of_nat code"
  proof -
    have word: "(of_nat n :: u16) * 10 + of_nat m = of_nat (n * 10 + m)" for n m
      by simp
    have "code div 100 * 10 + code div 10 mod 10 = code div 10" "code div 10 * 10 + code mod 10 = code"
      using div_mult2_eq[of code 10 10] div_mult_mod_eq[of "code div 10" 10] by simp_all
    then show "(of_nat (code div 100) :: u16) * 10 + of_nat (code div 10 mod 10) = of_nat (code div 10)"
      "(of_nat (code div 10) :: u16) * 10 + of_nat (code mod 10) = of_nat code"
      unfolding word by simp_all
  qed
  have w: "\<not> (of_nat (code div 10) :: u16) > 999" "\<not> (of_nat code :: u16) > 999"
    using code_word(1)[of "code div 10"] code_word(1)[of code] assms(2) by simp_all
  show ?thesis
    unfolding list.map
    using assms(1) digits[OF d(1)] digits[OF d(2)] digits[OF d(3)] s w
    by (simp add: PARSING_HEADER_def exec_state_def at_res_first_status_code_def at_res_status_code_def after_chars_def)
qed

lemma walk_response_version:
  assumes "state c = s_start_res" and "http_errno c = HPE_OK" and "on_message_begin S = None"
  shows "walk S data (bytes_of ''HTTP/1.1'' @ [byte_of CHR '' '']) c =
    Some (after_chars 9 (c\<lparr>flags := 0, content_length := ULLONG_MAX, http_major := 1, http_minor := 1, state := s_res_first_status_code\<rparr>))"
  using assms
  by (simp add: version_bytes PARSING_HEADER_def exec_state_def at_start_res_def callback_defs callback_notify_def at_literal_def STRICT_CHECK_def
      at_first_http_major_def at_http_major_def at_first_http_minor_def at_res_http_minor_def after_chars_def Let_def)

lemma status_callback:
  assumes "p_type c = HTTP_RESPONSE" and "http_errno c = HPE_OK" and "marks c Status = Some p" and "p \<le> pos c" and "pos c \<le> length data"
    and "take (pos c - p) (drop p data) = reason" and "status_code c = of_nat code" and "code < 1000" and "reason \<noteq> []"
  shows "CALLBACK_DATA settings data Status c k = k (c\<lparr>app := status_read code reason (app c), marks := (marks c)(Status := None)\<rparr>)"
proof -
  have "uint (of_nat code :: u16) = int code"
    using code_word(2)[OF assms(8)] by (metis uint_nat)
  with assms show ?thesis
    by (simp add: callback_defs callback_data_def settings_def onStatus_def HttpParser.truncate_def status_read_def)
qed

lemma walk_reason_chars:
  "\<lbrakk>state c = s_res_status; list_all (\<lambda>ch. ch \<noteq> CR \<and> ch \<noteq> LF) rs\<rbrakk> \<Longrightarrow> walk S data rs c = Some (after_chars (length rs) c)"
  by (induction rs arbitrary: c) (simp_all add: PARSING_HEADER_def exec_state_def at_res_status_def after_chars_def algebra_simps)

lemma walk_line_feed:
  assumes "state c = s_res_line_almost_done"
  shows "walk S data [LF] c = Some (after_chars 1 (c\<lparr>state := s_header_field_start\<rparr>))"
  using assms by (simp add: PARSING_HEADER_def exec_state_def at_literal_def STRICT_CHECK_def after_chars_def)

lemma walk_reason:
  assumes c: "state c = s_res_status_start" "p_type c = HTTP_RESPONSE" "http_errno c = HPE_OK" "marks c = (\<lambda>_. None)" "status_code c = of_nat code" "code < 1000"
    and reason: "list_all (\<lambda>ch. ch \<noteq> CR \<and> ch \<noteq> LF) reason" and input: "drop (pos c) data = reason @ CR # rest"
  shows "\<exists>i. walk settings data (reason @ [CR]) c =
    Some (after_chars (length reason + 1) (c\<lparr>state := s_res_line_almost_done, index := i, app := status_read code reason (app c)\<rparr>))"
proof (cases reason)
  case Nil
  have "walk settings data [CR] c = Some (after_chars 1 (c\<lparr>state := s_res_line_almost_done\<rparr>))"
    using c(1) by (simp add: PARSING_HEADER_def exec_state_def at_res_status_start_def after_chars_def)
  with Nil show ?thesis
    by (intro exI[of _ "index c"]) (simp add: status_read_def del: walk.simps)
next
  case (Cons ch rs)
  let ?c = "c\<lparr>nread := nread c + 1, marks := (\<lambda>_. None)(Status := Some (pos c)), state := s_res_status, index := 0, pos := pos c + 1\<rparr>"
  let ?d = "after_chars (length rs) ?c"
  have "walk settings data (reason @ [CR]) c = walk settings data (rs @ [CR]) ?c"
    using c reason Cons by (simp add: PARSING_HEADER_def exec_state_def at_res_status_start_def MARK_def)
  also have "\<dots> = walk settings data [CR] ?d"
    using walk_reason_chars[of ?c rs settings data] reason Cons by (simp add: walk_append del: walk.simps)
  also have "\<dots> = Some (after_chars (length reason + 1) (c\<lparr>state := s_res_line_almost_done, index := 0, app := status_read code reason (app c)\<rparr>))"
  proof -
    have long: "length data = pos c + length reason + 1 + length rest"
      using arg_cong[OF input, of length] by simp
    have "take (length reason) (drop (pos c) data) = reason"
      using input by simp
    then have "CALLBACK_DATA settings data Status (?d\<lparr>nread := nread ?d + 1, state := s_res_line_almost_done\<rparr>) Next =
        Next (?d\<lparr>nread := nread ?d + 1, state := s_res_line_almost_done, app := status_read code reason (app c), marks := \<lambda>_. None\<rparr>)"
      using c Cons long by (subst status_callback[where p = "pos c" and reason = reason and code = code]) (auto simp: after_chars_def)
    then have "exec_state settings data CR (?d\<lparr>nread := nread ?d + 1\<rparr>) =
        Next (?d\<lparr>nread := nread ?d + 1, state := s_res_line_almost_done, app := status_read code reason (app c), marks := \<lambda>_. None\<rparr>)"
      by (simp add: after_chars_def exec_state_def at_res_status_def)
    then show ?thesis
      using c(4) Cons by (simp add: after_chars_def algebra_simps PARSING_HEADER_def)
  qed
  finally show ?thesis by blast
qed

lemma walk_trans: "walk S data xs c = Some c1 \<Longrightarrow> walk S data ys c1 = r \<Longrightarrow> walk S data (xs @ ys) c = r"
  by (simp add: walk_append)

lemma status_line_read:
  assumes c: "state c = s_start_res" "p_type c = HTTP_RESPONSE" "http_errno c = HPE_OK" "marks c = (\<lambda>_. None)" and code: "code < 1000"
    and reason: "list_all (\<lambda>ch. ch \<noteq> CR \<and> ch \<noteq> LF) reason" and input: "drop (pos c) data = status_line code reason @ rest"
  shows "\<exists>c'. walk settings data (status_line code reason) c = Some c' \<and> line_at HTTP_RESPONSE s_header_field_start (status_read code reason (app c)) c' \<and>
    p_method c' = p_method c \<and> status_code c' = of_nat code"
proof -
  let ?ds = "map (\<lambda>d. 48 + of_nat d) [code div 100, code div 10 mod 10, code mod 10] :: bytes"
  let ?a = "after_chars 9 (c\<lparr>flags := 0, content_length := ULLONG_MAX, http_major := 1, http_minor := 1, state := s_res_first_status_code\<rparr>)"
  let ?b = "after_chars 3 (?a\<lparr>status_code := of_nat code, state := s_res_status_code\<rparr>)"
  let ?c = "after_chars 1 (?b\<lparr>state := s_res_status_start\<rparr>)"
  have 1: "walk settings data (bytes_of ''HTTP/1.1'' @ [byte_of CHR '' '']) c = Some ?a"
    using c by (intro walk_response_version) (simp_all add: settings_def)
  have 2: "walk settings data ?ds ?a = Some ?b"
    by (rule walk_code) (simp_all add: after_chars_def code)
  have 3: "walk settings data [byte_of CHR '' ''] ?b = Some ?c"
    using version_bytes by (simp add: after_chars_def PARSING_HEADER_def exec_state_def at_res_status_code_def IS_NUM_def)
  have "length (bytes_of ''HTTP/1.1'' @ [byte_of CHR '' ''] @ ?ds @ [byte_of CHR '' '']) = 13"
    by (simp add: bytes_of_def)
  moreover have "drop (pos c + length (bytes_of ''HTTP/1.1'' @ [byte_of CHR '' ''] @ ?ds @ [byte_of CHR '' ''])) data = reason @ CR # LF # rest"
    by (rule drop_more) (simp add: input status_line_def)
  moreover have "pos ?c = pos c + 13"
    by (simp add: after_chars_def)
  ultimately have in1: "drop (pos ?c) data = reason @ CR # (LF # rest)"
    by metis
  obtain i where 4: "walk settings data (reason @ [CR]) ?c =
      Some (after_chars (length reason + 1) (?c\<lparr>state := s_res_line_almost_done, index := i, app := status_read code reason (app ?c)\<rparr>))"
    using walk_reason[of ?c code reason data "LF # rest"] c code reason in1 by (auto simp: after_chars_def)
  have 5: "walk settings data [LF] (after_chars (length reason + 1) (?c\<lparr>state := s_res_line_almost_done, index := i, app := status_read code reason (app ?c)\<rparr>)) =
      Some (after_chars 1 ((after_chars (length reason + 1) (?c\<lparr>state := s_res_line_almost_done, index := i, app := status_read code reason (app ?c)\<rparr>))
        \<lparr>state := s_header_field_start\<rparr>))"
    by (rule walk_line_feed) (simp add: after_chars_def)
  have "status_line code reason = (bytes_of ''HTTP/1.1'' @ [byte_of CHR '' '']) @ ?ds @ [byte_of CHR '' ''] @ (reason @ [CR]) @ [LF]"
    by (simp add: status_line_def)
  moreover note walk_trans[OF 1 walk_trans[OF 2 walk_trans[OF 3 walk_trans[OF 4 5]]]]
  ultimately show ?thesis
    using c by (auto simp: line_at_def after_chars_def)
qed

definition valid_response :: "response \<Rightarrow> bool" where
  "valid_response = (\<lambda>(code, reason, hs). code < 1000 \<and> code div 100 \<noteq> 1 \<and> code \<noteq> 204 \<and> code \<noteq> 304 \<and>
     list_all (\<lambda>ch. ch \<noteq> CR \<and> ch \<noteq> LF) reason \<and> list_all valid_header hs \<and>
     length (status_line code reason @ concat (map header_line hs) @ [CR, LF]) \<le> HTTP_MAX_HEADER_SIZE)"

definition encode_response :: "response \<Rightarrow> bytes" where
  "encode_response = (\<lambda>(code, reason, hs). status_line code reason @ concat (map header_line hs) @ [CR, LF])"

definition response_reported :: "http_app \<Rightarrow> http_app" where
  "response_reported a = on_response (\<lambda>r. r\<lparr>hs_headers := Map.empty, hs_bytes := 0\<rparr>) (emit (ResponseReport (currentHttpResponse a)) a)"

definition response_app :: "response \<Rightarrow> http_app \<Rightarrow> http_app" where
  "response_app = (\<lambda>(code, reason, hs) a. response_reported (fold (header_read HTTP_RESPONSE) hs (status_read code reason a)))"

text \<open>The headers are complete and the body ends with the connection.\<close>

definition in_body :: "http_app \<Rightarrow> http_app exec \<Rightarrow> bool" where
  "in_body a c \<longleftrightarrow> state c = s_body_identity_eof \<and> app c = a \<and> p_type c = HTTP_RESPONSE \<and> http_errno c = HPE_OK \<and> marks c = (\<lambda>_. None)"

lemma response_end:
  assumes c: "at_line HTTP_RESPONSE a c" and input: "drop (pos c) data = CR # LF # rest" and room: "room 2 c"
    and start: "p_method c \<noteq> HTTP_CONNECT" "status_code c = of_nat code" "code < 1000" "code div 100 \<noteq> 1" "code \<noteq> 204" "code \<noteq> 304"
  shows "\<exists>c'. exec_loop settings data False c = exec_loop settings data False c' \<and> drop (pos c') data = rest \<and> in_body (response_reported a) c'"
proof -
  obtain c1 where c1: "exec_loop settings data False c = exec_loop settings data True c1" "drop (pos c1) data = LF # rest"
      "line_at HTTP_RESPONSE s_headers_almost_done a c1" "same_start c c1"
    using empty_line_read[OF c input room] by blast
  let ?d = "c1\<lparr>app := response_reported a, state := s_headers_done, upgrade := False\<rparr>"
  have "exec_state settings data LF c1 = Again ?d"
    using c1(3,4) start(1)
    by (simp add: line_at_def same_start_def exec_state_def at_headers_almost_done_def STRICT_CHECK_def headers_complete_def settings_def
        onHeadersComplete_def HttpParser.truncate_def response_reported_def Let_def)
  then have 1: "exec_loop settings data True c1 = exec_loop settings data True ?d"
    by (rule again_turn[OF c1(2)])
  have code: "(of_nat code :: u16) div 100 \<noteq> 1" "(of_nat code :: u16) \<noteq> 204" "(of_nat code :: u16) \<noteq> 304"
  proof -
    have u: "unat ((of_nat code :: u16) div 100) = code div 100" "unat (of_nat code :: u16) = code"
      using code_word(2)[OF start(3)] by (simp_all add: unat_div)
    have n: "unat (1 :: u16) = 1" "unat (204 :: u16) = 204" "unat (304 :: u16) = 304"
      by simp_all
    show "(of_nat code :: u16) div 100 \<noteq> 1" "(of_nat code :: u16) \<noteq> 204" "(of_nat code :: u16) \<noteq> 304"
      using u n start(4-6) by metis+
  qed
  let ?e = "?d\<lparr>nread := 0, state := s_body_identity_eof\<rparr>"
  have "http_message_needs_eof (?d\<lparr>nread := 0\<rparr>)"
    using c1(3,4) start(2) code by (simp add: http_message_needs_eof_def line_at_def same_start_def)
  then have "exec_state settings data LF ?d = Next ?e"
    using c1(3) by (simp add: line_at_def exec_state_def at_headers_done_def STRICT_CHECK_def Let_def ULLONG_MAX_def)
  then have 2: "exec_loop settings data True ?d = exec_loop settings data False (?e\<lparr>pos := pos ?e + 1\<rparr>)"
    using next_turn[of ?d data LF rest settings ?e] c1(2) by simp
  have "drop (pos (?e\<lparr>pos := pos ?e + 1\<rparr>)) data = rest"
    using drop_more[of "pos c1" data "[LF]" rest] c1(2) by simp
  with 1 2 c1(1,3) show ?thesis
    by (intro exI[of _ "?e\<lparr>pos := pos ?e + 1\<rparr>"]) (simp add: in_body_def line_at_def)
qed

text \<open>The rest of the input is body, for which no callback is registered.\<close>

lemma body_read:
  assumes "in_body a c" and "exec_loop settings data False c = Some r"
  shows "\<exists>c'. exec_loop settings data False c = Some (length data, c') \<and> in_body a c'"
proof (cases "pos c < length data")
  case True
  let ?c = "c\<lparr>marks := (\<lambda>_. None)(Body := Some (pos c)), pos := length data\<rparr>"
  have last: "Suc (length data - Suc 0) = length data"
    using True by simp
  have "exec_turn settings data False c = Next (?c\<lparr>pos := length data - 1\<rparr>)"
    using assms(1) True by (simp add: in_body_def exec_turn_def PARSING_HEADER_def exec_state_def at_body_identity_eof_def MARK_def)
  then have "exec_loop settings data False c = exec_loop settings data False ?c"
    using True last by (subst exec_loop.simps) simp
  also have "\<dots> = Some (length data, ?c\<lparr>marks := \<lambda>_. None\<rparr>)"
    using assms(1) by (subst exec_loop.simps) (simp add: exec_finish_def callback_defs callback_data_def in_body_def settings_def)
  finally show ?thesis
    using assms(1) by (intro exI[of _ "?c\<lparr>marks := \<lambda>_. None\<rparr>"]) (simp add: in_body_def)
next
  case False
  then have "drop (pos c) data = []" by simp
  then have "pos c = length data"
    by (rule loop_past_end[OF assms(2)])
  with assms(1) have "exec_loop settings data False c = Some (length data, c)"
    by (intro loop_end) (simp_all add: in_body_def)
  with assms(1) show ?thesis by blast
qed

lemma response_read:
  assumes c: "state c = s_start_res" "p_type c = HTTP_RESPONSE" "http_errno c = HPE_OK" "marks c = (\<lambda>_. None)" "nread c = 0" "p_method c \<noteq> HTTP_CONNECT"
    and "valid_response r" and input: "drop (pos c) data = encode_response r @ rest"
  shows "\<exists>c'. exec_loop settings data False c = exec_loop settings data False c' \<and> drop (pos c') data = rest \<and> in_body (response_app r (app c)) c'"
proof -
  obtain code reason hs where r: "r = (code, reason, hs)" by (cases r)
  let ?hs = "concat (map header_line hs)"
  have v: "code < 1000" "code div 100 \<noteq> 1" "code \<noteq> 204" "code \<noteq> 304" "list_all (\<lambda>ch. ch \<noteq> CR \<and> ch \<noteq> LF) reason" "list_all valid_header hs"
    using assms(7) r by (simp_all add: valid_response_def)
  have room: "room (length (status_line code reason) + (length ?hs + 2)) c"
    using assms(7) c(5) r by (simp add: valid_response_def room_def)
  have in0: "drop (pos c) data = status_line code reason @ ?hs @ CR # LF # rest"
    using input r by (simp add: encode_response_def)
  obtain c1 where w: "walk settings data (status_line code reason) c = Some c1" and
      c1: "line_at HTTP_RESPONSE s_header_field_start (status_read code reason (app c)) c1" "p_method c1 = p_method c" "status_code c1 = of_nat code"
    using status_line_read[OF c(1-4) v(1,5) in0] by blast
  have e1: "exec_loop settings data False c = exec_loop settings data False c1" "drop (pos c1) data = ?hs @ CR # LF # rest" "room (length ?hs + 2) c1"
    using walk_run[OF w in0 room] by blast+
  obtain c2 where c2: "exec_loop settings data False c1 = exec_loop settings data False c2" "drop (pos c2) data = CR # LF # rest" "room 2 c2"
      "at_line HTTP_RESPONSE (fold (header_read HTTP_RESPONSE) hs (status_read code reason (app c))) c2" "same_start c1 c2"
    using header_lines_read[OF _ _ v(6) e1(2,3)] c1(1) by (auto simp: at_line_def)
  from response_end[OF c2(4,2,3), of code] v(1-4) c(6) c1 c2(1,5) e1(1) r show ?thesis
    by (auto simp: same_start_def response_app_def)
qed

section \<open>The response of a connection\<close>

definition body_parser :: "HttpParser \<Rightarrow> bool" where
  "body_parser p \<longleftrightarrow> state p = s_body_identity_eof \<and> p_type p = HTTP_RESPONSE \<and> http_errno p = HPE_OK \<and> wf 0 p"

lemma execute_in_body:
  assumes p: "http_errno p = HPE_OK" "wf 0 p" and data: "data \<noteq> []"
    and body: "\<exists>c'. exec_loop settings data False ((begin_exec p a)\<lparr>marks := first_marks (state p)\<rparr>) = exec_loop settings data False c' \<and> in_body a' c'"
  shows "\<exists>n p'. http_parser_execute settings data p a = Some (n, p', a') \<and> body_parser p'"
proof -
  let ?c = "(begin_exec p a)\<lparr>marks := first_marks (state p)\<rparr>"
  obtain c' where c': "exec_loop settings data False ?c = exec_loop settings data False c'" "in_body a' c'"
    using body by blast
  obtain n p' x where e: "http_parser_execute settings data p a = Some (n, p', x)" and wf: "http_errno p' = HPE_OK \<Longrightarrow> wf 0 p'"
    using execute_safe[of p settings data a] p by metis
  then obtain r where r: "exec_loop settings data False ?c = Some r"
    using execute_loop[OF data p(1), of settings a] by (cases "exec_loop settings data False ?c") simp_all
  then obtain c'' where c'': "exec_loop settings data False c' = Some (length data, c'')" "in_body a' c''"
    using body_read[OF c'(2), of data r] c'(1) by auto
  have "http_parser_execute settings data p a = Some (length data, HttpParser.truncate c'', a')"
    using execute_loop[OF data p(1), of settings a] c'(1) c'' by (simp add: in_body_def)
  moreover have "body_parser (HttpParser.truncate c'')"
  proof -
    have "p' = HttpParser.truncate c''"
      using e calculation by simp
    with wf c''(2) show ?thesis
      unfolding body_parser_def in_body_def by (simp add: HttpParser.truncate_def)
  qed
  ultimately show ?thesis by blast
qed

lemma response_executed:
  assumes "valid_response r"
  shows "\<exists>n p'. http_parser_execute settings (encode_response r @ rest) (http_parser_init HTTP_RESPONSE) a = Some (n, p', response_app r a) \<and> body_parser p'"
proof -
  let ?p = "http_parser_init HTTP_RESPONSE"
  let ?c = "(begin_exec ?p a)\<lparr>marks := first_marks (state ?p)\<rparr>"
  have p: "state ?p = s_start_res" "p_type ?p = HTTP_RESPONSE" "http_errno ?p = HPE_OK" "nread ?p = 0" "p_method ?p \<noteq> HTTP_CONNECT"
    by (simp_all add: http_parser_init_def)
  have "first_marks s_start_res = (\<lambda>_. None)"
    by (rule ext) (simp add: first_marks_def)
  with p have c: "state ?c = s_start_res" "p_type ?c = HTTP_RESPONSE" "http_errno ?c = HPE_OK" "marks ?c = (\<lambda>_. None)" "nread ?c = 0"
      "p_method ?c \<noteq> HTTP_CONNECT" "app ?c = a" and input: "drop (pos ?c) (encode_response r @ rest) = encode_response r @ rest"
    by (simp_all add: begin_exec_def HttpParser.extend_def)
  have "encode_response r @ rest \<noteq> []"
    by (cases r) (simp add: encode_response_def)
  then show ?thesis
    using execute_in_body[of ?p "encode_response r @ rest" a "response_app r a"] p(3) http_parser_init_wf[of HTTP_RESPONSE]
      response_read[OF c(1-6) assms input] c(7) by auto
qed

lemma body_executed:
  assumes "body_parser p"
  shows "\<exists>n p'. http_parser_execute settings data p a = Some (n, p', a) \<and> body_parser p'"
proof (cases "data = []")
  case True
  have "HttpParser.truncate (begin_exec p a) = p" "app (begin_exec p a) = a" "state (begin_exec p a) = state p" "http_errno (begin_exec p a) = http_errno p"
    by (simp_all add: begin_exec_def HttpParser.truncate_def HttpParser.extend_def)
  with True assms show ?thesis
    by (simp add: http_parser_execute_def exec_eof_def body_parser_def callback_defs callback_notify_def settings_def)
next
  case False
  let ?c = "(begin_exec p a)\<lparr>marks := first_marks (state p)\<rparr>"
  have "first_marks s_body_identity_eof = (\<lambda>_. None)"
    by (rule ext) (simp add: first_marks_def)
  with assms have "in_body a ?c"
    by (simp add: in_body_def body_parser_def begin_exec_def HttpParser.extend_def)
  with False assms show ?thesis
    by (intro execute_in_body) (auto simp: body_parser_def)
qed

definition reports_response :: "tuple4 \<Rightarrow> timeval \<Rightarrow> int \<Rightarrow> response \<Rightarrow> http_output \<Rightarrow> bool" where
  "reports_response t4 t junk = (\<lambda>(code, reason, hs) out. \<exists>q. out = ResponseReport q \<and> hs_t4 q = t4 \<and> hs_timeStamp q = t \<and>
     hs_statusCode q = (if reason = [] then junk else int code) \<and> hs_status q = reason \<and> hs_headers q = header_map hs \<and>
     hs_bytes q = int (length reason + header_bytes hs))"

lemma response_headers_read:
  "\<exists>f. fold (header_read HTTP_RESPONSE) hs a = a\<lparr>currentHttpResponse := (currentHttpResponse a)\<lparr>
     hs_headers := hs_headers (currentHttpResponse a) ++ header_map hs,
     hs_bytes := hs_bytes (currentHttpResponse a) + int (header_bytes hs), hs_currentHeaderField := f\<rparr>\<rparr>"
proof (induction hs arbitrary: a)
  case Nil
  show ?case by (rule exI[of _ "hs_currentHeaderField (currentHttpResponse a)"]) (simp add: header_map_def header_bytes_def)
next
  case (Cons nv hs)
  obtain n v where nv: "nv = (n, v)" by (cases nv)
  obtain f where "fold (header_read HTTP_RESPONSE) hs (header_read HTTP_RESPONSE nv a) = (header_read HTTP_RESPONSE nv a)\<lparr>currentHttpResponse :=
     (currentHttpResponse (header_read HTTP_RESPONSE nv a))\<lparr>
     hs_headers := hs_headers (currentHttpResponse (header_read HTTP_RESPONSE nv a)) ++ header_map hs,
     hs_bytes := hs_bytes (currentHttpResponse (header_read HTTP_RESPONSE nv a)) + int (header_bytes hs), hs_currentHeaderField := f\<rparr>\<rparr>"
    using Cons.IH by blast
  then show ?case
    by (intro exI[of _ f]) (simp add: nv header_read_def value_read_def field_read_def on_response_def header_map_def header_bytes_def)
qed

lemma response_app_reports:
  "\<exists>out. outputs (response_app r (app_of (HttpDetail_init junk t4 t))) = [out] \<and> reports_response t4 t junk r out \<and>
    \<not> aborted (response_app r (app_of (HttpDetail_init junk t4 t)))"
proof -
  obtain code reason hs where r: "r = (code, reason, hs)" by (cases r)
  let ?a = "status_read code reason (app_of (HttpDetail_init junk t4 t))"
  obtain f where "fold (header_read HTTP_RESPONSE) hs ?a = ?a\<lparr>currentHttpResponse := (currentHttpResponse ?a)\<lparr>
     hs_headers := hs_headers (currentHttpResponse ?a) ++ header_map hs,
     hs_bytes := hs_bytes (currentHttpResponse ?a) + int (header_bytes hs), hs_currentHeaderField := f\<rparr>\<rparr>"
    using response_headers_read by blast
  with r show ?thesis
    by (simp add: response_app_def response_reported_def status_read_def on_response_def emit_def reports_response_def app_of_def
        HttpDetail_init_def HttpResponse_init_def)
qed

definition server_body :: "tuple4 \<Rightarrow> Http \<Rightarrow> bool" where
  "server_body t4 h \<longleftrightarrow> (\<exists>d. http_table h t4 = Some d \<and> body_parser (responseParser d))"

lemma server_body_data:
  assumes "server_body t4 h" and "dest t4 = 80"
  shows "\<exists>h'. http_onTcpData t4 data FROMSERVER h = Some ([], h') \<and> server_body t4 h'"
proof -
  obtain d where d: "http_table h t4 = Some d" "body_parser (responseParser d)"
    using assms(1) by (auto simp: server_body_def)
  obtain n p' where "http_parser_execute settings data (responseParser d) (app_of d) = Some (n, p', app_of d)" "body_parser p'"
    using body_executed[OF d(2)] by blast
  with d assms(2) show ?thesis
    by (simp add: http_onTcpData_def run_parser_def server_body_def FROMCLIENT_def FROMSERVER_def) (simp add: app_of_def)
qed

lemma server_body_run:
  assumes "dest t4 = 80"
  shows "server_body t4 h \<Longrightarrow> \<exists>h'. http_run (map (\<lambda>(t', b). (t', TcpData i t4 b FROMSERVER)) bodies) h = Some ([], h')"
proof (induction bodies arbitrary: h)
  case (Cons x bodies)
  obtain t' b where x: "x = (t', b)" by (cases x)
  obtain h1 where "http_onTcpData t4 b FROMSERVER h = Some ([], h1)" "server_body t4 h1"
    using server_body_data[OF Cons.prems assms] by blast
  with Cons.IH[of h1] x show ?case by auto
qed simp

text \<open>
  C13: The response of a server that ends its body with the connection is reported once. After a
  connection to port 80 is opened, a first segment that begins with a status line for HTTP/1.1 and
  header lines yields exactly one report, with the reason phrase, the headers under their
  lower-case names and the size; the bytes behind the headers and all further segments yield
  none. The status code is the one of the status line only if there is a reason phrase: without
  one, the report holds whatever the memory of the new connection held, because \<open>onStatus\<close> is not
  called.
\<close>

theorem http_response_reported:
  assumes "dest t4 = 80" and "http_table h t4 = None" and "valid_response r"
  shows "\<exists>out h'. http_run ((t, TcpConnected i t4) # (t1, TcpData i t4 (encode_response r @ body) FROMSERVER) #
      map (\<lambda>(t', b). (t', TcpData i t4 b FROMSERVER)) bodies) h = Some ([out], h') \<and> reports_response t4 t (memory h t4) r out"
proof -
  let ?d = "HttpDetail_init (memory h t4) t4 t"
  let ?h = "h\<lparr>http_table := (http_table h)(t4 \<mapsto> ?d)\<rparr>"
  obtain n p' where p': "http_parser_execute settings (encode_response r @ body) (http_parser_init HTTP_RESPONSE) (app_of ?d) = Some (n, p', response_app r (app_of ?d))"
      "body_parser p'"
    using response_executed[OF assms(3)] by blast
  obtain out where out: "outputs (response_app r (app_of ?d)) = [out]" "reports_response t4 t (memory h t4) r out" "\<not> aborted (response_app r (app_of ?d))"
    using response_app_reports by blast
  have "responseParser ?d = http_parser_init HTTP_RESPONSE"
    by (simp add: HttpDetail_init_def)
  with p' out assms(1) obtain h1 where h1: "http_onTcpData t4 (encode_response r @ body) FROMSERVER ?h = Some ([out], h1)" "server_body t4 h1"
    by (simp add: http_onTcpData_def run_parser_def server_body_def FROMCLIENT_def FROMSERVER_def)
  obtain h' where "http_run (map (\<lambda>(t', b). (t', TcpData i t4 b FROMSERVER)) bodies) h1 = Some ([], h')"
    using server_body_run[OF assms(1) h1(2)] by blast
  with h1(1) out(2) assms(1,2) show ?thesis
    by (simp add: onTcpConnection_def)
qed

definition sample_response :: response where
  "sample_response = (404, bytes_of ''Not Found'', [(bytes_of ''Content-Type'', bytes_of ''text/html'')])"

lemma sample_response_valid: "valid_response sample_response"
proof -
  have "valid_header (bytes_of ''Content-Type'', bytes_of ''text/html'')" "list_all (\<lambda>ch. ch \<noteq> CR \<and> ch \<noteq> LF) (bytes_of ''Not Found'')"
    by code_simp+
  then show ?thesis
    by (simp add: sample_response_def valid_response_def status_line_def header_line_def bytes_of_def HTTP_MAX_HEADER_SIZE_def)
qed

theorem http_response_reported_witness:
  "\<exists>out h'. http_run [(\<lparr>tv_sec = 7, tv_usec = 0\<rparr>, TcpConnected 0 \<lparr>source = 5000, dest = 80, saddr = 1, daddr = 2\<rparr>),
      (\<lparr>tv_sec = 8, tv_usec = 0\<rparr>, TcpData 0 \<lparr>source = 5000, dest = 80, saddr = 1, daddr = 2\<rparr> (encode_response sample_response @ [65, 66]) FROMSERVER),
      (\<lparr>tv_sec = 9, tv_usec = 0\<rparr>, TcpData 0 \<lparr>source = 5000, dest = 80, saddr = 1, daddr = 2\<rparr> [67] FROMSERVER)]
      (Http_init (\<lambda>_. 3)) = Some ([out], h') \<and>
    reports_response \<lparr>source = 5000, dest = 80, saddr = 1, daddr = 2\<rparr> \<lparr>tv_sec = 7, tv_usec = 0\<rparr> 3 sample_response out"
  using http_response_reported[of "\<lparr>source = 5000, dest = 80, saddr = 1, daddr = 2\<rparr>" "Http_init (\<lambda>_. 3)" sample_response "\<lparr>tv_sec = 7, tv_usec = 0\<rparr>" 0
    "\<lparr>tv_sec = 8, tv_usec = 0\<rparr>" "[65, 66]" "[(\<lparr>tv_sec = 9, tv_usec = 0\<rparr>, [67])]"]
    sample_response_valid by (simp add: Http_init_def del: http_run.simps)

end
