(* ===== verification/Http_Split.thy ===== *)
theory Http_Split
  imports Http_Message
begin

text \<open>
  Where TCP cuts a request matters to \<open>app/http/Http.cc\<close>: its callbacks assign what they are given
  instead of appending it. This theory follows a request whose segments part between a header name
  and its colon.
\<close>

section \<open>A header name cut off its colon\<close>

text \<open>The input ends behind a header name.\<close>

definition name_cut :: "http_app \<Rightarrow> http_app exec \<Rightarrow> bool" where
  "name_cut a c \<longleftrightarrow> state c = s_header_field \<and> app c = a \<and> p_type c = HTTP_REQUEST \<and> http_errno c = HPE_OK \<and>
     field_state (header_state c) \<and> recognised (header_state c) = h_general"

lemma no_mark: "\<lbrakk>http_errno c = HPE_OK; marks c f = None\<rbrakk> \<Longrightarrow> CALLBACK_DATA_NOADVANCE S data f c k = k c"
  by (simp add: callback_defs callback_data_def)

lemma finish_name:
  assumes c: "p_type c = HTTP_REQUEST" "http_errno c = HPE_OK" "pos c = length data" "app c = a"
    and m: "marks c = (\<lambda>_. None)(Header_field := Some p)" and p: "p \<le> length data" and name: "drop p data = name"
  shows "exec_loop settings data False c = Some (length data, c\<lparr>app := field_read HTTP_REQUEST name a, marks := \<lambda>_. None\<rparr>)"
proof -
  have "length data - p = length name"
    unfolding name[symmetric] by simp
  then have cb: "CALLBACK_DATA_NOADVANCE settings data Header_field c k = k (c\<lparr>app := field_read HTTP_REQUEST name a, marks := \<lambda>_. None\<rparr>)" for k
    using c m p name by (simp add: callback_defs callback_data_def settings_def onHeaderFiled_def HttpParser.truncate_def field_read_def)
  have "exec_finish settings data c = Return (length data) (c\<lparr>app := field_read HTTP_REQUEST name a, marks := \<lambda>_. None\<rparr>)"
    using m c(2) by (simp add: exec_finish_def cb no_mark)
  with c(3) show ?thesis
    by (subst exec_loop.simps) simp
qed

lemma cut_name_read:
  assumes c: "line_at HTTP_REQUEST s_header_field_start a c" and input: "drop (pos c) data = name"
    and name: "name \<noteq> []" "is_name name" "header_class (map TOKEN name) = h_general" and room: "room (length name + k) c"
  shows "\<exists>c'. exec_loop settings data True c = Some (length data, c') \<and> name_cut (field_read HTTP_REQUEST name a) c' \<and> room k c'"
proof -
  obtain n0 ns where n: "name = n0 # ns"
    using name(1) by (cases name) auto
  with name have t0: "TOKEN n0 \<noteq> 0" and ns: "is_name ns" and cls: "header_class (TOKEN n0 # map TOKEN ns) = h_general"
    by simp_all
  then have n0: "n0 \<noteq> CR" "n0 \<noteq> LF"
    using version_bytes by (auto simp: CR_def LF_def)
  let ?p = "pos c + 1"
  let ?d = "c\<lparr>marks := (\<lambda>_. None)(Header_field := Some (pos c)), index := 0, state := s_header_field, header_state := first_header_state (TOKEN n0), pos := ?p\<rparr>"
  have "exec_state settings data n0 c = Next (?d\<lparr>pos := pos c\<rparr>)"
    using c t0 n0 by (simp add: line_at_def exec_state_def at_header_field_start_def MARK_def Let_def)
  then have 1: "exec_loop settings data True c = exec_loop settings data False ?d"
    using next_turn[of c data n0 ns settings "?d\<lparr>pos := pos c\<rparr>"] input n by simp
  have in1: "drop ?p data = ns"
    using drop_more[of "pos c" data "[n0]"] input n by simp
  have long: "length data = ?p + length ns"
    using arg_cong[OF input, of length] n by simp
  obtain h i where l: "field_loop ns ?p (first_header_state (TOKEN n0)) 0 = Some (?p + length ns, h, i)" and h: "field_state h" "recognised h = h_general"
    using general_field[OF ns cls, of ?p] by blast
  show ?thesis
  proof (cases ns)
    case Nil
    have "exec_loop settings data False ?d = Some (length data, ?d\<lparr>app := field_read HTTP_REQUEST name a, marks := \<lambda>_. None\<rparr>)"
      using c long input Nil by (intro finish_name[where p = "pos c"]) (simp_all add: line_at_def)
    with 1 l Nil h c room show ?thesis
      by (intro exI[of _ "?d\<lparr>app := field_read HTTP_REQUEST name a, marks := \<lambda>_. None\<rparr>"]) (simp add: name_cut_def line_at_def room_def)
  next
    case (Cons n1 ns')
    let ?e = "?d\<lparr>nread := nread c + 1\<rparr>"
    have r: "unat (nread c) < HTTP_MAX_HEADER_SIZE" "room (length ns + k) ?e"
      using room room_step[of "length ns + k" c] n by (auto simp: room_def)
    have 2: "exec_loop settings data False ?d = exec_loop settings data True ?e"
      using count_turn[of ?d data settings] r(1) long Cons by (simp add: PARSING_HEADER_def)
    let ?f = "?e\<lparr>header_state := h, index := i, nread := nread ?e + of_nat (length ns), pos := ?p + length ns\<rparr>"
    have "at_header_field settings data ?e = Next (?f\<lparr>pos := ?p + length ns - 1\<rparr>)"
      using r(2) l in1 long by (simp add: at_header_field_def count_fits room_def)
    then have "exec_loop settings data True ?e = exec_loop settings data False ?f"
      using next_turn[of ?e data n1 ns' settings "?f\<lparr>pos := ?p + length ns - 1\<rparr>"] in1 Cons by (simp add: exec_state_def)
    moreover have "exec_loop settings data False ?f = Some (length data, ?f\<lparr>app := field_read HTTP_REQUEST name a, marks := \<lambda>_. None\<rparr>)"
      using c long input n by (intro finish_name[where p = "pos c"]) (simp_all add: line_at_def)
    moreover have "room k ?f"
      using r(2) count_fits(2)[of ?e "length ns"] by (simp add: room_def)
    ultimately show ?thesis
      using 1 2 h c by (intro exI[of _ "?f\<lparr>app := field_read HTTP_REQUEST name a, marks := \<lambda>_. None\<rparr>"]) (simp add: name_cut_def line_at_def room_def)
  qed
qed


text \<open>
  The next segment begins with the colon: the callback for the rest of the name gets no bytes and
  clears \<open>currentHeaderField\<close>, so the callback for the value fails.
\<close>

lemma colon_read:
  assumes c: "name_cut a c" "marks c = (\<lambda>_. None)(Header_field := Some 0)" "pos c = 0"
    and data: "data = byte_of CHR '':'' # byte_of CHR '' '' # v @ CR # rest"
    and v: "v \<noteq> []" "hd v \<noteq> byte_of CHR '' ''" "hd v \<noteq> 9" "list_all (\<lambda>ch. IS_HEADER_CHAR ch \<and> ch \<noteq> CR \<and> ch \<noteq> LF) v"
    and room: "room (length v + 3) c"
  shows "\<exists>n c'. exec_loop settings data False c = Some (n, c') \<and> http_errno c' = HPE_CB_header_value \<and>
    app c' = emit (Logged ''HTTP: onHeaderValue, no field before'') (field_read HTTP_REQUEST [] a)"
proof -
  obtain v0 vs where v0: "v = v0 # vs"
    using v(1) by (cases v) auto
  let ?d = "c\<lparr>nread := nread c + 1\<rparr>"
  have r: "unat (nread c) < HTTP_MAX_HEADER_SIZE" "room (length v + 2) ?d"
    using room room_step[of "length v + 2" c] by (auto simp: room_def)
  have 1: "exec_loop settings data False c = exec_loop settings data True ?d"
    using count_turn[of c data settings] r(1) c data by (simp add: name_cut_def PARSING_HEADER_def)
  let ?b = "?d\<lparr>app := field_read HTTP_REQUEST [] a, marks := \<lambda>_. None, state := s_header_value_discard_ws\<rparr>"
  have l: "field_loop (drop (pos ?d) data) (pos ?d) (header_state ?d) (index ?d) = Some (0, header_state c, index c)"
    using c(3) data version_bytes(13,14) by simp
  have cb: "CALLBACK_DATA settings data Header_field (?d\<lparr>state := s_header_value_discard_ws\<rparr>) Next = Next ?b"
    using c by (subst field_callback[where p = 0 and t = HTTP_REQUEST and n = "[]"]) (simp_all add: name_cut_def)
  have same: "?d\<lparr>pos := 0, header_state := header_state c, index := index c\<rparr> = ?d"
    using c(3) by (cases c) simp
  have count: "COUNT_HEADER_SIZE (0 - pos ?d) ?d k = k ?d" for k :: "http_app exec \<Rightarrow> http_app step"
    using count_fits(1)[of ?d 0 k] r(2) by (simp add: room_def)
  have "at_header_field settings data ?d = Next ?b"
    unfolding at_header_field_def l option.case prod.case same count using cb data by simp
  then have 2: "exec_loop settings data True ?d = exec_loop settings data False (?b\<lparr>pos := 1\<rparr>)"
    using next_turn[of ?d data "byte_of CHR '':''" "byte_of CHR '' '' # v @ CR # rest" settings ?b] c data
    by (simp add: name_cut_def exec_state_def)
  let ?e = "value_entered (?b\<lparr>pos := 1\<rparr>)"
  have "room (length vs + 3 + 0) (?b\<lparr>pos := 1\<rparr>)"
    using r(2) v0 by (simp add: room_def)
  then have 3: "exec_loop settings data False (?b\<lparr>pos := 1\<rparr>) = exec_loop settings data True ?e" and in1: "drop (pos ?e) data = vs @ CR # rest"
    and r3: "room (length vs + 0) ?e"
    using value_enter[where c = "?b\<lparr>pos := 1\<rparr>" and data = data and ch = v0 and vs = vs and rest = rest and k = 0] c v v0 data
    by (simp_all add: name_cut_def)
  let ?f = "?e\<lparr>pos := pos ?e + length vs, state := s_header_almost_done, header_state := h_general\<rparr>"
  let ?a = "emit (Logged ''HTTP: onHeaderValue, no field before'') (field_read HTTP_REQUEST [] a)"
  have small: "length vs < HTTP_MAX_HEADER_SIZE"
    using r(2) v0 by (simp add: room_def)
  have "at_header_value settings data ?e = CALLBACK_DATA settings data Header_value ?f (value_end data (pos ?e) h_general)"
    using value_loop_skip[OF in1 _ small, of settings "pos ?e"] v(4) v0 by (simp add: at_header_value_def value_entered_def)
  also have "\<dots> = Return (pos ?f + 1) (?f\<lparr>app := ?a, http_errno := HPE_CB_header_value\<rparr>)"
  proof -
    have "length data = pos ?f + 1 + length rest"
      using data v0 by (simp add: value_entered_def)
    moreover have "hq_currentHeaderField (currentHttpRequest (field_read HTTP_REQUEST [] a)) = []"
      by (simp add: field_read_def on_request_def)
    ultimately show ?thesis
      using c by (simp add: callback_defs callback_data_def settings_def onHeaderValue_def HttpParser.truncate_def value_entered_def name_cut_def Let_def)
  qed
  finally have "exec_turn settings data True ?e = Return (pos ?f + 1) (?f\<lparr>app := ?a, http_errno := HPE_CB_header_value\<rparr>)"
    using nth_input[OF in1] by (simp add: exec_turn_def exec_state_def value_entered_def)
  then have "exec_loop settings data True ?e = Some (pos ?f + 1, ?f\<lparr>app := ?a, http_errno := HPE_CB_header_value\<rparr>)"
    by (subst exec_loop.simps) simp
  with 1 2 3 show ?thesis by simp
qed

definition cut_parser :: "nat \<Rightarrow> HttpParser \<Rightarrow> bool" where
  "cut_parser k p \<longleftrightarrow> state p = s_header_field \<and> p_type p = HTTP_REQUEST \<and> http_errno p = HPE_OK \<and> field_state (header_state p) \<and>
     recognised (header_state p) = h_general \<and> unat (nread p) + k \<le> HTTP_MAX_HEADER_SIZE"

lemma cut_executed:
  assumes p: "parser_ready p" and m: "m \<noteq> HTTP_CONNECT" "valid_url u" "list_all valid_header hs"
    and name: "name \<noteq> []" "is_name name" "header_class (map TOKEN name) = h_general"
    and size: "length (request_line m u @ concat (map header_line hs) @ name) + Suc k \<le> HTTP_MAX_HEADER_SIZE"
  shows "\<exists>n p' a'. http_parser_execute settings (request_line m u @ concat (map header_line hs) @ name) p a = Some (n, p', a') \<and> cut_parser k p' \<and>
    outputs a' = outputs a \<and> aborted a' = aborted a"
proof -
  let ?hs = "concat (map header_line hs)"
  let ?data = "request_line m u @ ?hs @ name"
  let ?c = "(begin_exec p a)\<lparr>marks := first_marks (state p)\<rparr>"
  let ?a = "fold (header_read HTTP_REQUEST) hs (url_read u a)"
  have "first_marks s_start_req = (\<lambda>_. None)"
    by (rule ext) (simp add: first_marks_def)
  then have c: "ready a ?c" and in0: "drop (pos ?c) ?data = request_line m u @ ?hs @ name"
    using p by (simp_all add: ready_def parser_ready_def begin_exec_def HttpParser.extend_def)
  have room: "room (length (request_line m u) + (length ?hs + Suc (length name + k))) ?c"
    using size c by (simp add: room_def ready_def)
  obtain c1 where w: "walk settings ?data (request_line m u) ?c = Some c1" and c1: "line_at HTTP_REQUEST s_header_field_start (url_read u a) c1"
    using request_line_read[of ?c m u ?data "?hs @ name"] c m in0 by (auto simp: ready_def)
  have e1: "exec_loop settings ?data False ?c = exec_loop settings ?data False c1" "drop (pos c1) ?data = ?hs @ name" "room (length ?hs + Suc (length name + k)) c1"
    using walk_run[OF w in0 room] by blast+
  obtain c2 where c2: "exec_loop settings ?data False c1 = exec_loop settings ?data False c2" "drop (pos c2) ?data = name" "room (Suc (length name + k)) c2"
      "at_line HTTP_REQUEST ?a c2"
    using header_lines_read[OF _ _ m(3) e1(2,3)] c1 by (auto simp: at_line_def)
  obtain n0 ns where n: "name = n0 # ns"
    using name(1) by (cases name) auto
  then have n0: "n0 \<noteq> byte_of CHR '' ''" "n0 \<noteq> 9"
    using name(2) version_bytes by auto
  note r = c2(3)
  obtain c3 where c3: "exec_loop settings ?data False c2 = exec_loop settings ?data True c3" "line_at HTTP_REQUEST s_header_field_start ?a c3"
      "pos c3 = pos c2" "nread c3 = nread c2 + 1"
    using line_start[OF c2(4) _ n0, of ?data ns settings] c2(2) n room_step[OF r] by blast
  have r3: "room (length name + k) c3"
    using r room_step[OF r] c3(4) by (simp add: room_def)
  obtain c4 where c4: "exec_loop settings ?data True c3 = Some (length ?data, c4)" "name_cut (field_read HTTP_REQUEST name ?a) c4" "room k c4"
    using cut_name_read[OF c3(2) _ name, of ?data k] c2(2) c3(3) r3 by metis
  have data: "?data \<noteq> []"
    using n by simp
  have "http_parser_execute settings ?data p a = Some (length ?data, HttpParser.truncate c4, field_read HTTP_REQUEST name ?a)"
    using execute_loop[OF data, of p settings a] p e1(1) c2(1) c3(1) c4 by (simp add: parser_ready_def name_cut_def)
  moreover have "cut_parser k (HttpParser.truncate c4)"
    using c4(2,3) by (simp add: cut_parser_def name_cut_def room_def HttpParser.truncate_def)
  moreover have "outputs (field_read HTTP_REQUEST name ?a) = outputs a \<and> aborted (field_read HTTP_REQUEST name ?a) = aborted a"
  proof -
    obtain f where "?a = (url_read u a)\<lparr>currentHttpRequest := (currentHttpRequest (url_read u a))\<lparr>
       hq_headers := hq_headers (currentHttpRequest (url_read u a)) ++ header_map hs,
       hq_bytes := hq_bytes (currentHttpRequest (url_read u a)) + int (header_bytes hs), hq_currentHeaderField := f\<rparr>\<rparr>"
      using headers_read by blast
    then show ?thesis
      by (simp add: field_read_def url_read_def on_request_def)
  qed
  ultimately show ?thesis by blast
qed

lemma colon_executed:
  assumes p: "cut_parser (length v + 3) p"
    and v: "v \<noteq> []" "hd v \<noteq> byte_of CHR '' ''" "hd v \<noteq> 9" "list_all (\<lambda>ch. IS_HEADER_CHAR ch \<and> ch \<noteq> CR \<and> ch \<noteq> LF) v"
  shows "\<exists>n p' a'. http_parser_execute settings (byte_of CHR '':'' # byte_of CHR '' '' # v @ CR # rest) p a = Some (n, p', a') \<and>
    http_errno p' = HPE_CB_header_value \<and> outputs a' = outputs a @ [Logged ''HTTP: onHeaderValue, no field before''] \<and> aborted a' = aborted a"
proof -
  let ?data = "byte_of CHR '':'' # byte_of CHR '' '' # v @ CR # rest"
  let ?c = "(begin_exec p a)\<lparr>marks := first_marks (state p)\<rparr>"
  have "first_marks s_header_field = (\<lambda>_. None)(Header_field := Some 0)"
    by (rule ext) (simp add: first_marks_def)
  with p have c: "name_cut a ?c" "marks ?c = (\<lambda>_. None)(Header_field := Some 0)" "pos ?c = 0" "room (length v + 3) ?c"
    by (simp_all add: name_cut_def cut_parser_def begin_exec_def HttpParser.extend_def room_def)
  obtain n c' where c': "exec_loop settings ?data False ?c = Some (n, c')" "http_errno c' = HPE_CB_header_value"
      "app c' = emit (Logged ''HTTP: onHeaderValue, no field before'') (field_read HTTP_REQUEST [] a)"
    using colon_read[OF c(1-3) refl v c(4)] by blast
  have "http_parser_execute settings ?data p a = Some (n, HttpParser.truncate c', app c')"
    using execute_loop[of ?data p settings a] p c'(1) by (simp add: cut_parser_def)
  moreover have "http_errno (HttpParser.truncate c') = HPE_CB_header_value"
    using c'(2) by (simp add: HttpParser.truncate_def)
  moreover have "outputs (app c') = outputs a @ [Logged ''HTTP: onHeaderValue, no field before'']" "aborted (app c') = aborted a"
    using c'(3) by (simp_all add: emit_def field_read_def on_request_def)
  ultimately show ?thesis by blast
qed

definition client_dead :: "tuple4 \<Rightarrow> Http \<Rightarrow> bool" where
  "client_dead t4 h \<longleftrightarrow> (\<exists>d. http_table h t4 = Some d \<and> http_errno (requestParser d) \<noteq> HPE_OK)"

lemma dead_run:
  assumes "dest t4 = 80"
  shows "client_dead t4 h \<Longrightarrow> \<exists>h'. http_run (map (\<lambda>(t', b). (t', TcpData i t4 b FROMCLIENT)) later) h = Some ([], h')"
proof (induction later arbitrary: h)
  case (Cons x later)
  obtain t' b where x: "x = (t', b)" by (cases x)
  obtain d where d: "http_table h t4 = Some d" "http_errno (requestParser d) \<noteq> HPE_OK"
    using Cons.prems by (auto simp: client_dead_def)
  then have "http_parser_execute settings b (requestParser d) (app_of d) = Some (0, requestParser d, app_of d)"
    by (simp add: http_parser_execute_def)
  then obtain h1 where "http_onTcpData t4 b FROMCLIENT h = Some ([], h1)" "client_dead t4 h1"
    using d assms by (simp add: http_onTcpData_def run_parser_def client_dead_def) (simp add: app_of_def)
  with Cons.IH[of h1] x show ?case by auto
qed simp

text \<open>
  C16: A request is lost where its client cuts a header name off its colon. If a segment ends right
  behind a name and the next begins with the colon, \<open>onHeaderFiled\<close> is called again with no bytes
  and assigns the empty string, \<open>onHeaderValue\<close> fails on it, and the error stops the parser for
  good: the request is not reported, and neither is any later one of the connection. Only the log
  entry is left.
\<close>

theorem http_split_name_lost:
  assumes "dest t4 = 80" and "http_table h t4 = None" and "valid_request (m, u, hs @ [(name, v)])"
  shows "\<exists>h'. http_run ((t, TcpConnected i t4) #
      (t1, TcpData i t4 (request_line m u @ concat (map header_line hs) @ name) FROMCLIENT) #
      (t2, TcpData i t4 (byte_of CHR '':'' # byte_of CHR '' '' # v @ CR # rest) FROMCLIENT) #
      map (\<lambda>(t', b). (t', TcpData i t4 b FROMCLIENT)) later) h = Some ([Logged ''HTTP: onHeaderValue, no field before''], h')"
proof -
  have v: "m \<noteq> HTTP_CONNECT" "valid_url u" "list_all valid_header hs"
      "name \<noteq> []" "is_name name" "header_class (map TOKEN name) = h_general"
      "v \<noteq> []" "hd v \<noteq> byte_of CHR '' ''" "hd v \<noteq> 9" "list_all (\<lambda>ch. IS_HEADER_CHAR ch \<and> ch \<noteq> CR \<and> ch \<noteq> LF) v"
    using assms(3) by (simp_all add: valid_request_def valid_header_def)
  have size: "length (request_line m u @ concat (map header_line hs) @ name) + Suc (length v + 3) \<le> HTTP_MAX_HEADER_SIZE"
    using assms(3) by (simp add: valid_request_def encode_request_def header_line_def)
  obtain h1 where h1: "onTcpConnection t4 t h = Some ([], h1)" "client_ready t4 t h1"
    using connection_ready[OF assms(1,2)] by blast
  obtain d where d: "http_table h1 t4 = Some d" "parser_ready (requestParser d)" "idle_app t4 t (app_of d)"
    using h1(2) by (auto simp: client_ready_def)
  obtain n p a where p: "http_parser_execute settings (request_line m u @ concat (map header_line hs) @ name) (requestParser d) (app_of d) = Some (n, p, a)"
      "cut_parser (length v + 3) p" "outputs a = []" "\<not> aborted a"
    using cut_executed[OF d(2) v(1-6) size, of "app_of d"] by (auto simp: app_of_def)
  then obtain h2 d2 where h2: "http_onTcpData t4 (request_line m u @ concat (map header_line hs) @ name) FROMCLIENT h1 = Some ([], h2)"
      "http_table h2 t4 = Some d2" "cut_parser (length v + 3) (requestParser d2)"
    using d(1) assms(1) by (simp add: http_onTcpData_def run_parser_def)
  obtain n' p' a' where p': "http_parser_execute settings (byte_of CHR '':'' # byte_of CHR '' '' # v @ CR # rest) (requestParser d2) (app_of d2) = Some (n', p', a')"
      "http_errno p' = HPE_CB_header_value" "outputs a' = [Logged ''HTTP: onHeaderValue, no field before'']" "\<not> aborted a'"
    using colon_executed[OF h2(3) v(7-10), of rest "app_of d2"] by (auto simp: app_of_def)
  then obtain h3 where h3: "http_onTcpData t4 (byte_of CHR '':'' # byte_of CHR '' '' # v @ CR # rest) FROMCLIENT h2 =
      Some ([Logged ''HTTP: onHeaderValue, no field before''], h3)" "client_dead t4 h3"
    using h2(2) assms(1) by (simp add: http_onTcpData_def run_parser_def client_dead_def)
  obtain h' where "http_run (map (\<lambda>(t', b). (t', TcpData i t4 b FROMCLIENT)) later) h3 = Some ([], h')"
    using dead_run[OF assms(1) h3(2)] by blast
  with h1(1) h2(1) h3(1) show ?thesis by simp
qed

lemma cut_request_valid: "valid_request (HTTP_GET, bytes_of ''/'', [] @ [(bytes_of ''Host'', bytes_of ''b'')])"
proof -
  have "valid_url (bytes_of ''/'')" "valid_header (bytes_of ''Host'', bytes_of ''b'')"
    by code_simp+
  then show ?thesis
    by (simp add: valid_request_def encode_request_def request_line_def header_line_def http_method_str_def bytes_of_def HTTP_MAX_HEADER_SIZE_def)
qed

theorem http_split_name_lost_witness:
  "\<exists>h'. http_run [(\<lparr>tv_sec = 7, tv_usec = 0\<rparr>, TcpConnected 0 \<lparr>source = 5000, dest = 80, saddr = 1, daddr = 2\<rparr>),
      (\<lparr>tv_sec = 8, tv_usec = 0\<rparr>, TcpData 0 \<lparr>source = 5000, dest = 80, saddr = 1, daddr = 2\<rparr> (request_line HTTP_GET (bytes_of ''/'') @ bytes_of ''Host'') FROMCLIENT),
      (\<lparr>tv_sec = 9, tv_usec = 0\<rparr>, TcpData 0 \<lparr>source = 5000, dest = 80, saddr = 1, daddr = 2\<rparr> (bytes_of '': b'' @ [CR, LF, CR, LF]) FROMCLIENT)]
      (Http_init (\<lambda>_. 0)) = Some ([Logged ''HTTP: onHeaderValue, no field before''], h')"
proof -
  have "bytes_of '': b'' @ [CR, LF, CR, LF] = byte_of CHR '':'' # byte_of CHR '' '' # bytes_of ''b'' @ CR # [LF, CR, LF]"
    by (simp add: bytes_of_def)
  then show ?thesis
    using http_split_name_lost[of "\<lparr>source = 5000, dest = 80, saddr = 1, daddr = 2\<rparr>" "Http_init (\<lambda>_. 0)" HTTP_GET "bytes_of ''/''" "[]" "bytes_of ''Host''" "bytes_of ''b''"
      "\<lparr>tv_sec = 7, tv_usec = 0\<rparr>" 0 "\<lparr>tv_sec = 8, tv_usec = 0\<rparr>" "\<lparr>tv_sec = 9, tv_usec = 0\<rparr>" "[LF, CR, LF]" "[]"] cut_request_valid
    by (simp add: Http_init_def del: http_run.simps)
qed

end
