(* ===== verification/Spec2Isabelle.thy ===== *)
theory Spec2Isabelle
  imports Noff Http_Flow Http_Response Http_Split Http_Names
begin

text \<open>
  \<^bold>\<open>noff\<close> is a passive network monitor. A capture thread reads frames with libpcap, strips the
  link header and deals IP packets out to worker threads; every worker reassembles IP
  fragments, follows TCP connections and hands their data to protocol handlers, whose records
  go out over UDP as tab-separated text.

  \<^bold>\<open>Theories and code.\<close> Definitions keep the names of the code.

  \<^item> \<open>Prelude\<close>: machine integers, buffers with bounds-checked reads (\<open>rd8\<close>, \<open>rd16\<close>, ...: \<open>None\<close> is
    a read outside the buffer), decimal printing, the collections of simplification rules.
  \<^item> \<open>Net_Util\<close>: \<open>dpi/Util.h\<close> (\<open>tuple4\<close>, \<open>before\<close>, \<open>after\<close>, \<open>to_string\<close>) and the overlays
    \<open>struct ip\<close>, \<open>tcphdr\<close>, \<open>udphdr\<close> that the code casts buffers to.
  \<^item> \<open>Capture\<close>: \<open>dpi/Capture.cc\<close>; state \<open>capture\<close>, operations \<open>initLinkType\<close>, \<open>onPacket\<close>,
    \<open>startLoop\<close>, \<open>breakLoop\<close>.
  \<^item> \<open>Hashing\<close>: \<open>dpi/Hash.cc\<close> and \<open>dpi/Sharding.cc\<close>, the index permutations, the key of the TCP
    table and the direction-independent hash; the locale \<open>keyed_table\<close> is the contract between
    a hashed table and its users.
  \<^item> \<open>Task_Queue\<close> and \<open>Dispatcher\<close>: \<open>dpi/TaskQueue.cc\<close>, \<open>dpi/Dispatcher.cc\<close>; a queue per worker,
    the inductive relation \<open>reached\<close> for the interleavings of producer and worker, and the
    locale \<open>task_fifo\<close> for the concurrent queue of the library the code uses.
  \<^item> \<open>Timer_List\<close>, \<open>Ip_Reassembly\<close>, \<open>Ip_Fragment\<close>: \<open>dpi/IpFragment.cc\<close>; the linked timer list
    (locale \<open>timer_queue\<close>, interpreted on the links), the fragment chain of one datagram, and the
    handler \<open>startIpfragProc\<close> with the host table, the timers and the memory account.
  \<^item> \<open>Tcp_Stream\<close>, \<open>Tcp_Fragment\<close>: \<open>dpi/TcpFragment.cc\<close>; the two halves of a connection with
    \<open>tcpQueue\<close> and \<open>addFromskb\<close>, and \<open>processTcp\<close> with the stream table, the two timeout sets and
    the callbacks.
  \<^item> \<open>Timers\<close>: \<open>util/Timer.cc\<close>, \<open>app/mac/MacCount.cc\<close>, \<open>app/protocol/ProtocolPacketCounter.cc\<close>; the
    locale \<open>second_gate\<close> is what the counters rely on.
  \<^item> \<open>Tcp_Session\<close>: \<open>app/header/TcpHeader.cc\<close> and \<open>app/header/TcpSession.cc\<close>; a table of sessions and
    a wheel of buckets that closes idle ones.
  \<^item> \<open>Dns_Parser\<close>: \<open>dpi/Udp.cc\<close> and \<open>app/dns/Dnsparser.cc\<close>.
  \<^item> \<open>Http_Url\<close>, \<open>Http_Parser\<close>: \<open>app/http/HttpParser.cc\<close>. \<open>http_parser_execute\<close> is one definition \<open>at_...\<close>
    per group of \<open>case\<close> labels, over the record \<open>exec\<close> of the parser, the position, the marks and the
    state of the callbacks; a label ends in \<open>Next\<close>, \<open>Reexecute\<close> or \<open>Return\<close>, and \<open>exec_loop\<close> goes on.
  \<^item> \<open>Http_Safety\<close>: the invariant of the parser and that it never fails; \<open>Http_Client\<close>: the locale
    \<open>parser_client\<close>, the contract between the parser and the callbacks it is given, with what follows for
    the callbacks of \<open>Http.cc\<close> and for the type of a parser from its interpretations.
  \<^item> \<open>Http_App\<close>: \<open>app/http/Http.cc\<close>, the table of connections and the callbacks of the parser.
    \<open>Http_Names\<close>, \<open>Http_Lines\<close>, \<open>Http_Message\<close>, \<open>Http_Response\<close>, \<open>Http_Split\<close>: the parser and the callbacks on
    names, lines, whole requests, a response, and a request cut at an unlucky place; runs
    through a line are equations of \<open>walk\<close>. \<open>Http_Tcp\<close>: what the TCP engine
    does with the segments of one connection and the callbacks they cause.
  \<^item> \<open>Command_Line\<close>, \<open>Worker\<close>, \<open>Noff\<close>: \<open>noff.cc\<close>; the options, the callbacks each thread registers, and
    the program around them in its two modes. \<open>feed_all\<close> runs any component over a list of inputs.
    \<open>Http_Flow\<close> puts the layers together for one HTTP connection, from its packets to the datagrams sent.

  \<^bold>\<open>How state and errors are modelled.\<close> An object is a record, an operation a function from the
  record to its results and the new record; callbacks are returned as events in the order of
  the calls. Pointers to objects that move between tables are numbers drawn at allocation,
  pointers into packets are suffixes of the packet. \<open>None\<close> is undefined behaviour or the end of
  the process, as each theory says; other errors are constructors. Words keep the width of the
  code where wrap-around matters (sequence numbers, DNS positions, checksummed lengths); a C
  \<open>int\<close> that only holds packet lengths, offsets and counts is an integer.

  \<^bold>\<open>What the lemmas show.\<close>

  \<^item> Link layer and dispatching: in-bounds reads, delivery of exactly the IP frames, flow
    affinity, a simulation of task queues by the dispatcher, order and bound of the queues, and
    shutdown.
  \<^item> IP: reassembly is sound for arbitrary fragments of a datagram and complete when
    consecutive ranges have arrived; the stateful handler refines the abstract queue, keeps its
    memory account exact, leaves no expired queue and never reaches its \<open>exit\<close>.
  \<^item> TCP: the bytes delivered are a prefix of the stream sent, and all of it once the segments
    cover it, with wrapping sequence numbers; the table and the timeout sets agree; callbacks of
    a stream follow the protocol connection, data, close.
  \<^item> DNS: reading names is memory safe and ends, names round trip, well-formed queries and
    responses are reported.
  \<^item> HTTP: the parser returns, fails no assertion and reads only its segments and constants; the
    table ends the process in exactly two cases; whole requests are reported exactly, with headers
    recognised as their lower-case names are; when a response is reported.
  \<^item> The program: options cannot overflow their arrays; a worker's run is its components' runs
    chained, with the datagrams sent being exactly their reports; only three kinds of packets
    end a worker; the packets of a connection with whole requests cause exactly the datagrams of these requests; the single-threaded program from frames to datagrams; with a dispatcher every
    worker has run on a prefix of the packets accepted for it.
  \<^item> Counters and sessions: nothing is lost between reports, each session is reported once,
    idle sessions are reported.
  \<^item> Behaviour that a reader may not expect is stated as theorems too: the sticky VLAN offset,
    lost TCP timeouts, fragments split between workers, two malformed DNS messages, a connection
    opened twice, a header name cut off its colon, UDP clients that share a port, and options that make
    \<open>main\<close> wait for ever.

  \<^bold>\<open>Bounds and fuel.\<close> Loops are structural recursion over the packet or over a fuel that the
  code's own bound gives (\<open>steps < datalen * 2\<close> when a DNS name is read; the number of
  fragments; the bytes of a TCP header). The second loop over a DNS name has no bound of its own
  and is a partial function; that it returns is proved from the first loop. \<open>stop\<close> of a task
  queue takes fuel for its retries, one more than the number of pending tasks is enough.

  The loops of the HTTP parser are recursive with measures: the outer one on the bytes left and
  the order in which states are executed again, the inner ones on the bytes left. A request is
  followed as long as its head has at most \<open>HTTP_MAX_HEADER_SIZE\<close> bytes, the parser's own bound. The clock of the
  fragment handler is an \<open>int\<close> of milliseconds, so what ends a worker is stated for packets
  within \<open>2^31\<close> ms of its start.

  \<^bold>\<open>Not modelled.\<close> libpcap, muduo, TBB and \<open>getopt\<close> are not part of the repository: the frames, the
  link type, the results of opening a device, the concurrent queue and the options found are parameters, as are
  the contents of uninitialised memory (\<open>ambient\<close>). Logging and capture statistics are left out, as are the
  socket of \<open>util/UdpClient\<close>, the names of HTTP errors and the parser's version number, the
  manual test programs under \<open>test\<close> and the unused \<open>TestCounter\<close>. The packet counter that worker threads
  share is run with the single-threaded program; for the threads only the calls they make are stated.
\<close>

end
